(* ===== verification/Prelude.thy ===== *)
theory Prelude
  imports Main "HOL-Library.Word" "HOL-Library.Multiset" "HOL-Library.Monad_Syntax"
begin

text \<open>
  Shared vocabulary of the development: the machine-integer types of the x86-64 build, the
  outcome of an operation that may block or never return, and generic facts on lists, sums and
  words that the component theories reuse.

  \<^item> \<open>u64\<close> is \<open>seL4_Word\<close>, \<open>size_t\<close>, \<open>seL4_CPtr\<close> and every pointer; \<open>u32\<close> is \<open>unsigned int\<close>.
  \<^item> \<open>'a outcome\<close> is what a call does: \<open>Done x\<close> returns \<open>x\<close>; \<open>Blocked\<close> waits for a mutex
    that is not released; \<open>Stuck\<close> does not return (a failed \<open>assert\<close>, which writes through a null
    pointer in \<open>runtime.h\<close>, an access outside the modelled memory, or a loop that does not end).
\<close>

type_synonym u64 = "64 word"
type_synonym u32 = "32 word"
type_synonym u8 = "8 word"
type_synonym CPtr = u64

datatype 'a outcome = Done 'a | Blocked | Stuck

fun and_then :: "'a outcome \<Rightarrow> ('a \<Rightarrow> 'b outcome) \<Rightarrow> 'b outcome" where
  "and_then (Done x) f = f x"
| "and_then Blocked f = Blocked"
| "and_then Stuck f = Stuck"

text \<open>An option-valued step of the model (\<open>None\<close>: a fault or an endless walk) as an outcome.\<close>

fun of_option :: "'a option \<Rightarrow> 'a outcome" where
  "of_option (Some x) = Done x"
| "of_option None = Stuck"

text \<open>\<open>assert\<close> of \<open>runtime.h\<close>: a failed assertion faults and does not return.\<close>

definition assert_that :: "bool \<Rightarrow> unit outcome" where
  "assert_that b = (if b then Done () else Stuck)"

fun_cases and_then_DoneE: "and_then m f = Done y"

lemma and_then_Done_iff:
  "and_then m f = Done y \<longleftrightarrow> (\<exists>x. m = Done x \<and> f x = Done y)"
  by (cases m) auto

lemma and_then_assoc: "and_then (and_then m f) g = and_then m (\<lambda>x. and_then (f x) g)"
  by (cases m) auto

lemma and_then_assert [simp]:
  "and_then (assert_that b) f = (if b then f () else Stuck)"
  by (simp add: assert_that_def)

lemma of_option_Done_iff [simp]: "of_option x = Done y \<longleftrightarrow> x = Some y"
  by (cases x) auto

subsection \<open>Sums over an updated list\<close>

lemma sum_list_map_update:
  fixes w :: "'a \<Rightarrow> int"
  assumes "i < length xs"
  shows "sum_list (map w (xs[i := x])) = sum_list (map w xs) + w x - w (xs ! i)"
  using assms
proof (induction xs arbitrary: i)
  case Nil
  then show ?case by simp
next
  case (Cons y ys)
  then show ?case by (cases i) auto
qed

lemma sum_list_map_nonneg:
  fixes w :: "'a \<Rightarrow> int"
  assumes "\<And>x. 0 \<le> w x"
  shows "0 \<le> sum_list (map w xs)"
  by (rule sum_list_nonneg) (use assms in auto)

lemma sum_list_map_member_le:
  fixes w :: "'a \<Rightarrow> int"
  assumes "\<And>x. 0 \<le> w x" and "i < length xs"
  shows "w (xs ! i) \<le> sum_list (map w xs)"
  using assms(2)
proof (induction xs arbitrary: i)
  case Nil
  then show ?case by simp
next
  case (Cons y ys)
  show ?case
  proof (cases i)
    case 0
    then show ?thesis using sum_list_map_nonneg [OF assms(1)] by simp
  next
    case (Suc j)
    with Cons have "w (ys ! j) \<le> sum_list (map w ys)" by simp
    then show ?thesis using Suc assms(1) [of y] by simp
  qed
qed

lemma sum_list_map_two_le:
  fixes w :: "'a \<Rightarrow> int"
  assumes "\<And>x. 0 \<le> w x" and "i < length xs" "j < length xs" "i \<noteq> j"
  shows "w (xs ! i) + w (xs ! j) \<le> sum_list (map w xs)"
  using assms(2-)
proof (induction xs arbitrary: i j)
  case Nil
  then show ?case by simp
next
  case (Cons y ys)
  note mem = sum_list_map_member_le [OF assms(1), where xs = ys]
  show ?case
  proof (cases i)
    case 0
    with Cons.prems obtain j' where "j = Suc j'" "j' < length ys" by (cases j) auto
    with 0 mem show ?thesis by simp
  next
    case (Suc i')
    note i = this
    show ?thesis
    proof (cases j)
      case 0
      with i Cons.prems mem [of i'] show ?thesis by simp
    next
      case (Suc j')
      with i Cons have "w (ys ! i') + w (ys ! j') \<le> sum_list (map w ys)" by simp
      then show ?thesis using i Suc assms(1) [of y] by simp
    qed
  qed
qed

lemma sum_list_map_le_length:
  fixes w :: "'a \<Rightarrow> int"
  assumes "\<And>x. w x \<le> c"
  shows "sum_list (map w xs) \<le> c * int (length xs)"
proof (induction xs)
  case (Cons x xs)
  then show ?case using assms [of x] by (simp add: algebra_simps)
qed simp

lemma sum_list_map_zero:
  fixes w :: "'a \<Rightarrow> int"
  shows "(\<forall>x \<in> set xs. w x = 0) \<Longrightarrow> sum_list (map w xs) = 0"
  by (induction xs) auto

end
