(* ===== verification/CString.thy ===== *)
theory CString
  imports Prelude
begin

text \<open>
  The C string functions of \<open>userland/lib/cstring.h\<close>. Characters are HOL \<open>char\<close>s read as the
  signed \<open>char\<close> of x86-64; \<open>long\<close> values are \<open>int\<close>s kept in range by the code's own checks, which
  the lemmas prove. The memory around a string is a function from offsets (relative to the
  pointer passed) to characters: \<open>strtol\<close> reads the byte before its argument, so offset -1 is
  part of the model.
\<close>

section \<open>Characters\<close>

definition NUL :: char where "NUL = CHR 0x00"

definition int_of_char :: "char \<Rightarrow> int" where
  "int_of_char c = (if (of_char c :: int) < 128 then of_char c else of_char c - 256)"

definition isprint :: "int \<Rightarrow> bool" where
  "isprint c \<longleftrightarrow> (word_of_int c :: u32) - 0x20 < 0x5f"

definition isdigit :: "int \<Rightarrow> bool" where
  "isdigit c \<longleftrightarrow> 48 \<le> c \<and> c \<le> 57"

definition isalpha :: "int \<Rightarrow> bool" where
  "isalpha c \<longleftrightarrow> (97 \<le> c \<and> c \<le> 122) \<or> (65 \<le> c \<and> c \<le> 90)"

definition isspace :: "int \<Rightarrow> bool" where
  "isspace c \<longleftrightarrow> c = 32 \<or> c = 9"

definition tolower :: "int \<Rightarrow> int" where
  "tolower c = (if \<not> isalpha c then c else if 65 \<le> c \<and> c \<le> 90 then c - 65 else c)"

definition toupper :: "int \<Rightarrow> int" where
  "toupper ch = (if 97 \<le> ch \<and> ch \<le> 122 then 65 + ch - 97 else ch)"

lemma isprint_range: "0 \<le> c \<Longrightarrow> c < 256 \<Longrightarrow> isprint c \<longleftrightarrow> 32 \<le> c \<and> c \<le> 126"
proof -
  assume c: "0 \<le> c" "c < 256"
  have "uint (word_of_int c - 0x20 :: u32) = (c - 32) mod 2 ^ 32"
  proof -
    have "uint (word_of_int c :: u32) = c" using c by (simp add: unsigned_of_int take_bit_int_eq_self)
    then show ?thesis by (simp add: uint_word_ariths)
  qed
  moreover have "(c - 32) mod 2 ^ 32 = (if c < 32 then c - 32 + 2 ^ 32 else c - 32)"
  proof (cases "c < 32")
    case True
    then have "(c - 32) mod 2 ^ 32 = (c - 32 + 2 ^ 32) mod 2 ^ 32"
      by (simp only: mod_add_self2)
    also have "\<dots> = c - 32 + 2 ^ 32" using c True by (intro mod_pos_pos_trivial) auto
    finally show ?thesis using True by simp
  qed (use c in simp)
  ultimately show ?thesis
    using c by (auto simp: isprint_def word_less_def split: if_splits)
qed

section \<open>Strings in memory\<close>

type_synonym memory = "int \<Rightarrow> char"

text \<open>The string \<open>s\<close> and its terminator stand at offset \<open>p\<close>.\<close>

definition text_at :: "memory \<Rightarrow> int \<Rightarrow> string \<Rightarrow> bool" where
  "text_at m p s \<longleftrightarrow> (\<forall>i < length s. m (p + int i) = s ! i \<and> s ! i \<noteq> NUL) \<and> m (p + int (length s)) = NUL"

text \<open>A string as its owner passes it: \<open>b0\<close> is the byte in front, anything behind is zero.\<close>

definition c_mem :: "char \<Rightarrow> string \<Rightarrow> memory" where
  "c_mem b0 s i = (if i < 0 then b0 else if nat i < length s then s ! nat i else NUL)"

fun strlen :: "string \<Rightarrow> nat" where
  "strlen [] = 0"
| "strlen (c # cs) = (if c = NUL then 0 else Suc (strlen cs))"

lemma strlen_le: "strlen s \<le> length s"
  by (induction s) auto

lemma strlen_no_nul: "NUL \<notin> set s \<Longrightarrow> strlen s = length s"
  by (induction s) auto

lemma text_at_c_mem: "NUL \<notin> set s \<Longrightarrow> text_at (c_mem b0 s) 0 s"
  by (auto simp: text_at_def c_mem_def in_set_conv_nth)

fun memset :: "memory \<Rightarrow> int \<Rightarrow> char \<Rightarrow> nat \<Rightarrow> memory" where
  "memset m p c 0 = m"
| "memset m p c (Suc len) = memset (m(p := c)) (p + 1) c len"

lemma memset_apply: "memset m p c len i = (if p \<le> i \<and> i < p + int len then c else m i)"
  by (induction len arbitrary: m p) auto

text \<open>\<open>strncpy\<close>: the destination memory from offset \<open>i\<close> on, the source, the count left.\<close>

fun strncpy_loop :: "memory \<Rightarrow> int \<Rightarrow> string \<Rightarrow> nat \<Rightarrow> memory" where
  "strncpy_loop d i [] num = d(i := NUL)"
| "strncpy_loop d i (c # cs) num =
     (if c \<noteq> NUL \<and> num \<noteq> 0 then strncpy_loop (d(i := c)) (i + 1) cs (num - 1) else d(i := NUL))"

definition strncpy :: "memory option \<Rightarrow> string \<Rightarrow> nat \<Rightarrow> memory option" where
  "strncpy destination source num =
     (case destination of None \<Rightarrow> None | Some d \<Rightarrow> Some (strncpy_loop d 0 source num))"

lemma strncpy_loop_apply:
  "strncpy_loop d i s num j =
     (let n = min (strlen s) num in
      if i \<le> j \<and> j < i + int n then s ! nat (j - i) else if j = i + int n then NUL else d j)"
proof (induction s arbitrary: d i num)
  case Nil
  then show ?case by auto
next
  case (Cons c cs)
  show ?case
  proof (cases "c \<noteq> NUL \<and> num \<noteq> 0")
    case True
    then obtain k where k: "num = Suc k" by (cases num) auto
    have "nat (j - i) = Suc (nat (j - (i + 1)))" if "i < j" using that by simp
    moreover have "strncpy_loop d i (c # cs) num j = strncpy_loop (d(i := c)) (i + 1) cs k j"
      using True k by simp
    ultimately show ?thesis
      using True k unfolding Cons.IH [of "d(i := c)" "i + 1" k] by (auto simp: Let_def)
  next
    case False
    then show ?thesis by (auto simp: Let_def)
  qed
qed

section \<open>strtol\<close>

definition LONG_MIN :: int where "LONG_MIN = - (2 ^ 63)"
definition LONG_MAX :: int where "LONG_MAX = 2 ^ 63 - 1"

datatype c_errno = NoErrno | EINVAL | ERANGE

text \<open>C division truncates towards zero.\<close>

definition tdiv :: "int \<Rightarrow> int \<Rightarrow> int" where
  "tdiv a b = (if a < 0 then - (- a div b) else a div b)"

text \<open>The value of a digit or letter, -1 for another character.\<close>

definition digit_number :: "char \<Rightarrow> int" where
  "digit_number c =
     (let ch = int_of_char c;
          number = (if 48 \<le> ch \<and> ch \<le> 57 then ch - 48 else -1)
      in if isalpha ch then toupper ch - 55 else number)"

text \<open>One accepted digit: the new sum and \<open>errno\<close>.\<close>

definition add_digit :: "int \<Rightarrow> int \<Rightarrow> int \<Rightarrow> int \<Rightarrow> c_errno \<Rightarrow> int \<times> c_errno" where
  "add_digit base sign number sm err =
     (if sign = -1 then
        (if tdiv (LONG_MIN + number) base \<le> sm then (sm * base - number, err) else (LONG_MIN, ERANGE))
      else
        (if sm \<le> tdiv (LONG_MAX - number) base then (sm * base + number, err) else (LONG_MAX, ERANGE)))"

partial_function (option) skip_spaces :: "memory \<Rightarrow> int \<Rightarrow> int option" where
  "skip_spaces m pos = (if isspace (int_of_char (m pos)) then skip_spaces m (pos + 1) else Some pos)"

abbreviation is_x :: "char \<Rightarrow> bool" where
  "is_x c \<equiv> c = CHR ''x'' \<or> c = CHR ''X''"

partial_function (option) strtol_loop ::
    "memory \<Rightarrow> int \<Rightarrow> int \<Rightarrow> int \<Rightarrow> int \<Rightarrow> c_errno \<Rightarrow> (int \<times> int \<times> c_errno) option" where
  "strtol_loop m base sign pos sm err =
     (if m pos = NUL then Some (sm, pos, err)
      else (let number = digit_number (m pos) in
        if number < base \<and> number \<noteq> -1 then
          strtol_loop m base sign (pos + 1) (fst (add_digit base sign number sm err))
            (snd (add_digit base sign number sm err))
        else if base = 16 \<and> number > base \<and> is_x (m (pos - 1)) then Some (sm, pos - 1, err)
        else Some (sm, pos, err)))"

text \<open>The prefix of a number: the position and the base after it.\<close>

definition strtol_prefix :: "memory \<Rightarrow> int \<Rightarrow> int \<Rightarrow> int \<times> int" where
  "strtol_prefix m pos base =
     (let pos =
        (if base = 16 \<or> base = 8 then
           (let pos = (if base = 16 \<and> m pos = CHR ''0'' then pos + 1 else pos);
                pos = (if base = 16 \<and> is_x (m pos) then pos + 1 else pos)
            in if base = 8 \<and> m pos = CHR ''0'' then pos + 1 else pos)
         else pos)
      in if base = 0 then
           (if m pos = CHR ''0'' then
              (if is_x (m (pos + 1)) then (pos + 2, 16) else (pos + 1, 8))
            else (pos, 10))
         else (pos, base))"

text \<open>
  The result: the value, what \<open>*endPtr\<close> is set to (\<open>None\<close> where the function returns before
  setting it), \<open>errno\<close>.
\<close>

definition strtol :: "memory \<Rightarrow> int \<Rightarrow> (int \<times> int option \<times> c_errno) option" where
  "strtol m base =
     (if m 0 = NUL then Some (0, None, NoErrno)
      else do {
        pos \<leftarrow> skip_spaces m 0;
        let sign = (if m pos = CHR ''-'' then -1 else 1);
        let pos = (if m pos = CHR ''-'' then pos + 1 else pos);
        let pos = (if m pos = CHR ''+'' then pos + 1 else pos);
        let (pos, base) = strtol_prefix m pos base;
        if (base < 2 \<or> base > 36) \<and> base \<noteq> 0 then Some (0, None, EINVAL)
        else do {
          (sm, pos, err) \<leftarrow> strtol_loop m base sign pos 0 NoErrno;
          let before = int_of_char (m (pos - 1));
          Some (sm, Some (if \<not> isdigit before \<and> \<not> isalpha before then 0 else pos), err) } })"

section \<open>What \<open>strtol\<close> computes\<close>

lemma text_at_Nil [simp]: "text_at m p [] \<longleftrightarrow> m p = NUL"
  by (simp add: text_at_def)

lemma text_at_Cons [simp]: "text_at m p (c # cs) \<longleftrightarrow> m p = c \<and> c \<noteq> NUL \<and> text_at m (p + 1) cs"
proof -
  have "(\<forall>i < length (c # cs). m (p + int i) = (c # cs) ! i \<and> (c # cs) ! i \<noteq> NUL) \<longleftrightarrow>
      m p = c \<and> c \<noteq> NUL \<and> (\<forall>i < length cs. m (p + 1 + int i) = cs ! i \<and> cs ! i \<noteq> NUL)"
    by (simp add: All_less_Suc2 add.assoc)
  then show ?thesis by (auto simp: text_at_def add.assoc)
qed

lemma text_at_append:
  "text_at m p (xs @ ys) \<Longrightarrow> text_at m (p + int (length xs)) ys"
  by (induction xs arbitrary: p) (fastforce simp: add.assoc add.commute)+

text \<open>The first character of \<open>s\<close>, the terminator when there is none.\<close>

definition first_char :: "string \<Rightarrow> char" where
  "first_char s = (case s of [] \<Rightarrow> NUL | c # _ \<Rightarrow> c)"

lemma first_char_simps [simp]: "first_char [] = NUL" "first_char (c # cs) = c"
  by (simp_all add: first_char_def)

lemma text_at_first: "text_at m p s \<Longrightarrow> m p = first_char s"
  by (cases s) auto

definition digits_of :: "int \<Rightarrow> string \<Rightarrow> bool" where
  "digits_of b s \<longleftrightarrow> (\<forall>c \<in> set s. digit_number c \<noteq> -1 \<and> digit_number c < b)"

text \<open>The number a digit string denotes in base \<open>b\<close>, without bounds.\<close>

definition numeral_value :: "int \<Rightarrow> int \<Rightarrow> string \<Rightarrow> int" where
  "numeral_value b = foldl (\<lambda>v c. v * b + digit_number c)"

definition clamped :: "int \<Rightarrow> int \<Rightarrow> int" where
  "clamped sign v = (if sign = -1 then max LONG_MIN (- v) else min LONG_MAX v)"

definition range_errno :: "int \<Rightarrow> int \<Rightarrow> c_errno" where
  "range_errno sign v = (if LONG_MIN \<le> sign * v \<and> sign * v \<le> LONG_MAX then NoErrno else ERANGE)"

lemma digit_number_ge: "-1 \<le> digit_number c"
  by (auto simp: digit_number_def Let_def isalpha_def toupper_def)

lemma digit_number_NUL [simp]: "digit_number NUL = -1"
  by (simp add: digit_number_def NUL_def int_of_char_def isalpha_def)

lemma digit_char: "digit_number c \<noteq> -1 \<Longrightarrow> isdigit (int_of_char c) \<or> isalpha (int_of_char c)"
  by (auto simp: digit_number_def Let_def isdigit_def split: if_splits)

lemma div_bound:
  fixes v d b c :: int
  assumes "0 < b"
  shows "v \<le> (c - d) div b \<longleftrightarrow> v * b + d \<le> c"
proof
  assume "v \<le> (c - d) div b"
  then have "v * b \<le> (c - d) div b * b" using assms by simp
  also have "\<dots> \<le> c - d" using div_mult_mod_eq [of "c - d" b] pos_mod_sign [OF assms, of "c - d"] by linarith
  finally show "v * b + d \<le> c" by simp
next
  assume "v * b + d \<le> c"
  then have "(v * b) div b \<le> (c - d) div b" using assms by (intro zdiv_mono1) auto
  then show "v \<le> (c - d) div b" using assms by simp
qed

lemma add_digit_step:
  assumes v: "0 \<le> v" and d: "0 \<le> d" "d < b" "2 \<le> b" "b \<le> 36" and s: "sign = 1 \<or> sign = -1"
  shows "add_digit b sign d (clamped sign v) (range_errno sign v) =
     (clamped sign (v * b + d), range_errno sign (v * b + d))"
proof -
  define M where "M = (if sign = 1 then LONG_MAX else - LONG_MIN)"
  have M: "36 < M" by (simp add: M_def LONG_MAX_def LONG_MIN_def)
  have more: "v \<le> v * b + d" using mult_left_mono [of 1 b v] v d by simp
  have fits: "v \<le> (M - d) div b \<longleftrightarrow> v * b + d \<le> M" using d by (simp add: div_bound)
  have "2 * M \<le> M * b" using mult_left_mono [of 2 b M] M d by simp
  then have "\<not> M * b + d \<le> M" using M d by linarith
  then have full: "\<not> M \<le> (M - d) div b" using d by (simp add: div_bound)
  have neg: "tdiv (LONG_MIN + d) b = - ((- LONG_MIN - d) div b)"
    using d by (simp add: tdiv_def LONG_MIN_def)
  have pos: "tdiv (LONG_MAX - d) b = (LONG_MAX - d) div b"
    using d by (simp add: tdiv_def LONG_MAX_def)
  have cl: "clamped sign w = (if w \<le> M then sign * w else sign * M)" for w
    using s by (auto simp: clamped_def M_def)
  have er: "range_errno sign w = (if w \<le> M then NoErrno else ERANGE)" if "0 \<le> w" for w
    using s that by (auto simp: range_errno_def M_def LONG_MAX_def LONG_MIN_def)
  have "0 \<le> v * b + d" using v d by simp
  note er' = er [OF this] er [OF v]
  consider "sign = 1" "M = LONG_MAX" | "sign = -1" "M = - LONG_MIN"
    using s by (auto simp: M_def)
  then show ?thesis
  proof cases
    case 1
    then show ?thesis
      using fits full more unfolding add_digit_def cl er' pos by auto
  next
    case 2
    then show ?thesis
      using fits full more unfolding add_digit_def cl er' neg by auto
  qed
qed

lemma numeral_value_nonneg:
  assumes "digits_of b ds" "0 \<le> b" "0 \<le> v"
  shows "0 \<le> numeral_value b v ds"
  using assms
proof (induction ds arbitrary: v)
  case Nil
  then show ?case by (simp add: numeral_value_def)
next
  case (Cons c ds)
  then have "0 \<le> v * b + digit_number c"
    using digit_number_ge [of c] by (auto simp: digits_of_def)
  then show ?case using Cons by (simp add: numeral_value_def digits_of_def)
qed

lemma skip_spaces_run:
  assumes "text_at m p (ws @ r)" "\<forall>c \<in> set ws. isspace (int_of_char c)"
    "\<not> isspace (int_of_char (first_char r))"
  shows "skip_spaces m p = Some (p + int (length ws))"
  using assms
proof (induction ws arbitrary: p)
  case Nil
  then have "m p = first_char r" using text_at_first by simp
  then show ?case using Nil.prems by (simp add: skip_spaces.simps [of m p])
next
  case (Cons c ws)
  then show ?case by (simp add: skip_spaces.simps [of m p] add.assoc)
qed

lemma strtol_loop_run:
  assumes "text_at m p (ds @ r)" "digits_of b ds"
    and stop: "digit_number (first_char r) = -1 \<or> b \<le> digit_number (first_char r)"
    and b: "2 \<le> b" "b \<le> 36" "b \<noteq> 16" and s: "sign = 1 \<or> sign = -1" and v: "0 \<le> v"
  shows "strtol_loop m b sign p (clamped sign v) (range_errno sign v) =
    Some (clamped sign (numeral_value b v ds), p + int (length ds),
          range_errno sign (numeral_value b v ds))"
  using assms(1,2) v
proof (induction ds arbitrary: p v)
  case Nil
  then have "m p = first_char r" using text_at_first by simp
  then show ?case
    using stop b by (auto simp: strtol_loop.simps [of m b sign p] Let_def numeral_value_def)
next
  case (Cons c ds)
  let ?d = "digit_number c"
  have d: "0 \<le> ?d" "?d < b" "?d \<noteq> -1"
    using Cons.prems(2) digit_number_ge [of c] by (auto simp: digits_of_def)
  have "strtol_loop m b sign p (clamped sign v) (range_errno sign v) =
      strtol_loop m b sign (p + 1) (clamped sign (v * b + ?d)) (range_errno sign (v * b + ?d))"
    using Cons.prems d add_digit_step [OF Cons.prems(3) d(1,2) b(1,2) s]
    by (simp add: strtol_loop.simps [of m b sign p] Let_def)
  also have "\<dots> = Some (clamped sign (numeral_value b (v * b + ?d) ds), p + 1 + int (length ds),
      range_errno sign (numeral_value b (v * b + ?d) ds))"
    using Cons.prems d b by (intro Cons.IH) (auto simp: digits_of_def)
  finally show ?case by (simp add: numeral_value_def add.assoc)
qed

text \<open>The optional sign the code accepts: \<open>-\<close>, then \<open>+\<close>.\<close>

definition sign_texts :: "string set" where
  "sign_texts = {[], ''-'', ''+'', ''-+''}"

definition sign_of :: "string \<Rightarrow> int" where
  "sign_of sg = (if first_char sg = CHR ''-'' then -1 else 1)"

text \<open>What stops the digits; without digits, nothing that reads as a space or a sign.\<close>

definition stops :: "int \<Rightarrow> string \<Rightarrow> string \<Rightarrow> bool" where
  "stops b ds r \<longleftrightarrow>
     (digit_number (first_char r) = -1 \<or> b \<le> digit_number (first_char r)) \<and>
     (ds = [] \<longrightarrow> \<not> isspace (int_of_char (first_char r)) \<and>
        first_char r \<noteq> CHR ''-'' \<and> first_char r \<noteq> CHR ''+'')"

lemma stops_first:
  assumes "digits_of b ds" "stops b ds r"
  shows "\<not> isspace (int_of_char (first_char (ds @ r)))"
    "first_char (ds @ r) \<noteq> CHR ''-''" "first_char (ds @ r) \<noteq> CHR ''+''"
proof -
  have "isdigit (int_of_char c) \<or> isalpha (int_of_char c) \<Longrightarrow>
      \<not> isspace (int_of_char c) \<and> c \<noteq> CHR ''-'' \<and> c \<noteq> CHR ''+''" for c
    by (auto simp: isdigit_def isalpha_def isspace_def int_of_char_def)
  then have "\<not> isspace (int_of_char (first_char (ds @ r))) \<and> first_char (ds @ r) \<noteq> CHR ''-'' \<and>
      first_char (ds @ r) \<noteq> CHR ''+''"
    using assms digit_char by (cases ds) (auto simp: digits_of_def stops_def)
  then show "\<not> isspace (int_of_char (first_char (ds @ r)))"
    "first_char (ds @ r) \<noteq> CHR ''-''" "first_char (ds @ r) \<noteq> CHR ''+''" by auto
qed

lemma sign_text_not_digit:
  "c \<in> set sg \<Longrightarrow> sg \<in> sign_texts \<Longrightarrow> \<not> isdigit (int_of_char c) \<and> \<not> isalpha (int_of_char c)
     \<and> \<not> isspace (int_of_char c)"
  by (auto simp: sign_texts_def isdigit_def isalpha_def isspace_def int_of_char_def)

text \<open>The position and the sign after the sign characters.\<close>

lemma sign_step:
  assumes "text_at m q (sg @ t)" "sg \<in> sign_texts"
    "first_char t \<noteq> CHR ''-''" "first_char t \<noteq> CHR ''+''"
  shows "(let pos = (if m q = CHR ''-'' then q + 1 else q)
          in if m pos = CHR ''+'' then pos + 1 else pos) = q + int (length sg)"
    "(if m q = CHR ''-'' then -1 else 1) = sign_of sg"
proof -
  have "m (q + int (length sg)) = first_char t"
    using text_at_first [OF text_at_append [OF assms(1)]] .
  with assms show "(let pos = (if m q = CHR ''-'' then q + 1 else q)
          in if m pos = CHR ''+'' then pos + 1 else pos) = q + int (length sg)"
    "(if m q = CHR ''-'' then -1 else 1) = sign_of sg"
    by (auto simp: sign_texts_def sign_of_def NUL_def)
qed

lemma text_at_last:
  assumes "text_at m 0 (w @ r)" "w \<noteq> []"
  shows "m (int (length w) - 1) = last w"
proof -
  obtain u c where w: "w = u @ [c]" using assms(2) using that by (cases w rule: rev_cases) auto
  then have "text_at m (0 + int (length u)) (c # r)"
    using assms(1) text_at_append [of m 0 u "c # r"] by simp
  then show ?thesis using w by simp
qed

lemma strtol_end:
  assumes t: "text_at m 0 (ws @ sg @ ds @ r)" and ws: "\<forall>c \<in> set ws. isspace (int_of_char c)"
    and sg: "sg \<in> sign_texts" and ds: "digits_of b ds"
  shows "(let before = int_of_char (m (int (length (ws @ sg @ ds)) - 1))
     in if \<not> isdigit before \<and> \<not> isalpha before then 0 else int (length (ws @ sg @ ds))) =
     (if ds = [] then 0 else int (length (ws @ sg @ ds)))"
proof (cases "ws @ sg @ ds = []")
  case False
  let ?w = "ws @ sg @ ds"
  have l: "m (int (length ?w) - 1) = last ?w"
    using text_at_last [of m ?w r] t False by simp
  have sp: "isspace (int_of_char c) \<Longrightarrow> \<not> isdigit (int_of_char c) \<and> \<not> isalpha (int_of_char c)" for c
    by (auto simp: isspace_def isdigit_def isalpha_def)
  show ?thesis
  proof (cases "ds = []")
    case True
    have "last ?w \<in> set ws \<union> set sg" using False True last_in_set [of ?w] by auto
    then have "\<not> isdigit (int_of_char (last ?w)) \<and> \<not> isalpha (int_of_char (last ?w))"
      using ws sp sign_text_not_digit [OF _ sg] by blast
    then show ?thesis using True l by (simp add: Let_def)
  next
    case ne: False
    then have "last ?w \<in> set ds" by simp
    then have "isdigit (int_of_char (last ?w)) \<or> isalpha (int_of_char (last ?w))"
      using ds digit_char by (auto simp: digits_of_def)
    then show ?thesis using ne l by (auto simp: Let_def)
  qed
qed (simp add: Let_def)

lemma strtol_run:
  assumes "text_at m 0 (ws @ sg @ ds @ r)" "ws @ sg @ ds @ r \<noteq> []"
    and "\<forall>c \<in> set ws. isspace (int_of_char c)" and "sg \<in> sign_texts"
    and "digits_of b ds" and "stops b ds r" and b: "2 \<le> b" "b \<le> 36" "b \<noteq> 8" "b \<noteq> 16"
  shows "strtol m b = Some (clamped (sign_of sg) (numeral_value b 0 ds),
     Some (if ds = [] then 0 else int (length (ws @ sg @ ds))),
     range_errno (sign_of sg) (numeral_value b 0 ds))"
proof -
  note first = stops_first [OF assms(5,6)]
  have ne: "m 0 \<noteq> NUL" using assms(1,2) by (cases "ws @ sg @ ds @ r") auto
  have "\<not> isspace (int_of_char (first_char (sg @ ds @ r)))"
    using first(1) sign_text_not_digit [OF _ assms(4)] by (cases sg) auto
  then have sk: "skip_spaces m 0 = Some (int (length ws))"
    using skip_spaces_run [OF assms(1,3)] by simp
  have t1: "text_at m (int (length ws)) (sg @ ds @ r)"
    using text_at_append [OF assms(1)] by simp
  note step = sign_step [OF t1 assms(4) first(2,3)]
  have "text_at m (int (length ws) + int (length sg)) (ds @ r)"
    using text_at_append [OF t1] .
  then have "strtol_loop m b (sign_of sg) (int (length ws) + int (length sg))
      (clamped (sign_of sg) 0) (range_errno (sign_of sg) 0) =
    Some (clamped (sign_of sg) (numeral_value b 0 ds),
          int (length ws) + int (length sg) + int (length ds),
          range_errno (sign_of sg) (numeral_value b 0 ds))"
    using assms(5,6) b by (intro strtol_loop_run) (auto simp: stops_def sign_of_def)
  moreover have "clamped s 0 = 0" "range_errno s 0 = NoErrno" for s
    by (simp_all add: clamped_def range_errno_def LONG_MIN_def LONG_MAX_def)
  ultimately have "strtol m b = Some (clamped (sign_of sg) (numeral_value b 0 ds),
      Some (let before = int_of_char (m (int (length (ws @ sg @ ds)) - 1))
        in if \<not> isdigit before \<and> \<not> isalpha before then 0 else int (length (ws @ sg @ ds))),
      range_errno (sign_of sg) (numeral_value b 0 ds))"
    using ne sk step b
    by (simp add: strtol_def strtol_prefix_def Let_def add.assoc cong: if_cong)
  then show ?thesis using strtol_end [OF assms(1,3,4,5)] by simp
qed

text \<open>
  C17. \<open>strtol\<close> on any text of blanks, an optional sign and digits of a base other than 8 and 16
  (whose prefixes are stripped): it returns, for every length of the text, the number the digits
  denote, clamped to \<open>LONG_MIN\<close> and \<open>LONG_MAX\<close>, with \<open>ERANGE\<close> exactly when it was clamped, and the
  position behind the digits; without a digit it returns 0 and the start of the text, whatever
  byte lies in front of it.
\<close>

theorem strtol_value:
  assumes "text_at m 0 (ws @ sg @ ds @ r)" "ws @ sg @ ds @ r \<noteq> []"
    and "\<forall>c \<in> set ws. isspace (int_of_char c)" and "sg \<in> sign_texts"
    and "digits_of b ds" and "stops b ds r" and b: "2 \<le> b" "b \<le> 36" "b \<noteq> 8" "b \<noteq> 16"
  shows "strtol m b = Some (clamped (sign_of sg) (numeral_value b 0 ds),
     Some (if ds = [] then 0 else int (length (ws @ sg @ ds))),
     range_errno (sign_of sg) (numeral_value b 0 ds))"
  using assms by (rule strtol_run)

theorem strtol_value_witness:
  "strtol (c_mem (CHR ''7'') '' -92233720368547758089 x'') 10 = Some (LONG_MIN, Some 22, ERANGE) \<and>
   strtol (c_mem (CHR ''7'') ''42'') 10 = Some (42, Some 2, NoErrno) \<and>
   strtol (c_mem (CHR ''7'') ''run'') 10 = Some (0, Some 0, NoErrno)"
proof (intro conjI)
  note v = stops_def digits_of_def digit_number_def Let_def isalpha_def isspace_def int_of_char_def
    toupper_def numeral_value_def sign_of_def clamped_def range_errno_def LONG_MIN_def LONG_MAX_def
    sign_texts_def NUL_def c_mem_def
  show "strtol (c_mem (CHR ''7'') '' -92233720368547758089 x'') 10 = Some (LONG_MIN, Some 22, ERANGE)"
    using strtol_value [of "c_mem (CHR ''7'') '' -92233720368547758089 x''" "'' ''" "''-''"
        "''92233720368547758089''" "'' x''" 10]
    by (simp add: v)
  show "strtol (c_mem (CHR ''7'') ''42'') 10 = Some (42, Some 2, NoErrno)"
    using strtol_value [of "c_mem (CHR ''7'') ''42''" "[]" "[]" "''42''" "[]" 10]
    by (simp add: v)
  show "strtol (c_mem (CHR ''7'') ''run'') 10 = Some (0, Some 0, NoErrno)"
    using strtol_value [of "c_mem (CHR ''7'') ''run''" "[]" "[]" "[]" "''run''" 10]
    by (simp add: v)
qed

text \<open>
  \<open>strncpy\<close> copies the source up to its terminator or \<open>num\<close> characters and then always writes
  a terminator: \<open>num + 1\<close> bytes of the destination change when the source has \<open>num\<close> characters or
  more, unlike the standard function, which stops at \<open>num\<close>.
\<close>

theorem strncpy_bytes:
  "map_option (\<lambda>d'. d' j) (strncpy (Some d) source num) =
   Some (let n = min (strlen source) num in
         if 0 \<le> j \<and> j < int n then source ! nat j else if j = int n then NUL else d j)"
  by (simp add: strncpy_def strncpy_loop_apply Let_def)

end
