(* ===== verification/CMem.thy ===== *)
theory CMem
  imports CString
begin

text \<open>
  The memory functions and stubs of \<open>userland/cstubs.c\<close> and \<open>userland/stdcpp_stubs.cpp\<close>. Pointers are offsets into one \<open>memory\<close>, so that source and
  destination may overlap; a \<open>size_t\<close> is a \<open>nat\<close> below \<open>2 ^ 64\<close>, and \<open>(int) n\<close> is written out.
\<close>

section \<open>Copying\<close>

text \<open>The loops \<open>for (i = 0; i < n; i++)\<close> and \<open>for (i = n - 1; i >= 0; i--)\<close>.\<close>

fun copy_up :: "memory \<Rightarrow> int \<Rightarrow> int \<Rightarrow> nat \<Rightarrow> memory" where
  "copy_up m to from 0 = m"
| "copy_up m to from (Suc n) =
     (let m' = copy_up m to from n in m'(to + int n := m' (from + int n)))"

fun copy_down :: "memory \<Rightarrow> int \<Rightarrow> int \<Rightarrow> nat \<Rightarrow> memory" where
  "copy_down m to from 0 = m"
| "copy_down m to from (Suc n) = copy_down (m(to + int n := m (from + int n))) to from n"

definition memcpy :: "memory \<Rightarrow> int \<Rightarrow> int \<Rightarrow> nat \<Rightarrow> memory" where
  "memcpy m dest src n = copy_up m dest src n"

text \<open>\<open>(int) n\<close> of a \<open>size_t\<close>: the low 32 bits in two's complement.\<close>

definition int_of_size :: "nat \<Rightarrow> int" where
  "int_of_size n = (let r = int n mod 2 ^ 32 in if r < 2 ^ 31 then r else r - 2 ^ 32)"

definition memmove :: "memory \<Rightarrow> int \<Rightarrow> int \<Rightarrow> nat \<Rightarrow> memory" where
  "memmove m dest src n =
     (if src = dest \<or> n = 0 then m
      else if dest > src \<and> dest - src < int_of_size n then
        copy_down m dest src (nat (int_of_size (n - 1) + 1))
      else if src > dest \<and> src - dest < int_of_size n then copy_up m dest src n
      else memcpy m dest src n)"

text \<open>\<open>while ((*dest++ = *src++));\<close>\<close>

partial_function (option) strcpy_loop :: "memory \<Rightarrow> int \<Rightarrow> int \<Rightarrow> memory option" where
  "strcpy_loop m dest src =
     (let c = m src; m = m(dest := c)
      in if c = NUL then Some m else strcpy_loop m (dest + 1) (src + 1))"

definition strcpy :: "memory \<Rightarrow> int \<Rightarrow> int \<Rightarrow> memory option" where
  "strcpy m dest src = strcpy_loop m dest src"

fun memcmp :: "memory \<Rightarrow> int \<Rightarrow> int \<Rightarrow> nat \<Rightarrow> int" where
  "memcmp m s1 s2 0 = 0"
| "memcmp m s1 s2 (Suc n) =
     (if m s1 \<noteq> m s2 then (if (of_char (m s1) :: nat) < of_char (m s2) then -1 else 1)
      else memcmp m (s1 + 1) (s2 + 1) n)"

section \<open>Stubs of the compiler's run-time library\<close>

text \<open>
  The guards of static variables in functions: \<open>__cxa_guard_acquire\<close> always returns 0, which tells the
  caller that the variable is initialised, and \<open>__cxa_guard_release\<close> leaves the guard as it is.
\<close>

definition cxa_guard_acquire :: "int \<Rightarrow> int" where
  "cxa_guard_acquire guard = 0"

definition cxa_guard_release :: "int \<Rightarrow> int" where
  "cxa_guard_release guard = guard"

text \<open>Called when the canary on the stack is overwritten: it returns.\<close>

definition stack_chk_fail :: "'s \<Rightarrow> 's outcome" where
  "stack_chk_fail s = Done s"

text \<open>
  \<open>__assert_fail\<close> prints its arguments and stores through a null pointer (\<open>oops\<close>), the other two loop for
  ever, \<open>__throw_bad_function_call\<close> after a failed assertion.
\<close>

definition null_store :: "'s \<Rightarrow> 's outcome" where
  "null_store s = Stuck"

definition assert_fail :: "string \<Rightarrow> string \<Rightarrow> int \<Rightarrow> string \<Rightarrow> 's \<Rightarrow> 's outcome" where
  "assert_fail assertion file line func s = null_store s"

definition throw_bad_function_call :: "'s \<Rightarrow> 's outcome" where
  "throw_bad_function_call s = and_then (assert_that False) (\<lambda>_. Stuck)"

definition cxa_pure_virtual :: "'s \<Rightarrow> 's outcome" where
  "cxa_pure_virtual s = Stuck"

section \<open>The destructor table\<close>

definition ATEXIT_MAX_FUNCS :: nat where "ATEXIT_MAX_FUNCS = 128"

record atexit_func_entry =
  destructor_func :: u64
  obj_ptr :: u64
  dso_handle :: u64

text \<open>\<open>__atexit_funcs\<close> up to \<open>__atexit_func_count\<close>.\<close>

definition cxa_atexit ::
    "u64 \<Rightarrow> u64 \<Rightarrow> u64 \<Rightarrow> atexit_func_entry list \<Rightarrow> int \<times> atexit_func_entry list" where
  "cxa_atexit f objptr dso funcs =
     (if length funcs \<ge> ATEXIT_MAX_FUNCS then (-1, funcs)
      else (0, funcs @ [\<lparr>destructor_func = f, obj_ptr = objptr, dso_handle = dso\<rparr>]))"

section \<open>Lemmas\<close>

lemma int_of_size_small: "n < 2 ^ 31 \<Longrightarrow> int_of_size n = int n"
  by (simp add: int_of_size_def)

lemma int_of_size_negative:
  assumes "2 ^ 31 \<le> n" "n < 2 ^ 32"
  shows "int_of_size n < 0"
proof -
  have "int n mod 2 ^ 32 = int n" using assms by (intro mod_pos_pos_trivial) auto
  then show ?thesis using assms by (simp add: int_of_size_def)
qed

lemma copy_down_apply:
  assumes "from \<le> to"
  shows "copy_down m to from n j =
    (if to \<le> j \<and> j < to + int n then m (from + (j - to)) else m j)"
proof (induction n arbitrary: m)
  case (Suc n)
  then show ?case using assms by (auto simp: Suc.IH)
qed auto

lemma copy_up_apply:
  assumes "to \<le> from \<or> from + int n \<le> to"
  shows "copy_up m to from n j =
    (if to \<le> j \<and> j < to + int n then m (from + (j - to)) else m j)"
  using assms
proof (induction n arbitrary: j)
  case (Suc n)
  then have IH: "copy_up m to from n j =
      (if to \<le> j \<and> j < to + int n then m (from + (j - to)) else m j)" for j
    by auto
  show ?case using Suc.prems by (auto simp: IH Let_def)
qed auto

text \<open>Copying forwards one byte up repeats the first byte.\<close>

lemma copy_up_smear:
  "copy_up m (src + 1) src n j = (if src < j \<and> j \<le> src + int n then m src else m j)"
proof (induction n arbitrary: j)
  case (Suc n)
  then show ?case by (auto simp: Let_def)
qed auto

lemma text_at_cong:
  assumes "\<And>j. p \<le> j \<Longrightarrow> j \<le> p + int (length s) \<Longrightarrow> m' j = m j" and "text_at m p s"
  shows "text_at m' p s"
  using assms by (simp add: text_at_def)

lemma strcpy_loop_run:
  assumes "text_at m src s" "dest + int (length s) < src \<or> src + int (length s) < dest"
  shows "strcpy_loop m dest src =
    Some (\<lambda>j. if dest \<le> j \<and> j \<le> dest + int (length s) then m (src + (j - dest)) else m j)"
  using assms
proof (induction s arbitrary: m dest src)
  case Nil
  then show ?case by (auto simp: strcpy_loop.simps [of m dest src] Let_def fun_eq_iff)
next
  case (Cons c s)
  let ?m = "m(dest := c)"
  have "text_at ?m (src + 1) s"
    using Cons.prems by (intro text_at_cong [where m = m and m' = ?m]) auto
  then have "strcpy_loop ?m (dest + 1) (src + 1) =
      Some (\<lambda>j. if dest + 1 \<le> j \<and> j \<le> dest + 1 + int (length s) then ?m (src + 1 + (j - (dest + 1))) else ?m j)"
    by (rule Cons.IH) (use Cons.prems(2) in auto)
  moreover have "strcpy_loop m dest src = strcpy_loop ?m (dest + 1) (src + 1)"
    using Cons.prems by (simp add: strcpy_loop.simps [of m dest src] Let_def)
  ultimately show ?case using Cons.prems by (auto simp: fun_eq_iff)
qed

lemma memcmp_zero_iff: "memcmp m p q n = 0 \<longleftrightarrow> (\<forall>i < n. m (p + int i) = m (q + int i))"
proof (induction n arbitrary: p q)
  case (Suc n)
  then show ?case by (simp add: All_less_Suc2 add.assoc)
qed simp

section \<open>Properties\<close>

text \<open>
  C26. \<open>memmove\<close> of fewer than \<open>2 ^ 31\<close> bytes moves them whatever the overlap: every destination
  byte becomes the old source byte and no other byte changes.
\<close>

theorem memmove_overlap:
  assumes "n < 2 ^ 31"
  shows "memmove m dest src n j =
    (if dest \<le> j \<and> j < dest + int n then m (src + (j - dest)) else m j)"
proof -
  have "int_of_size n = int n" "int_of_size (n - 1) = int (n - 1)"
    using assms by (simp_all add: int_of_size_small)
  then show ?thesis
    by (auto simp: memmove_def memcpy_def copy_down_apply copy_up_apply nat_add_distrib)
qed

theorem memmove_overlap_witness:
  "memmove (c_mem NUL ''abcdef'') 2 0 4 5 = CHR ''d'' \<and>
   memmove (c_mem NUL ''abcdef'') 0 2 4 0 = CHR ''c''"
  by (simp add: memmove_overlap c_mem_def)

text \<open>
  From \<open>2 ^ 31\<close> bytes on the overlap test compares with \<open>(int) n\<close>, which is negative: moving
  a block up by one byte then copies forwards and fills the destination with the first byte.
\<close>

theorem memmove_truncated_length:
  assumes "2 ^ 31 \<le> n" "n < 2 ^ 32" "src < j" "j \<le> src + int n"
  shows "memmove m (src + 1) src n j = m src"
  using assms int_of_size_negative [OF assms(1,2)]
  by (simp add: memmove_def memcpy_def copy_up_smear)

theorem memmove_truncated_length_witness:
  "memmove (c_mem NUL ''abc'') 1 0 (2 ^ 31) 3 = CHR ''a''"
  using memmove_truncated_length [of "2 ^ 31" 0 3 "c_mem NUL ''abc''"] by (simp add: c_mem_def)

text \<open>
  \<open>strcpy\<close> of a terminated string to memory that does not overlap it returns, copies the
  string with its terminator and changes no byte outside the destination.
\<close>

theorem strcpy_copies:
  assumes "text_at m src s" "dest + int (length s) < src \<or> src + int (length s) < dest"
  shows "strcpy m dest src =
    Some (\<lambda>j. if dest \<le> j \<and> j \<le> dest + int (length s) then (s @ [NUL]) ! nat (j - dest) else m j)"
proof -
  have "m (src + (j - dest)) = (s @ [NUL]) ! nat (j - dest)"
    if "dest \<le> j" "j \<le> dest + int (length s)" for j
  proof -
    define i where "i = nat (j - dest)"
    have "j - dest = int i" "i \<le> length s" using that by (simp_all add: i_def)
    then show ?thesis using assms(1) by (auto simp: text_at_def nth_append less_le)
  qed
  then show ?thesis using strcpy_loop_run [OF assms] by (auto simp: strcpy_def fun_eq_iff)
qed

theorem strcpy_copies_witness:
  "map_option (\<lambda>m'. m' 13) (strcpy (c_mem NUL ''list'') 10 0) = Some (CHR ''t'')"
  using strcpy_copies [of "c_mem NUL ''list''" 0 "''list''" 10]
  by (simp add: c_mem_def NUL_def)

end
