(* ===== verification/Sync.thy ===== *)
theory Sync
  imports Prelude
begin

text \<open>
  The mutex of \<open>userland/mutex.h\<close>, which is the binary semaphore of \<open>bin_sem.h\<close> over the
  atomic operations of \<open>bin_sem_bare.h\<close>.

  The first part gives the C functions as they run alone. The second part is the protocol under
  any interleaving: a step relation with one rule per atomic action of a thread, the weak
  compare-and-exchange (which may fail without reason) included, for threads that lock, unlock,
  and lock again while they hold the mutex, as \<open>krealloc\<close> does. The notification object belongs
  to the seL4 kernel: its operations are the argument \<open>K\<close>, and \<open>ntfn_laws\<close> states what the kernel
  documents of them.
\<close>

section \<open>The semaphore operations\<close>

definition INT_MIN :: int where "INT_MIN = - (2 ^ 31)"
definition INT_MAX :: int where "INT_MAX = 2 ^ 31 - 1"

record sync_bin_sem =
  notification :: CPtr
  sem_value :: int

text \<open>A thread that finds the semaphore taken goes on to \<open>seL4_Wait\<close>: \<open>MustWait\<close>.\<close>

datatype wait_result = WaitErr | Acquired | MustWait

text \<open>
  \<open>sync_atomic_decrement_safe\<close>: return code, \<open>*oldval\<close> and the new \<open>*x\<close>.
\<close>

definition sync_atomic_decrement_safe :: "int \<Rightarrow> int \<times> int \<times> int" where
  "sync_atomic_decrement_safe x = (if x = INT_MIN then (-1, x, x) else (0, x, x - 1))"

definition sync_atomic_increment :: "int \<Rightarrow> int" where
  "sync_atomic_increment x = (if x = INT_MAX then INT_MIN else x + 1)"

definition sync_bin_sem_bare_wait :: "int \<Rightarrow> wait_result \<times> int" where
  "sync_bin_sem_bare_wait v =
     (case sync_atomic_decrement_safe v of (result, oldval, v') \<Rightarrow>
        if result \<noteq> 0 then (WaitErr, v')
        else if oldval \<le> 0 then (MustWait, v')
        else (Acquired, v'))"

text \<open>The result says whether the notification is signalled.\<close>

definition sync_bin_sem_bare_post :: "int \<Rightarrow> bool \<times> int" where
  "sync_bin_sem_bare_post v = (let v' = sync_atomic_increment v in (v' \<le> 0, v'))"

definition sync_bin_sem_init :: "sync_bin_sem option \<Rightarrow> CPtr \<Rightarrow> int \<Rightarrow> int \<times> sync_bin_sem option" where
  "sync_bin_sem_init sem ntfn v =
     (case sem of
        None \<Rightarrow> (-1, None)
      | Some s \<Rightarrow>
          if v \<noteq> 0 \<and> v \<noteq> 1 then (-1, Some s)
          else (0, Some (s\<lparr>notification := ntfn, sem_value := v\<rparr>)))"

definition sync_bin_sem_wait :: "sync_bin_sem \<Rightarrow> wait_result \<times> sync_bin_sem" where
  "sync_bin_sem_wait sem =
     (case sync_bin_sem_bare_wait (sem_value sem) of (r, v) \<Rightarrow> (r, sem\<lparr>sem_value := v\<rparr>))"

definition sync_bin_sem_post :: "sync_bin_sem \<Rightarrow> bool \<times> sync_bin_sem" where
  "sync_bin_sem_post sem =
     (case sync_bin_sem_bare_post (sem_value sem) of (b, v) \<Rightarrow> (b, sem\<lparr>sem_value := v\<rparr>))"

definition sync_mutex_init :: "sync_bin_sem option \<Rightarrow> CPtr \<Rightarrow> int \<times> sync_bin_sem option" where
  "sync_mutex_init mutex ntfn = sync_bin_sem_init mutex ntfn 1"

definition sync_mutex_lock :: "sync_bin_sem \<Rightarrow> wait_result \<times> sync_bin_sem" where
  "sync_mutex_lock = sync_bin_sem_wait"

definition sync_mutex_unlock :: "sync_bin_sem \<Rightarrow> bool \<times> sync_bin_sem" where
  "sync_mutex_unlock = sync_bin_sem_post"

lemmas sync_defs =
  sync_mutex_init_def sync_mutex_lock_def sync_mutex_unlock_def sync_bin_sem_init_def
  sync_bin_sem_wait_def sync_bin_sem_post_def sync_bin_sem_bare_wait_def
  sync_bin_sem_bare_post_def sync_atomic_decrement_safe_def sync_atomic_increment_def
  INT_MIN_def INT_MAX_def

lemma mutex_lock_free:
  "sem_value m = 1 \<Longrightarrow> sync_mutex_lock m = (Acquired, m\<lparr>sem_value := 0\<rparr>)"
  by (simp add: sync_defs)

lemma mutex_lock_held:
  "sem_value m \<le> 0 \<Longrightarrow> sem_value m \<noteq> INT_MIN \<Longrightarrow>
   sync_mutex_lock m = (MustWait, m\<lparr>sem_value := sem_value m - 1\<rparr>)"
  by (simp add: sync_defs)

lemma mutex_unlock_uncontended:
  "sem_value m = 0 \<Longrightarrow> sync_mutex_unlock m = (False, m\<lparr>sem_value := 1\<rparr>)"
  by (simp add: sync_defs)

section \<open>The protocol under any interleaving\<close>

text \<open>
  Program counters: \<open>Reading\<close> is at the load of \<open>*x\<close>, \<open>Cas v\<close> at the compare-and-exchange with
  \<open>*oldval = v\<close>, \<open>Waiting\<close> in \<open>seL4_Wait\<close>, \<open>Critical\<close> holds the mutex, \<open>Signalling\<close> is between the
  increment and \<open>seL4_Signal\<close>, \<open>Failed\<close> got \<open>-1\<close>. The \<open>N\<close> states are those of a second lock
  taken by the holder.
\<close>

datatype pc = Idle | Reading | Cas int | Waiting | Critical | Signalling | Failed
  | NReading | NCas int | NWaiting | NHeld

record 'n ntfn_ops =
  nsignal :: "'n \<Rightarrow> 'n"
  nready :: "'n \<Rightarrow> bool"
  nconsume :: "'n \<Rightarrow> 'n"

text \<open>
  A signalled notification is ready; the wait that takes it leaves it not ready, whatever number
  of signals it had collected.
\<close>

definition ntfn_laws :: "'n ntfn_ops \<Rightarrow> bool" where
  "ntfn_laws K \<longleftrightarrow> (\<forall>n. nready K (nsignal K n)) \<and> (\<forall>n. nready K n \<longrightarrow> \<not> nready K (nconsume K n))"

record 'n sys =
  lock_val :: int
  lock_ntfn :: 'n
  thread_pcs :: "pc list"

abbreviation at :: "'n sys \<Rightarrow> nat \<Rightarrow> pc \<Rightarrow> bool" where
  "at s i p \<equiv> i < length (thread_pcs s) \<and> thread_pcs s ! i = p"

abbreviation goto :: "'n sys \<Rightarrow> nat \<Rightarrow> pc \<Rightarrow> 'n sys" where
  "goto s i p \<equiv> s\<lparr>thread_pcs := (thread_pcs s)[i := p]\<rparr>"

inductive sem_step :: "'n ntfn_ops \<Rightarrow> 'n sys \<Rightarrow> 'n sys \<Rightarrow> bool" for K where
  call: "at s i Idle \<Longrightarrow> sem_step K s (goto s i Reading)"
| load: "at s i Reading \<Longrightarrow> lock_val s \<noteq> INT_MIN \<Longrightarrow> sem_step K s (goto s i (Cas (lock_val s)))"
| load_min: "at s i Reading \<Longrightarrow> lock_val s = INT_MIN \<Longrightarrow> sem_step K s (goto s i Failed)"
| cas_again: "at s i (Cas v) \<Longrightarrow> sem_step K s (goto s i Reading)"
| cas_take: "at s i (Cas v) \<Longrightarrow> lock_val s = v \<Longrightarrow> 0 < v \<Longrightarrow>
    sem_step K s (goto (s\<lparr>lock_val := v - 1\<rparr>) i Critical)"
| cas_queue: "at s i (Cas v) \<Longrightarrow> lock_val s = v \<Longrightarrow> v \<le> 0 \<Longrightarrow>
    sem_step K s (goto (s\<lparr>lock_val := v - 1\<rparr>) i Waiting)"
| wake: "at s i Waiting \<Longrightarrow> nready K (lock_ntfn s) \<Longrightarrow>
    sem_step K s (goto (s\<lparr>lock_ntfn := nconsume K (lock_ntfn s)\<rparr>) i Critical)"
| post_free: "at s i Critical \<Longrightarrow> v = sync_atomic_increment (lock_val s) \<Longrightarrow> 0 < v \<Longrightarrow>
    sem_step K s (goto (s\<lparr>lock_val := v\<rparr>) i Idle)"
| post_queue: "at s i Critical \<Longrightarrow> v = sync_atomic_increment (lock_val s) \<Longrightarrow> v \<le> 0 \<Longrightarrow>
    sem_step K s (goto (s\<lparr>lock_val := v\<rparr>) i Signalling)"
| signal: "at s i Signalling \<Longrightarrow>
    sem_step K s (goto (s\<lparr>lock_ntfn := nsignal K (lock_ntfn s)\<rparr>) i Idle)"
| ncall: "at s i Critical \<Longrightarrow> sem_step K s (goto s i NReading)"
| nload: "at s i NReading \<Longrightarrow> lock_val s \<noteq> INT_MIN \<Longrightarrow> sem_step K s (goto s i (NCas (lock_val s)))"
| nload_min: "at s i NReading \<Longrightarrow> lock_val s = INT_MIN \<Longrightarrow> sem_step K s (goto s i Critical)"
| ncas_again: "at s i (NCas v) \<Longrightarrow> sem_step K s (goto s i NReading)"
| ncas_take: "at s i (NCas v) \<Longrightarrow> lock_val s = v \<Longrightarrow> 0 < v \<Longrightarrow>
    sem_step K s (goto (s\<lparr>lock_val := v - 1\<rparr>) i NHeld)"
| ncas_queue: "at s i (NCas v) \<Longrightarrow> lock_val s = v \<Longrightarrow> v \<le> 0 \<Longrightarrow>
    sem_step K s (goto (s\<lparr>lock_val := v - 1\<rparr>) i NWaiting)"
| nwake: "at s i NWaiting \<Longrightarrow> nready K (lock_ntfn s) \<Longrightarrow>
    sem_step K s (goto (s\<lparr>lock_ntfn := nconsume K (lock_ntfn s)\<rparr>) i NHeld)"

text \<open>After \<open>sync_mutex_init\<close>: value 1, an unsignalled notification, \<open>n\<close> idle threads.\<close>

definition init_sys :: "'n \<Rightarrow> nat \<Rightarrow> 'n sys" where
  "init_sys n0 n = \<lparr>lock_val = 1, lock_ntfn = n0, thread_pcs = replicate n Idle\<rparr>"

inductive reachable :: "'n ntfn_ops \<Rightarrow> 'n \<Rightarrow> nat \<Rightarrow> 'n sys \<Rightarrow> bool" for K n0 n where
  start: "reachable K n0 n (init_sys n0 n)"
| step: "reachable K n0 n s \<Longrightarrow> sem_step K s t \<Longrightarrow> reachable K n0 n t"

text \<open>What each state takes from the value, and whether it carries the one token.\<close>

fun lock_w :: "pc \<Rightarrow> int" where
  "lock_w Waiting = 1"
| "lock_w Critical = 1"
| "lock_w NReading = 1"
| "lock_w (NCas v) = 1"
| "lock_w NWaiting = 2"
| "lock_w NHeld = 2"
| "lock_w p = 0"

fun token_w :: "pc \<Rightarrow> int" where
  "token_w Critical = 1"
| "token_w Signalling = 1"
| "token_w NReading = 1"
| "token_w (NCas v) = 1"
| "token_w NWaiting = 1"
| "token_w NHeld = 1"
| "token_w p = 0"

definition sem_inv :: "'n ntfn_ops \<Rightarrow> nat \<Rightarrow> 'n sys \<Rightarrow> bool" where
  "sem_inv K n s \<longleftrightarrow>
     length (thread_pcs s) = n \<and>
     lock_val s = 1 - sum_list (map lock_w (thread_pcs s)) \<and>
     sum_list (map token_w (thread_pcs s)) + (if nready K (lock_ntfn s) then 1 else 0)
       + (if lock_val s = 1 then 1 else 0) = 1 \<and>
     (\<forall>i < n. thread_pcs s ! i \<noteq> NHeld)"

lemma lock_w_nonneg: "0 \<le> lock_w p" and token_w_nonneg: "0 \<le> token_w p"
  and lock_w_le_2: "lock_w p \<le> 2"
  by (cases p; simp)+

lemma sem_inv_init:
  "\<not> nready K n0 \<Longrightarrow> sem_inv K n (init_sys n0 n)"
  by (simp add: sem_inv_def init_sys_def sum_list_replicate)

text \<open>One thread moves from \<open>p\<close> to \<open>q\<close>: what has to balance for the invariant to survive.\<close>

lemma sem_inv_move:
  assumes inv: "sem_inv K n s" and i: "at s i p" and q: "q \<noteq> NHeld"
    and t: "thread_pcs t = (thread_pcs s)[i := q]" and v: "lock_val t = lock_val s + lock_w p - lock_w q"
    and tok: "token_w q + (if nready K (lock_ntfn t) then 1 else 0) + (if lock_val t = 1 then 1 else 0) =
        token_w p + (if nready K (lock_ntfn s) then 1 else 0) + (if lock_val s = 1 then 1 else (0::int))"
  shows "sem_inv K n t"
proof -
  have "thread_pcs s ! i = p" "i < length (thread_pcs s)" using i by auto
  moreover have "thread_pcs t ! j \<noteq> NHeld" if "j < n" for j
    using inv q that t unfolding sem_inv_def by (cases "i = j") auto
  ultimately show ?thesis
    using inv v tok t by (auto simp: sem_inv_def sum_list_map_update)
qed

lemma sem_inv_value_bounds:
  assumes "sem_inv K n s"
  shows "1 - 2 * int n \<le> lock_val s" "lock_val s \<le> 1"
  using assms sum_list_map_le_length [of lock_w 2 "thread_pcs s"] lock_w_le_2
    sum_list_map_nonneg [of lock_w "thread_pcs s"] lock_w_nonneg
  by (auto simp: sem_inv_def)

lemma sem_inv_at:
  assumes inv: "sem_inv K n s" and i: "at s i p"
  shows "lock_val s \<le> 1 - lock_w p"
    and "token_w p + (if nready K (lock_ntfn s) then 1 else 0) + (if lock_val s = 1 then 1 else 0) \<le> (1::int)"
  using inv i sum_list_map_member_le [of lock_w i "thread_pcs s"]
    sum_list_map_member_le [of token_w i "thread_pcs s"] lock_w_nonneg token_w_nonneg
  by (auto simp: sem_inv_def)

lemma sem_step_inv:
  assumes "sem_step K s t" and K: "ntfn_laws K" and inv: "sem_inv K n s"
  shows "sem_inv K n t"
  using assms(1)
proof cases
  case (post_free i v)
  note at = sem_inv_at [OF inv, of i Critical]
  from post_free at have "lock_val s = 0" "v = 1" "\<not> nready K (lock_ntfn s)"
    by (auto simp: sync_atomic_increment_def INT_MAX_def split: if_splits)
  with post_free sem_inv_move [OF inv, of i Critical Idle t] show ?thesis by simp
next
  case (post_queue i v)
  note at = sem_inv_at [OF inv, of i Critical]
  from post_queue at have "v = lock_val s + 1" "\<not> nready K (lock_ntfn s)"
    by (auto simp: sync_atomic_increment_def INT_MAX_def split: if_splits)
  with post_queue at sem_inv_move [OF inv, of i Critical Signalling t]
  show ?thesis by (auto split: if_splits)
next
  case (ncas_take i v)
  then show ?thesis using sem_inv_at [OF inv, of i "NCas v"] by auto
next
  case (nwake i)
  then show ?thesis using sem_inv_at [OF inv, of i NWaiting] by auto
next
  case (wake i)
  with K sem_inv_at [OF inv, of i Waiting]
    sem_inv_move [OF inv, of i Waiting Critical t]
  show ?thesis by (auto simp: ntfn_laws_def)
next
  case (signal i)
  with K sem_inv_at [OF inv, of i Signalling]
    sem_inv_move [OF inv, of i Signalling Idle t]
  show ?thesis by (auto simp: ntfn_laws_def split: if_splits)
next
  case (cas_take i v)
  with sem_inv_value_bounds [OF inv]
    sem_inv_move [OF inv, of i "Cas v" Critical t]
  show ?thesis by auto
next
  case (cas_queue i v)
  with sem_inv_move [OF inv, of i "Cas v" Waiting t]
  show ?thesis by auto
next
  case (ncas_queue i v)
  with sem_inv_move [OF inv, of i "NCas v" NWaiting t]
  show ?thesis by auto
next
  case (call i)
  with sem_inv_move [OF inv, of i Idle Reading t] show ?thesis by simp
next
  case (load i)
  with sem_inv_move [OF inv, of i Reading "Cas (lock_val s)" t] show ?thesis by simp
next
  case (load_min i)
  with sem_inv_move [OF inv, of i Reading Failed t] show ?thesis by simp
next
  case (cas_again i v)
  with sem_inv_move [OF inv, of i "Cas v" Reading t] show ?thesis by simp
next
  case (ncall i)
  with sem_inv_move [OF inv, of i Critical NReading t] show ?thesis by simp
next
  case (nload i)
  with sem_inv_move [OF inv, of i NReading "NCas (lock_val s)" t] show ?thesis by simp
next
  case (nload_min i)
  with sem_inv_move [OF inv, of i NReading Critical t] show ?thesis by simp
next
  case (ncas_again i v)
  with sem_inv_move [OF inv, of i "NCas v" NReading t] show ?thesis by simp
qed

text \<open>The owner of the mutex: past the lock, whatever it does before the unlock.\<close>

fun owner :: "pc \<Rightarrow> bool" where
  "owner Critical = True"
| "owner NReading = True"
| "owner (NCas v) = True"
| "owner NWaiting = True"
| "owner NHeld = True"
| "owner p = False"

lemma owner_token: "owner p \<Longrightarrow> token_w p = 1"
  by (cases p) auto

lemma token_owner: "token_w p \<noteq> 0 \<Longrightarrow> owner p \<or> p = Signalling"
  by (cases p) auto

lemma reachable_inv:
  assumes "reachable K n0 n s" and "ntfn_laws K" and "\<not> nready K n0"
  shows "sem_inv K n s"
  using assms by (induction rule: reachable.induct) (auto intro: sem_inv_init sem_step_inv)

lemma sem_inv_owner_unique:
  assumes inv: "sem_inv K n s" and "at s i p" "owner p" and "at s j q" "owner q"
  shows "i = j"
proof (rule ccontr)
  assume "i \<noteq> j"
  with assms sum_list_map_two_le [of token_w i "thread_pcs s" j] token_w_nonneg owner_token
  have "2 \<le> sum_list (map token_w (thread_pcs s))" by auto
  with inv show False by (auto simp: sem_inv_def split: if_splits)
qed

lemma sem_inv_token_somewhere:
  assumes inv: "sem_inv K n s" and "lock_val s \<noteq> 1" and "\<not> nready K (lock_ntfn s)"
  shows "\<exists>j p. at s j p \<and> (owner p \<or> p = Signalling)"
proof (rule ccontr)
  assume "\<not> ?thesis"
  then have "\<forall>p \<in> set (thread_pcs s). token_w p = 0"
    using token_owner by (metis in_set_conv_nth)
  then have "sum_list (map token_w (thread_pcs s)) = 0" by (rule sum_list_map_zero)
  with assms show False by (simp add: sem_inv_def)
qed

lemma sem_inv_nested_stays:
  assumes inv: "sem_inv K n s" and i: "at s i NWaiting" and st: "sem_step K s t"
  shows "at t i NWaiting"
proof -
  have "\<not> nready K (lock_ntfn s)" using sem_inv_at [OF inv i] by (auto split: if_splits)
  with st i show ?thesis
    by (cases rule: sem_step.cases) (auto simp: nth_list_update)
qed

lemma sem_inv_no_failed_step:
  assumes inv: "sem_inv K n s" and n: "2 * int n < 2 ^ 31" and st: "sem_step K s t"
    and no: "\<forall>p \<in> set (thread_pcs s). p \<noteq> Failed"
  shows "\<forall>p \<in> set (thread_pcs t). p \<noteq> Failed"
proof -
  have "lock_val s \<noteq> INT_MIN" using sem_inv_value_bounds [OF inv] n by (simp add: INT_MIN_def)
  with st no show ?thesis
    by (cases rule: sem_step.cases) (auto dest!: set_update_subset_insert [THEN subsetD])
qed

text \<open>A notification with one bit of state satisfies the kernel's contract.\<close>

definition bit_ntfn :: "bool ntfn_ops" where
  "bit_ntfn = \<lparr>nsignal = (\<lambda>_. True), nready = (\<lambda>b. b), nconsume = (\<lambda>_. False)\<rparr>"

lemma bit_ntfn_laws: "ntfn_laws bit_ntfn" "\<not> nready bit_ntfn False"
  by (simp_all add: ntfn_laws_def bit_ntfn_def)

lemma sem_stepI:
  "reachable K n0 n s \<Longrightarrow> sem_step K s t \<Longrightarrow> t = u \<Longrightarrow> reachable K n0 n u"
  by (auto intro: reachable.step)

text \<open>Thread 0 in the critical section, thread 1 queued behind it.\<close>

lemma contended_reachable:
  "reachable bit_ntfn False 2 \<lparr>lock_val = -1, lock_ntfn = False, thread_pcs = [Critical, Waiting]\<rparr>"
proof -
  note init = reachable.start [of bit_ntfn False 2]
  have 1: "reachable bit_ntfn False 2 \<lparr>lock_val = 1, lock_ntfn = False, thread_pcs = [Reading, Idle]\<rparr>"
    by (rule sem_stepI [OF init sem_step.call [of 0]]) (simp_all add: init_sys_def numeral_2_eq_2)
  have 2: "reachable bit_ntfn False 2 \<lparr>lock_val = 1, lock_ntfn = False, thread_pcs = [Cas 1, Idle]\<rparr>"
    by (rule sem_stepI [OF 1 sem_step.load [of 0]]) (simp_all add: INT_MIN_def)
  have 3: "reachable bit_ntfn False 2 \<lparr>lock_val = 0, lock_ntfn = False, thread_pcs = [Critical, Idle]\<rparr>"
    by (rule sem_stepI [OF 2 sem_step.cas_take [of 0 _ 1]]) simp_all
  have 4: "reachable bit_ntfn False 2 \<lparr>lock_val = 0, lock_ntfn = False, thread_pcs = [Critical, Reading]\<rparr>"
    by (rule sem_stepI [OF 3 sem_step.call [of 1]]) simp_all
  have 5: "reachable bit_ntfn False 2 \<lparr>lock_val = 0, lock_ntfn = False, thread_pcs = [Critical, Cas 0]\<rparr>"
    by (rule sem_stepI [OF 4 sem_step.load [of 1]]) (simp_all add: INT_MIN_def)
  show ?thesis
    by (rule sem_stepI [OF 5 sem_step.cas_queue [of 1 _ 0]]) simp_all
qed

text \<open>The holder takes the mutex a second time.\<close>

lemma nested_reachable:
  "reachable bit_ntfn False 2 \<lparr>lock_val = -2, lock_ntfn = False, thread_pcs = [NWaiting, Waiting]\<rparr>"
proof -
  have 1: "reachable bit_ntfn False 2 \<lparr>lock_val = -1, lock_ntfn = False, thread_pcs = [NReading, Waiting]\<rparr>"
    by (rule sem_stepI [OF contended_reachable sem_step.ncall [of 0]]) simp_all
  have 2: "reachable bit_ntfn False 2 \<lparr>lock_val = -1, lock_ntfn = False, thread_pcs = [NCas (-1), Waiting]\<rparr>"
    by (rule sem_stepI [OF 1 sem_step.nload [of 0]]) (simp_all add: INT_MIN_def)
  show ?thesis
    by (rule sem_stepI [OF 2 sem_step.ncas_queue [of 0 _ "-1"]]) simp_all
qed

section \<open>Properties of the mutex\<close>

text \<open>
  C1. Under every interleaving of any number of threads, spurious compare-and-exchange failures
  and nested locks included, at most one thread is between the lock and the unlock.
\<close>

theorem mutex_exclusion:
  assumes "ntfn_laws K" and "\<not> nready K n0" and "reachable K n0 n s"
    and "at s i p" "owner p" and "at s j q" "owner q"
  shows "i = j"
  using sem_inv_owner_unique [OF reachable_inv [OF assms(3,1,2)] assms(4-7)] .

theorem mutex_exclusion_witness:
  "\<not> owner (thread_pcs \<lparr>lock_val = -1, lock_ntfn = False, thread_pcs = [Critical, Waiting]\<rparr> ! 1)"
proof
  let ?s = "\<lparr>lock_val = -1, lock_ntfn = False, thread_pcs = [Critical, Waiting]\<rparr>"
  assume "owner (thread_pcs ?s ! 1)"
  then have "0 = (1::nat)"
    using mutex_exclusion [OF bit_ntfn_laws contended_reachable, of 0 Critical 1 "thread_pcs ?s ! 1"]
    by simp
  then show False by simp
qed

text \<open>
  C12. No wake-up is lost: while a thread waits for the notification, the notification is
  signalled already, or some thread is about to signal it, or some thread owns the mutex and has
  its unlock ahead of it. Signals that the notification coalesces therefore never strand a waiter.
\<close>

theorem mutex_no_lost_wakeup:
  assumes "ntfn_laws K" and "\<not> nready K n0" and "reachable K n0 n s" and "at s i Waiting"
  shows "nready K (lock_ntfn s) \<or> (\<exists>j p. at s j p \<and> (owner p \<or> p = Signalling))"
proof -
  note inv = reachable_inv [OF assms(3,1,2)]
  have "lock_val s \<noteq> 1" using sem_inv_at(1) [OF inv assms(4)] by simp
  then show ?thesis using sem_inv_token_somewhere [OF inv] by blast
qed

theorem mutex_no_lost_wakeup_witness:
  "\<exists>j p. at \<lparr>lock_val = -1, lock_ntfn = False, thread_pcs = [Critical, Waiting]\<rparr> j p \<and> (owner p \<or> p = Signalling)"
  using mutex_no_lost_wakeup [OF bit_ntfn_laws contended_reachable, of 1]
  by (simp add: bit_ntfn_def)



text \<open>
  C36. A thread that locks the mutex a second time while it holds it never leaves that second
  lock, and from then on no other thread ever enters the critical section: whatever steps the
  system takes, the thread is still waiting and still the only owner.
\<close>

theorem mutex_relock_deadlocks:
  assumes "ntfn_laws K" and "\<not> nready K n0" and "reachable K n0 n s" and "at s i NWaiting"
    and "(sem_step K)\<^sup>*\<^sup>* s t"
  shows "at t i NWaiting \<and> (\<forall>j q. at t j q \<longrightarrow> owner q \<longrightarrow> j = i)"
proof -
  have "reachable K n0 n t \<and> at t i NWaiting"
    using assms(5)
  proof (induction rule: rtranclp_induct)
    case base
    show ?case using assms(3,4) by blast
  next
    case (step u v)
    then have u: "reachable K n0 n u" "at u i NWaiting" by blast+
    note inv = reachable_inv [OF u(1) assms(1,2)]
    show ?case
      using sem_inv_nested_stays [OF inv u(2) step(2)] reachable.step [OF u(1) step(2)] by blast
  qed
  then have t: "at t i NWaiting" and inv: "sem_inv K n t"
    using reachable_inv [OF _ assms(1,2)] by blast+
  have "j = i" if "at t j q" "owner q" for j q
    using sem_inv_owner_unique [OF inv that t] by simp
  with t show ?thesis by blast
qed

theorem mutex_relock_deadlocks_witness:
  "at \<lparr>lock_val = -2, lock_ntfn = False, thread_pcs = [NWaiting, Waiting]\<rparr> 0 NWaiting"
  using mutex_relock_deadlocks [OF bit_ntfn_laws nested_reachable, of 0] by simp

end
