(* ===== verification/Kmalloc.thy ===== *)
theory Kmalloc
  imports Sync
begin

text \<open>
  The allocator of \<open>userland/kmalloc.cpp\<close>: a pool of 32-byte chunks threaded on a doubly linked
  free list between the static sentinels \<open>head\<close> and \<open>tail\<close>, first fit on runs of adjacent chunks.

  A \<open>union chunk *\<close> is a \<open>cref\<close>: null, a sentinel, or the pool chunk \<open>pool + i\<close>. The store maps
  chunks to their \<open>struct info\<close>; an access outside it is \<open>None\<close>. \<open>sizeof (struct info)\<close> and
  \<open>sizeof (union chunk)\<close> are both 32 on x86-64 (two pointers and two \<open>size_t\<close>). Sizes are 64-bit
  words, so that the wrap-around of \<open>size + sizeof (struct info)\<close> is the code's; chunk counts, at
  most \<open>2 ^ 59\<close> where the counting loop ends, are \<open>nat\<close>.
\<close>

section \<open>State\<close>

datatype cref = CNull | CHead | CTail | CPool nat

record info =
  i_prev :: cref
  i_next :: cref
  i_count :: nat
  i_size :: u64

type_synonym store = "cref \<Rightarrow> info"

record kheap =
  initialized :: bool
  chunk_max :: nat
  pool :: u64
  mem :: store
  totalAllocated :: u64
  hasMemoryPool :: bool
  mutexNotif :: CPtr
  klock :: sync_bin_sem

definition chunk_size :: u64 where "chunk_size = 32"
definition info_size :: u64 where "info_size = 32"

text \<open>The static initialisers.\<close>

definition kheap_static :: kheap where
  "kheap_static =
     \<lparr>initialized = False, chunk_max = 0, pool = 0,
      mem = (\<lambda>_. \<lparr>i_prev = CNull, i_next = CNull, i_count = 0, i_size = 0\<rparr>),
      totalAllocated = 0, hasMemoryPool = False, mutexNotif = 0,
      klock = \<lparr>notification = 0, sem_value = 0\<rparr>\<rparr>"

definition setMemoryPool :: "u64 \<Rightarrow> u64 \<Rightarrow> CPtr \<Rightarrow> kheap \<Rightarrow> kheap outcome" where
  "setMemoryPool start sz ntfn s =
     (let s1 = s\<lparr>pool := start, chunk_max := unat (sz div chunk_size), mutexNotif := ntfn,
                 hasMemoryPool := True\<rparr>
      in case sync_mutex_init (Some (klock s1)) ntfn of
           (r, Some l) \<Rightarrow> and_then (assert_that (r = 0)) (\<lambda>_. Done (s1\<lparr>klock := l\<rparr>))
         | (r, None) \<Rightarrow> Stuck)"

definition getTotalKMallocated :: "kheap \<Rightarrow> u64" where
  "getTotalKMallocated s = totalAllocated s"

section \<open>Access to the store\<close>

fun valid :: "kheap \<Rightarrow> cref \<Rightarrow> bool" where
  "valid s CNull = False"
| "valid s CHead = True"
| "valid s CTail = True"
| "valid s (CPool i) = (i < chunk_max s)"

definition rd :: "kheap \<Rightarrow> cref \<Rightarrow> info option" where
  "rd s r = (if valid s r then Some (mem s r) else None)"

definition upd :: "cref \<Rightarrow> (info \<Rightarrow> info) \<Rightarrow> kheap \<Rightarrow> kheap option" where
  "upd r f s = (if valid s r then Some (s\<lparr>mem := (mem s)(r := f (mem s r))\<rparr>) else None)"

definition set_prev :: "cref \<Rightarrow> cref \<Rightarrow> kheap \<Rightarrow> kheap option" where
  "set_prev r p = upd r (\<lambda>i. i\<lparr>i_prev := p\<rparr>)"

definition set_next :: "cref \<Rightarrow> cref \<Rightarrow> kheap \<Rightarrow> kheap option" where
  "set_next r n = upd r (\<lambda>i. i\<lparr>i_next := n\<rparr>)"

definition set_count :: "cref \<Rightarrow> nat \<Rightarrow> kheap \<Rightarrow> kheap option" where
  "set_count r c = upd r (\<lambda>i. i\<lparr>i_count := c\<rparr>)"

definition set_size :: "cref \<Rightarrow> u64 \<Rightarrow> kheap \<Rightarrow> kheap option" where
  "set_size r z = upd r (\<lambda>i. i\<lparr>i_size := z\<rparr>)"

text \<open>\<open>cur + k\<close>: pointer arithmetic inside the pool only.\<close>

fun plus_ref :: "cref \<Rightarrow> nat \<Rightarrow> cref option" where
  "plus_ref (CPool i) k = Some (CPool (i + k))"
| "plus_ref r k = None"

text \<open>
  \<open>p < q\<close> on chunk pointers, for a pool chunk \<open>q\<close>. The address of a sentinel against the pool is
  not determined by the source (\<open>None\<close>).
\<close>

fun before :: "cref \<Rightarrow> nat \<Rightarrow> bool option" where
  "before (CPool i) j = Some (i < j)"
| "before CNull j = Some True"
| "before r j = None"

section \<open>Operations\<close>

text \<open>
  The body that \<open>init\<close> and \<open>relink\<close> both loop over, \<open>n\<close> times from chunk \<open>cur\<close>: link the chunk
  behind \<open>prev\<close>, point it at the next chunk, clear its count. Returns the last \<open>prev\<close>.
\<close>

fun link_chunks :: "nat \<Rightarrow> cref \<Rightarrow> cref \<Rightarrow> kheap \<Rightarrow> (cref \<times> kheap) option" where
  "link_chunks 0 prev cur s = Some (prev, s)"
| "link_chunks (Suc n) prev cur s =
     do { nxt \<leftarrow> plus_ref cur 1;
          s \<leftarrow> set_prev cur prev s;
          s \<leftarrow> set_next cur nxt s;
          s \<leftarrow> set_count cur 0 s;
          link_chunks n cur nxt s }"

definition init_pool :: "kheap \<Rightarrow> kheap option" where
  "init_pool s =
     do { s \<leftarrow> set_next CHead (CPool 0) s;
          (prev, s) \<leftarrow> link_chunks (chunk_max s) CHead (CPool 0) s;
          s \<leftarrow> set_next prev CTail s;
          s \<leftarrow> set_prev CTail prev s;
          Some (s\<lparr>initialized := True\<rparr>) }"

text \<open>\<open>while (chunks_size < size + sizeof (struct info))\<close> on wrapping 64-bit words.\<close>

partial_function (option) chunk_count_loop :: "u64 \<Rightarrow> u64 \<Rightarrow> nat \<Rightarrow> nat option" where
  "chunk_count_loop sz chunks_size chunks =
     (if chunks_size < sz + info_size
      then chunk_count_loop sz (chunks_size + chunk_size) (chunks + 1)
      else Some chunks)"

definition chunk_count :: "u64 \<Rightarrow> nat option" where
  "chunk_count sz = chunk_count_loop sz 0 0"

text \<open>The address \<open>top->data + sizeof (struct info)\<close> that the caller gets.\<close>

fun data_addr :: "kheap \<Rightarrow> cref \<Rightarrow> u64" where
  "data_addr s (CPool i) = pool s + of_nat i * chunk_size + info_size"
| "data_addr s r = 0"

definition unlink_run :: "cref \<Rightarrow> nat \<Rightarrow> u64 \<Rightarrow> kheap \<Rightarrow> (u64 \<times> kheap) option" where
  "unlink_run tp cnt sz s =
     do { ti \<leftarrow> rd s tp;
          last_ref \<leftarrow> plus_ref tp (cnt - 1);
          li \<leftarrow> rd s last_ref;
          s \<leftarrow> set_next (i_prev ti) (i_next li) s;
          s \<leftarrow> set_prev (i_next li) (i_prev ti) s;
          s \<leftarrow> set_count tp cnt s;
          s \<leftarrow> set_size tp sz s;
          Some (data_addr s tp, s\<lparr>totalAllocated := totalAllocated s + sz\<rparr>) }"

text \<open>The search loop of \<open>kmalloc_no_lock\<close>: the first chunk of the run it takes, if it finds one.\<close>

partial_function (option) find_run ::
    "kheap \<Rightarrow> nat \<Rightarrow> nat \<Rightarrow> cref \<Rightarrow> cref \<Rightarrow> cref option option" where
  "find_run s chunks keep tp cur =
     (if cur = CTail then Some None
      else if keep + 1 = chunks then Some (Some tp)
      else do { ci \<leftarrow> rd s cur;
                succ_ref \<leftarrow> plus_ref cur 1;
                if i_next ci = succ_ref then find_run s chunks (keep + 1) tp (i_next ci)
                else find_run s chunks 0 (i_next ci) (i_next ci) })"

definition kmalloc_no_lock :: "u64 \<Rightarrow> kheap \<Rightarrow> (u64 \<times> kheap) option" where
  "kmalloc_no_lock sz s =
     do { s \<leftarrow> (if initialized s then Some s else init_pool s);
          chunks \<leftarrow> chunk_count sz;
          hi \<leftarrow> rd s CHead;
          found \<leftarrow> find_run s chunks 0 (i_next hi) (i_next hi);
          case found of
            None \<Rightarrow> Some (0, s)
          | Some tp \<Rightarrow> unlink_run tp chunks sz s }"

text \<open>The walk of \<open>relink\<close> to the last free chunk before \<open>top\<close>.\<close>

partial_function (option) find_prev :: "kheap \<Rightarrow> nat \<Rightarrow> cref \<Rightarrow> cref option" where
  "find_prev s tp prev =
     do { pr \<leftarrow> rd s prev;
          if i_next pr = CTail then Some prev
          else do { b \<leftarrow> before (i_next pr) tp;
                    if b then find_prev s tp (i_next pr) else Some prev } }"

text \<open>
  The chunk a pointer names: \<open>None\<close> where \<open>relink\<close> returns at once (outside the pool),
  \<open>Some None\<close> for an address inside the pool that is not the start of a chunk.
\<close>

definition chunk_at :: "kheap \<Rightarrow> u64 \<Rightarrow> nat option option" where
  "chunk_at s a =
     (if a < pool s \<or> pool s + (of_nat (chunk_max s) - 1) * chunk_size < a then None
      else if (a - pool s) mod chunk_size = 0 then Some (Some (unat ((a - pool s) div chunk_size)))
      else Some None)"

definition relink_chunk :: "nat \<Rightarrow> kheap \<Rightarrow> kheap option" where
  "relink_chunk tp s =
     do { ti \<leftarrow> rd s (CPool tp);
          let s = s\<lparr>totalAllocated := totalAllocated s - i_size ti\<rparr>;
          prev \<leftarrow> find_prev s tp CHead;
          if prev = CPool tp then Some s
          else do { pr \<leftarrow> rd s prev;
                    let nxt = i_next pr;
                    s \<leftarrow> set_next prev (CPool tp) s;
                    ti \<leftarrow> rd s (CPool tp);
                    (prev, s) \<leftarrow> link_chunks (i_count ti) prev (CPool tp) s;
                    s \<leftarrow> set_next prev nxt s;
                    set_prev nxt prev s } }"

definition relink :: "u64 \<Rightarrow> kheap \<Rightarrow> kheap option" where
  "relink a s =
     (case chunk_at s a of
        None \<Rightarrow> Some s
      | Some None \<Rightarrow> None
      | Some (Some tp) \<Rightarrow> relink_chunk tp s)"

definition kfree_no_lock :: "u64 \<Rightarrow> kheap \<Rightarrow> kheap option" where
  "kfree_no_lock ptr s = (if ptr = 0 then Some s else relink (ptr - info_size) s)"

section \<open>The locked entry points\<close>

text \<open>
  \<open>sync_mutex_lock (& _lock)\<close> of a thread that runs alone: the result code is ignored, and a wait
  for a mutex that nobody else releases is \<open>Blocked\<close>.
\<close>

definition lock_heap :: "kheap \<Rightarrow> kheap outcome" where
  "lock_heap s =
     (case sync_mutex_lock (klock s) of
        (MustWait, l) \<Rightarrow> Blocked
      | (_, l) \<Rightarrow> Done (s\<lparr>klock := l\<rparr>))"

definition unlock_heap :: "kheap \<Rightarrow> kheap" where
  "unlock_heap s = s\<lparr>klock := snd (sync_mutex_unlock (klock s))\<rparr>"

definition kmalloc :: "u64 \<Rightarrow> kheap \<Rightarrow> (u64 \<times> kheap) outcome" where
  "kmalloc sz s =
     and_then (lock_heap s) (\<lambda>s.
     and_then (of_option (kmalloc_no_lock sz s)) (\<lambda>(r, s).
     Done (r, unlock_heap s)))"

definition kfree :: "u64 \<Rightarrow> kheap \<Rightarrow> kheap outcome" where
  "kfree ptr s =
     and_then (lock_heap s) (\<lambda>s.
     and_then (of_option (kfree_no_lock ptr s)) (\<lambda>s.
     Done (unlock_heap s)))"

text \<open>
  \<open>krealloc\<close>. The header is read at \<open>ptr - sizeof (struct info)\<close>; an address that is not a chunk
  of the pool is outside the store. \<open>copy dst src old new\<close> is the effect on the pool of
  \<open>memcpy (dst, src, old)\<close> and \<open>memset (dst + old, 0, new - old)\<close>, which write user bytes that the
  chunk store does not hold.
\<close>

definition krealloc ::
    "(u64 \<Rightarrow> u64 \<Rightarrow> u64 \<Rightarrow> u64 \<Rightarrow> kheap \<Rightarrow> kheap) \<Rightarrow> u64 \<Rightarrow> u64 \<Rightarrow> kheap \<Rightarrow> (u64 \<times> kheap) outcome" where
  "krealloc copy ptr sz s =
     and_then (lock_heap s) (\<lambda>s.
     if ptr = 0 then
       and_then (of_option (kmalloc_no_lock sz s)) (\<lambda>(r, s). Done (r, unlock_heap s))
     else (let ptr = ptr - info_size in
       case chunk_at s ptr of
         Some (Some c) \<Rightarrow>
           (let prevSize = i_size (mem s (CPool c)) in
            if sz < prevSize then Done (0, unlock_heap s)
            else and_then (kmalloc sz s) (\<lambda>(newPtr, s).
              if newPtr = 0 then Done (0, unlock_heap s)
              else and_then (of_option (kfree_no_lock ptr (copy newPtr ptr prevSize sz s))) (\<lambda>s.
                Done (newPtr, unlock_heap s))))
       | _ \<Rightarrow> Stuck))"

end
