(* ===== verification/Kmalloc_List.thy ===== *)
theory Kmalloc_List
  imports Kmalloc
begin

text \<open>
  The free list of the allocator as a list of chunk numbers: what it means for the links of the
  store to spell out a list, what each pointer operation does to that list, and the first-fit
  search over it. The abstract search \<open>first_fit\<close> works on chunk numbers alone; \<open>find_run\<close> refines it.
\<close>

section \<open>Store accesses\<close>

lemma valid_mem [simp]: "valid (s\<lparr>mem := m\<rparr>) r = valid s r"
  and valid_total [simp]: "valid (s\<lparr>totalAllocated := z\<rparr>) r = valid s r"
  and valid_init [simp]: "valid (s\<lparr>initialized := b\<rparr>) r = valid s r"
  by (cases r; simp)+

lemma rd_valid [simp]: "valid s r \<Longrightarrow> rd s r = Some (mem s r)"
  by (simp add: rd_def)

lemma upd_valid:
  "valid s r \<Longrightarrow> upd r f s = Some (s\<lparr>mem := (mem s)(r := f (mem s r))\<rparr>)"
  by (simp add: upd_def)

lemma set_field_valid [simp]:
  "valid s r \<Longrightarrow> set_prev r p s = Some (s\<lparr>mem := (mem s)(r := (mem s r)\<lparr>i_prev := p\<rparr>)\<rparr>)"
  "valid s r \<Longrightarrow> set_next r p s = Some (s\<lparr>mem := (mem s)(r := (mem s r)\<lparr>i_next := p\<rparr>)\<rparr>)"
  "valid s r \<Longrightarrow> set_count r c s = Some (s\<lparr>mem := (mem s)(r := (mem s r)\<lparr>i_count := c\<rparr>)\<rparr>)"
  "valid s r \<Longrightarrow> set_size r z s = Some (s\<lparr>mem := (mem s)(r := (mem s r)\<lparr>i_size := z\<rparr>)\<rparr>)"
  by (simp_all add: set_prev_def set_next_def set_count_def set_size_def upd_valid)

section \<open>Linked segments\<close>

text \<open>Neighbours in the list point at each other.\<close>

fun links :: "store \<Rightarrow> cref list \<Rightarrow> bool" where
  "links m (a # b # rs) = (i_next (m a) = b \<and> i_prev (m b) = a \<and> links m (b # rs))"
| "links m rs = True"

lemma links_append:
  "links m (xs @ a # ys) \<longleftrightarrow> links m (xs @ [a]) \<and> links m (a # ys)"
proof (induction xs)
  case Nil
  show ?case by simp
next
  case (Cons x xs)
  then show ?case by (cases xs) auto
qed

lemma links_join:
  "links m (xs @ a # b # ys) \<longleftrightarrow>
     links m (xs @ [a]) \<and> i_next (m a) = b \<and> i_prev (m b) = a \<and> links m (b # ys)"
  using links_append [of m xs a "b # ys"] by simp

text \<open>Only the next links of all but the last and the prev links of all but the first matter.\<close>

lemma links_cong:
  assumes "\<And>r. r \<in> set (butlast rs) \<Longrightarrow> i_next (m r) = i_next (m' r)"
    and "\<And>r. r \<in> set (tl rs) \<Longrightarrow> i_prev (m r) = i_prev (m' r)"
  shows "links m rs = links m' rs"
  using assms
proof (induction rs rule: induct_list012)
  case (3 a b rs)
  have "links m (b # rs) = links m' (b # rs)"
    using 3(3,4) by (intro 3(2)) (auto split: if_splits)
  with 3(3,4) show ?case by auto
qed auto

lemma links_cong_eq:
  assumes "\<And>r. r \<in> set rs \<Longrightarrow> m r = m' r"
  shows "links m rs = links m' rs"
proof -
  have "r \<in> set rs" if "r \<in> set (tl rs)" for r using that by (cases rs) auto
  with assms show ?thesis by (intro links_cong) (auto dest: in_set_butlastD)
qed

text \<open>Taking out or putting in a middle part: \<open>p\<close> and \<open>q\<close> become neighbours.\<close>

lemma links_splice:
  assumes "links m (A @ [p])" and "links m (q # B)"
    and "i_next (m' p) = q" "i_prev (m' q) = p"
    and "\<And>r. r \<in> set A \<union> set (butlast (q # B)) \<Longrightarrow> i_next (m' r) = i_next (m r)"
    and "\<And>r. r \<in> set (tl (A @ [p])) \<union> set B \<Longrightarrow> i_prev (m' r) = i_prev (m r)"
  shows "links m' (A @ p # q # B)"
proof -
  have "links m' (A @ [p]) = links m (A @ [p])"
    by (rule links_cong) (use assms in auto)
  moreover have "links m' (q # B) = links m (q # B)"
    by (rule links_cong) (use assms in auto)
  ultimately show ?thesis using assms by (simp add: links_join)
qed

section \<open>The chunk loop of init and relink\<close>

definition relinked :: "store \<Rightarrow> cref \<Rightarrow> nat \<Rightarrow> nat \<Rightarrow> store" where
  "relinked m p i n =
     (\<lambda>r. case r of
            CPool j \<Rightarrow>
              if i \<le> j \<and> j < i + n
              then (m r)\<lparr>i_prev := (if j = i then p else CPool (j - 1)),
                         i_next := CPool (Suc j), i_count := 0\<rparr>
              else m r
          | _ \<Rightarrow> m r)"

lemma relinked_simps [simp]:
  "relinked m p i n CHead = m CHead"
  "relinked m p i n CTail = m CTail"
  "relinked m p i n CNull = m CNull"
  "i \<le> j \<Longrightarrow> j < i + n \<Longrightarrow> i_next (relinked m p i n (CPool j)) = CPool (Suc j)"
  "i \<le> j \<Longrightarrow> j < i + n \<Longrightarrow>
     i_prev (relinked m p i n (CPool j)) = (if j = i then p else CPool (j - 1))"
  "i \<le> j \<Longrightarrow> j < i + n \<Longrightarrow> i_count (relinked m p i n (CPool j)) = 0"
  "\<not> (i \<le> j \<and> j < i + n) \<Longrightarrow> relinked m p i n (CPool j) = m (CPool j)"
  by (auto simp: relinked_def)

lemma relinked_size [simp]: "i_size (relinked m p i n r) = i_size (m r)"
  by (cases r) (auto simp: relinked_def)

lemma relinked_outside:
  "r \<notin> CPool ` {i..<i + n} \<Longrightarrow> relinked m p i n r = m r"
  by (cases r) (auto simp: relinked_def)

lemma relinked_0 [simp]: "relinked m p i 0 = m"
  by (rule ext) (auto simp: relinked_def split: cref.split)

lemma relinked_step:
  "relinked (m(CPool i := (m (CPool i))\<lparr>i_prev := p, i_next := CPool (Suc i), i_count := 0\<rparr>))
     (CPool i) (Suc i) n = relinked m p i (Suc n)"
  by (rule ext) (auto simp: relinked_def split: cref.split)

lemma link_chunks_relinked:
  "i + n \<le> chunk_max s \<Longrightarrow>
   link_chunks n p (CPool i) s =
     Some (if n = 0 then p else CPool (i + n - 1), s\<lparr>mem := relinked (mem s) p i n\<rparr>)"
proof (induction n arbitrary: p i s)
  case 0
  then show ?case by simp
next
  case (Suc n)
  let ?s = "s\<lparr>mem := (mem s)(CPool i :=
     (mem s (CPool i))\<lparr>i_prev := p, i_next := CPool (Suc i), i_count := 0\<rparr>)\<rparr>"
  have "link_chunks (Suc n) p (CPool i) s = link_chunks n (CPool i) (CPool (Suc i)) ?s"
    using Suc.prems by simp
  also have "\<dots> = Some (if n = 0 then CPool i else CPool (Suc i + n - 1),
                       ?s\<lparr>mem := relinked (mem ?s) (CPool i) (Suc i) n\<rparr>)"
    using Suc.prems by (intro Suc.IH) simp
  finally show ?case using relinked_step [of "mem s" i p n] by simp
qed

lemma links_relinked:
  "links (relinked m p i n) (map CPool [i..<i + n])"
proof (induction n)
  case 0
  then show ?case by simp
next
  case (Suc n)
  have "links (relinked m p i (Suc n)) (map CPool [i..<i + n]) =
        links (relinked m p i n) (map CPool [i..<i + n])"
    by (rule links_cong_eq) (auto simp: relinked_def)
  with Suc have *: "links (relinked m p i (Suc n)) (map CPool [i..<i + n])" by simp
  show ?case
  proof (cases n)
    case 0
    then show ?thesis by simp
  next
    case (Suc k)
    then have eq: "map CPool [i..<i + n] = map CPool [i..<i + k] @ [CPool (i + k)]" by simp
    from Suc have "map CPool [i..<i + Suc n] = map CPool [i..<i + k] @ CPool (i + k) # CPool (i + n) # []"
      by simp
    moreover have "links (relinked m p i (Suc n)) \<dots>"
      using * Suc unfolding links_join eq by simp
    ultimately show ?thesis by simp
  qed
qed

section \<open>The free list\<close>

abbreviation chain :: "nat list \<Rightarrow> cref list" where
  "chain fs \<equiv> CHead # map CPool fs @ [CTail]"

definition free_list :: "kheap \<Rightarrow> nat list \<Rightarrow> bool" where
  "free_list s fs \<longleftrightarrow>
     links (mem s) (chain fs) \<and> sorted_wrt (<) fs \<and>
     (\<forall>i \<in> set fs. i < chunk_max s \<and> i_count (mem s (CPool i)) = 0)"

text \<open>The neighbours of a cut in the free list.\<close>

definition left_end :: "nat list \<Rightarrow> cref" where
  "left_end xs = last (CHead # map CPool xs)"

definition right_end :: "nat list \<Rightarrow> cref" where
  "right_end ys = hd (map CPool ys @ [CTail])"

lemma end_simps [simp]:
  "left_end [] = CHead" "left_end (xs @ [i]) = CPool i" "left_end (xs @ zs @ [i]) = CPool i"
  "right_end [] = CTail" "right_end (i # ys) = CPool i"
  by (simp_all add: left_end_def right_end_def)

lemma left_end_cases: "left_end xs = CHead \<and> xs = [] \<or> (\<exists>i \<in> set xs. left_end xs = CPool i)"
  by (cases xs rule: rev_cases) auto

lemma right_end_cases: "right_end ys = CTail \<and> ys = [] \<or> (\<exists>i \<in> set ys. right_end ys = CPool i)"
  by (cases ys) auto

lemma chain_split:
  "chain (xs @ ys) =
     butlast (CHead # map CPool xs) @ left_end xs # right_end ys # tl (map CPool ys @ [CTail])"
proof -
  have "butlast (CHead # map CPool xs) @ [left_end xs] = CHead # map CPool xs"
    unfolding left_end_def by (rule append_butlast_last_id) simp
  moreover have "right_end ys # tl (map CPool ys @ [CTail]) = map CPool ys @ [CTail]"
    by (cases ys) auto
  ultimately show ?thesis by (metis append.assoc append_Cons append_Nil map_append)
qed

lemma left_end_valid: "\<forall>i \<in> set xs. i < chunk_max s \<Longrightarrow> valid s (left_end xs)"
  using left_end_cases [of xs] by auto

lemma right_end_valid: "\<forall>i \<in> set ys. i < chunk_max s \<Longrightarrow> valid s (right_end ys)"
  using right_end_cases [of ys] by auto

lemma chain_distinct: "sorted_wrt (<) (fs :: nat list) \<Longrightarrow> distinct (chain fs)"
  by (auto simp: distinct_map inj_on_def strict_sorted_iff)

lemma links_chain_split:
  "links m (chain (xs @ ys)) \<longleftrightarrow>
     links m (CHead # map CPool xs) \<and> i_next (m (left_end xs)) = right_end ys \<and>
     i_prev (m (right_end ys)) = left_end xs \<and> links m (map CPool ys @ [CTail])"
proof -
  have "butlast (CHead # map CPool xs) @ [left_end xs] = CHead # map CPool xs"
    unfolding left_end_def by (rule append_butlast_last_id) simp
  moreover have "right_end ys # tl (map CPool ys @ [CTail]) = map CPool ys @ [CTail]"
    by (cases ys) auto
  ultimately show ?thesis unfolding chain_split links_join by simp
qed

end
