(* ===== verification/Kmalloc_Search.thy ===== *)
theory Kmalloc_Search
  imports Kmalloc_List
begin

text \<open>
  The three loops of the allocator that search: the chunk-counting loop (how many chunks a size
  needs, and for which sizes the loop does not end), the first-fit walk, and the walk of \<open>relink\<close>
  to the place of a freed block.
\<close>

section \<open>Counting chunks\<close>

definition chunks_for :: "u64 \<Rightarrow> nat" where
  "chunks_for sz = (unat (sz + info_size) + 31) div 32"

lemma unat_add_chunk:
  fixes c :: u64
  assumes "unat c + 32 < 2 ^ 64"
  shows "unat (c + chunk_size) = unat c + 32"
  using assms by (simp add: chunk_size_def unat_word_ariths)

lemma chunk_count_loop_ends:
  assumes "unat (sz + info_size) \<le> 2 ^ 64 - 32" and "unat c = 32 * k" and "k \<le> chunks_for sz"
  shows "chunk_count_loop sz c k = Some (chunks_for sz)"
  using assms(2,3)
proof (induction "chunks_for sz - k" arbitrary: c k)
  case 0
  then have "\<not> c < sz + info_size"
    by (simp add: word_less_nat_alt chunks_for_def)
  with 0 show ?case by (subst chunk_count_loop.simps) simp
next
  case (Suc d)
  then have k: "k < chunks_for sz" by simp
  then have less: "c < sz + info_size"
    using Suc.prems by (simp add: word_less_nat_alt chunks_for_def)
  then have "unat c + 32 \<le> 2 ^ 64 - 32 + 31"
    using Suc.prems assms(1) by (simp add: word_less_nat_alt)
  then have "unat (c + chunk_size) = 32 * (k + 1)"
    using Suc.prems unat_add_chunk [of c] by simp
  then have "chunk_count_loop sz (c + chunk_size) (k + 1) = Some (chunks_for sz)"
    using Suc.hyps(2) k by (intro Suc.hyps(1)) auto
  with less show ?case by (subst chunk_count_loop.simps) simp
qed

lemma chunk_count_ends:
  "unat (sz + info_size) \<le> 2 ^ 64 - 32 \<Longrightarrow> chunk_count sz = Some (chunks_for sz)"
  by (simp add: chunk_count_def chunk_count_loop_ends)

text \<open>Above the last multiple of 32 the running sum wraps to 0 before it reaches the bound.\<close>

lemma mult_32_wraps:
  fixes c :: u64
  assumes "unat c mod 32 = 0"
  shows "unat (c + chunk_size) mod 32 = 0" "unat c \<le> 2 ^ 64 - 32"
proof -
  have "(unat c + 32) mod 2 ^ 64 mod 32 = (unat c + 32) mod 32"
    by (rule mod_mod_cancel) simp
  with assms show "unat (c + chunk_size) mod 32 = 0"
    by (simp add: chunk_size_def unat_word_ariths)
  have "unat c < 2 ^ LENGTH(64)" by (rule unsigned_less)
  then have less: "unat c < 18446744073709551616" by simp
  obtain k where "unat c = 32 * k" using assms by (auto simp: mod_eq_0_iff_dvd elim: dvdE)
  with less show "unat c \<le> 2 ^ 64 - 32" by simp
qed

lemma chunk_count_loop_diverges:
  assumes "chunk_count_loop sz c k = Some r"
  shows "unat c mod 32 = 0 \<longrightarrow> unat (sz + info_size) \<le> 2 ^ 64 - 32"
proof (rule chunk_count_loop.raw_induct
    [where P = "\<lambda>sz c k r. unat c mod 32 = 0 \<longrightarrow> unat (sz + info_size) \<le> 2 ^ 64 - 32", OF _ assms])
  fix f :: "u64 \<Rightarrow> u64 \<Rightarrow> nat \<Rightarrow> nat option" and sz c k r
  assume IH: "\<And>sz c k r. f sz c k = Some r \<Longrightarrow>
      unat c mod 32 = 0 \<longrightarrow> unat (sz + info_size) \<le> 2 ^ 64 - 32"
    and eq: "(if c < sz + info_size then f sz (c + chunk_size) (k + 1) else Some k) = Some r"
  show "unat c mod 32 = 0 \<longrightarrow> unat (sz + info_size) \<le> 2 ^ 64 - 32"
  proof (cases "c < sz + info_size")
    case True
    with eq IH mult_32_wraps(1) [of c] show ?thesis by auto
  next
    case False
    with mult_32_wraps(2) [of c] show ?thesis by (auto simp: word_less_nat_alt)
  qed
qed

lemma chunk_count_None:
  "2 ^ 64 - 32 < unat (sz + info_size) \<Longrightarrow> chunk_count sz = None"
  using chunk_count_loop_diverges [of sz 0 0] by (cases "chunk_count sz") (auto simp: chunk_count_def)

section \<open>First fit\<close>

text \<open>
  The search on chunk numbers: \<open>k\<close> adjacent free chunks from \<open>t\<close> have been seen, the list holds
  the free chunks after them.
\<close>

fun first_fit :: "nat \<Rightarrow> nat \<Rightarrow> nat \<Rightarrow> nat list \<Rightarrow> nat option" where
  "first_fit n k t [] = None"
| "first_fit n k t (i # gs) =
     (if k + 1 = n then Some t
      else case gs of
             [] \<Rightarrow> None
           | j # _ \<Rightarrow> if j = Suc i then first_fit n (k + 1) t gs else first_fit n 0 j gs)"

text \<open>A run of \<open>n\<close> free chunks from \<open>u\<close>.\<close>

definition free_run :: "nat list \<Rightarrow> nat \<Rightarrow> nat \<Rightarrow> bool" where
  "free_run fs n u \<longleftrightarrow> {u..<u + n} \<subseteq> set fs"

lemma find_run_refines:
  assumes "links (mem s) (map CPool gs @ [CTail])" and "\<forall>i \<in> set gs. i < chunk_max s"
    and "gs \<noteq> [] \<or> k = 0"
  shows "find_run s n k (CPool t) (right_end gs) = Some (map_option CPool (first_fit n k t gs))"
  using assms
proof (induction gs arbitrary: k t)
  case Nil
  then show ?case by (simp add: find_run.simps)
next
  case (Cons i gs)
  have tail: "links (mem s) (map CPool gs @ [CTail])" and nxt: "i_next (mem s (CPool i)) = right_end gs"
    using Cons.prems(1) by (cases gs; simp)+
  show ?case
  proof (cases gs)
    case Nil
    with nxt Cons.prems show ?thesis by (simp add: find_run.simps)
  next
    case (Cons j js)
    then have IH: "find_run s n k' (CPool t') (CPool j) =
        Some (map_option CPool (first_fit n k' t' gs))" for k' t'
      using Cons.IH [of k' t'] tail Cons.prems by simp
    with Cons nxt Cons.prems show ?thesis
      by (subst find_run.simps) auto
  qed
qed

lemma find_run_from_head:
  assumes "free_list s fs"
  shows "i_next (mem s CHead) = right_end fs"
    and "find_run s n 0 (right_end fs) (right_end fs) =
           Some (map_option CPool (first_fit n 0 (hd fs) fs))"
proof -
  from assms show "i_next (mem s CHead) = right_end fs"
    using links_chain_split [of "mem s" "[]" fs] by (simp add: free_list_def)
  show "find_run s n 0 (right_end fs) (right_end fs) =
           Some (map_option CPool (first_fit n 0 (hd fs) fs))"
  proof (cases fs)
    case Nil
    then show ?thesis by (simp add: find_run.simps)
  next
    case (Cons i ks)
    then show ?thesis
      using assms links_chain_split [of "mem s" "[]" fs] find_run_refines [of s fs 0 n i]
      by (simp add: free_list_def)
  qed
qed

text \<open>
  Soundness and completeness, with the window already seen as part of the whole free list: the
  answer is the start of a free run, no free run starts earlier, and there is none if it is \<open>None\<close>.
\<close>

lemma first_fit_run:
  assumes "first_fit n k t gs = Some u" and "gs \<noteq> [] \<Longrightarrow> hd gs = t + k" and "sorted_wrt (<) gs"
  shows "\<exists>xs ys. [t..<t + k] @ gs = xs @ [u..<u + n] @ ys"
  using assms
proof (induction n k t gs rule: first_fit.induct)
  case (1 n k t)
  then show ?case by simp
next
  case (2 n k t i js)
  have i: "i = t + k" using 2(4) by simp
  show ?case
  proof (cases "k + 1 = n")
    case True
    with 2 i have "[t..<t + k] @ i # js = [] @ [u..<u + n] @ js" by auto
    then show ?thesis by blast
  next
    case False
    note k = False
    show ?thesis
    proof (cases js)
      case Nil
      with 2(3) k show ?thesis by simp
    next
      case (Cons j ks)
      show ?thesis
      proof (cases "j = Suc i")
        case True
        with 2 k Cons i have "\<exists>xs ys. [t..<t + (k + 1)] @ js = xs @ [u..<u + n] @ ys" by simp
        with i show ?thesis by simp
      next
        case False
        with 2 k Cons have "\<exists>xs ys. [j..<j + 0] @ js = xs @ [u..<u + n] @ ys" by simp
        then obtain xs ys where "js = xs @ [u..<u + n] @ ys" by auto
        then have "[t..<t + k] @ i # js = ([t..<t + k] @ i # xs) @ [u..<u + n] @ ys" by simp
        then show ?thesis by blast
      qed
    qed
  qed
qed

lemma first_fit_least:
  assumes "0 < n" and "k < n" and "gs \<noteq> [] \<Longrightarrow> hd gs = t + k" and "sorted_wrt (<) gs"
    and "t \<le> u" and "free_run ([t..<t + k] @ gs) n u"
  shows "\<exists>v. first_fit n k t gs = Some v \<and> v \<le> u"
  using assms
proof (induction n k t gs rule: first_fit.induct)
  case (1 n k t)
  then have "u + (n - 1) \<in> {t..<t + k}" by (auto simp: free_run_def subset_iff)
  with 1 show ?case by auto
next
  case (2 n k t i js)
  have i: "i = t + k" using 2(5) by simp
  show ?case
  proof (cases "k + 1 = n")
    case True
    with 2 show ?thesis by simp
  next
    case False
    note k = False
    have sub: "{u..<u + n} \<subseteq> {t..<Suc i} \<union> set js"
      using 2(8) i by (auto simp: free_run_def subset_iff)
    have later: "\<forall>x \<in> set js. i < x" using 2(6) by simp
    show ?thesis
    proof (cases js)
      case Nil
      with sub have "u + (n - 1) \<in> {t..<Suc i}" using 2(3) by (auto simp: subset_iff)
      with i k 2(4,7) show ?thesis by auto
    next
      case (Cons j ks)
      show ?thesis
      proof (cases "j = Suc i")
        case True
        have "free_run ([t..<t + (k + 1)] @ js) n u" using sub i by (auto simp: free_run_def)
        with 2 True k Cons i show ?thesis by simp
      next
        case False
        have Suc_i: "Suc i \<notin> set js" using Cons False 2(6) by auto
        have "i < u"
        proof (rule ccontr)
          assume "\<not> i < u"
          then have "Suc i \<in> {u..<u + n}" using 2(4,7) i k by auto
          with sub Suc_i show False by auto
        qed
        moreover have "u \<in> {t..<Suc i} \<union> set js" using sub 2(3) by (auto simp: subset_iff)
        ultimately have "u \<in> set js" by auto
        with Cons 2(6) have "j \<le> u" by auto
        moreover have "free_run ([j..<j + 0] @ js) n u"
          using sub \<open>i < u\<close> by (auto simp: free_run_def)
        ultimately show ?thesis using 2 False k Cons by simp
      qed
    qed
  qed
qed

lemma first_fit_0: "first_fit 0 k t gs = None"
  by (induction "0::nat" k t gs rule: first_fit.induct) (auto split: list.splits)

text \<open>From the start of the list.\<close>

lemma first_fit_Some:
  assumes "first_fit n 0 (hd fs) fs = Some u" and "sorted_wrt (<) fs"
  obtains xs ys where "fs = xs @ [u..<u + n] @ ys" "0 < n"
  using first_fit_run [OF assms(1)] assms first_fit_0 by (cases n) auto

lemma first_fit_complete:
  assumes "sorted_wrt (<) fs" and "0 < n" and "free_run fs n u"
  shows "\<exists>v. first_fit n 0 (hd fs) fs = Some v \<and> v \<le> u"
proof -
  have "u \<in> set fs" using assms by (auto simp: free_run_def)
  then have "fs \<noteq> []" "hd fs \<le> u" using assms(1) by (cases fs; auto)+
  with assms show ?thesis by (intro first_fit_least) auto
qed

section \<open>The place of a freed block\<close>

lemma find_prev_walk:
  assumes "links (mem s) (p # map CPool (xs @ ys) @ [CTail])" and "valid s p"
    and "\<forall>i \<in> set xs. i < chunk_max s \<and> i < t" and "\<forall>i \<in> set ys. t \<le> i"
  shows "find_prev s t p = Some (last (p # map CPool xs))"
  using assms
proof (induction xs arbitrary: p)
  case Nil
  then show ?case by (subst find_prev.simps) (cases ys; auto)
next
  case (Cons x xs)
  have "find_prev s t (CPool x) = Some (last (CPool x # map CPool xs))"
    using Cons.prems by (intro Cons.IH) auto
  with Cons.prems show ?case by (subst find_prev.simps) simp
qed

lemma find_prev_free_list:
  assumes "free_list s (xs @ ys)" and "\<forall>i \<in> set xs. i < t" and "\<forall>i \<in> set ys. t \<le> i"
  shows "find_prev s t CHead = Some (left_end xs)"
  unfolding left_end_def using assms by (intro find_prev_walk) (auto simp: free_list_def)

end
