(* ===== verification/Kmalloc_Inv.thy ===== *)
theory Kmalloc_Inv
  imports Kmalloc_Search
begin

text \<open>
  The allocator's invariant, with the live blocks as ghost state, and the effect of every
  operation on it: \<open>init\<close>, taking a run out of the free list, putting a block back.
\<close>

section \<open>The invariant\<close>

text \<open>A live block: its first chunk, its number of chunks, the size it was asked with.\<close>

type_synonym block = "nat \<times> nat \<times> u64"

fun block_chunks :: "block \<Rightarrow> nat list" where
  "block_chunks (t, n, z) = [t..<t + n]"

fun block_size :: "block \<Rightarrow> u64" where
  "block_size (t, n, z) = z"

text \<open>The pool lies inside the address space, and not at address 0.\<close>

definition pool_ok :: "kheap \<Rightarrow> bool" where
  "pool_ok s \<longleftrightarrow> 0 < unat (pool s) \<and> unat (pool s) + 32 * chunk_max s < 2 ^ 64"

definition block_ok :: "store \<Rightarrow> block \<Rightarrow> bool" where
  "block_ok m b = (case b of (t, n, z) \<Rightarrow>
     0 < n \<and> i_count (m (CPool t)) = n \<and> i_size (m (CPool t)) = z)"

text \<open>
  Every chunk of the pool is in the free list or in exactly one live block (one multiset equation
  says disjoint, without repetition and without loss); the header of a live block holds its chunk
  count and size; the running total is the sum of the live sizes.
\<close>

definition heap_inv :: "kheap \<Rightarrow> nat list \<Rightarrow> block list \<Rightarrow> bool" where
  "heap_inv s fs bs \<longleftrightarrow>
     initialized s \<and> free_list s fs \<and>
     mset (fs @ concat (map block_chunks bs)) = mset [0..<chunk_max s] \<and>
     (\<forall>b \<in> set bs. block_ok (mem s) b) \<and>
     totalAllocated s = sum_list (map block_size bs)"

text \<open>Before the first allocation the pool is untouched.\<close>

definition heap_state :: "kheap \<Rightarrow> nat list \<Rightarrow> block list \<Rightarrow> bool" where
  "heap_state s fs bs \<longleftrightarrow>
     (if initialized s then heap_inv s fs bs
      else fs = [0..<chunk_max s] \<and> bs = [] \<and> totalAllocated s = 0)"

lemma heap_inv_state: "heap_inv s fs bs \<Longrightarrow> heap_state s fs bs"
  by (simp add: heap_state_def heap_inv_def)

lemma heap_inv_parts:
  assumes "heap_inv s fs bs"
  shows "free_list s fs" "sorted_wrt (<) fs" "distinct (fs @ concat (map block_chunks bs))"
    "set fs \<union> (\<Union>b \<in> set bs. set (block_chunks b)) = {0..<chunk_max s}"
proof -
  from assms have m: "mset (fs @ concat (map block_chunks bs)) = mset [0..<chunk_max s]"
    and "free_list s fs" by (auto simp: heap_inv_def)
  then show "free_list s fs" "sorted_wrt (<) fs" by (simp_all add: free_list_def)
  show "distinct (fs @ concat (map block_chunks bs))"
    using m mset_eq_imp_distinct_iff distinct_upt by blast
  show "set fs \<union> (\<Union>b \<in> set bs. set (block_chunks b)) = {0..<chunk_max s}"
    using mset_eq_setD [OF m] by simp
qed

text \<open>Two live blocks share no chunk, and none is free.\<close>

lemma distinct_concat_pair:
  "distinct (concat (map f bs)) \<Longrightarrow> i < length bs \<Longrightarrow> j < length bs \<Longrightarrow> i \<noteq> j \<Longrightarrow>
   set (f (bs ! i)) \<inter> set (f (bs ! j)) = {}"
proof (induction bs arbitrary: i j)
  case Nil
  then show ?case by simp
next
  case (Cons b bs)
  have "set (f b) \<inter> set (f (bs ! k)) = {}" if "k < length bs" for k
    using Cons.prems(1) that by (auto simp: disjoint_iff)
  with Cons show ?case by (cases i; cases j) (auto simp: Int_commute)
qed

lemma heap_inv_block_bounds:
  assumes "heap_inv s fs bs" and "(t, n, z) \<in> set bs"
  shows "0 < n" "t + n \<le> chunk_max s" "t < chunk_max s"
proof -
  show n: "0 < n" using assms by (auto simp: heap_inv_def block_ok_def)
  have "t + (n - 1) \<in> set (block_chunks (t, n, z))" using n by simp
  then have "t + (n - 1) \<in> {0..<chunk_max s}"
    using heap_inv_parts(4) [OF assms(1)] assms(2) by blast
  with n show "t + n \<le> chunk_max s" "t < chunk_max s" by auto
qed

section \<open>Relinking at a cut\<close>

lemma chain_cut:
  assumes "sorted_wrt (<) (xs @ ys)"
  shows "left_end xs \<notin> set (butlast (CHead # map CPool xs))"
    "right_end ys \<notin> set (CHead # map CPool xs)"
    "left_end xs \<notin> set (map CPool ys @ [CTail])"
    "right_end ys \<notin> set (tl (map CPool ys @ [CTail]))"
proof -
  have d: "distinct (chain (xs @ ys))" using assms by (rule chain_distinct)
  have l: "CHead # map CPool xs = butlast (CHead # map CPool xs) @ [left_end xs]"
    unfolding left_end_def by (rule append_butlast_last_id [symmetric]) simp
  have r: "map CPool ys @ [CTail] = right_end ys # tl (map CPool ys @ [CTail])"
    by (cases ys) auto
  have "distinct ((CHead # map CPool xs) @ (map CPool ys @ [CTail]))" using d by simp
  then have "distinct ((butlast (CHead # map CPool xs) @ [left_end xs]) @ (right_end ys # tl (map CPool ys @ [CTail])))"
    using l r by metis
  moreover have "p \<notin> set A \<and> q \<notin> set (A @ [p]) \<and> p \<notin> set (q # B) \<and> q \<notin> set B"
    if "distinct ((A @ [p]) @ (q # B))" for A B and p q :: cref using that by auto
  ultimately have "left_end xs \<notin> set (butlast (CHead # map CPool xs)) \<and>
     right_end ys \<notin> set (butlast (CHead # map CPool xs) @ [left_end xs]) \<and>
     left_end xs \<notin> set (right_end ys # tl (map CPool ys @ [CTail])) \<and>
     right_end ys \<notin> set (tl (map CPool ys @ [CTail]))" by blast
  then have "left_end xs \<notin> set (butlast (CHead # map CPool xs)) \<and>
     right_end ys \<notin> set (CHead # map CPool xs) \<and>
     left_end xs \<notin> set (map CPool ys @ [CTail]) \<and>
     right_end ys \<notin> set (tl (map CPool ys @ [CTail]))"
    unfolding l [symmetric] r [symmetric] .
  then show "left_end xs \<notin> set (butlast (CHead # map CPool xs))"
    "right_end ys \<notin> set (CHead # map CPool xs)"
    "left_end xs \<notin> set (map CPool ys @ [CTail])"
    "right_end ys \<notin> set (tl (map CPool ys @ [CTail]))" by blast+
qed

text \<open>
  The two sides of a cut keep their links if nothing but the next link of the left end and the
  prev link of the right end changes on them.
\<close>

lemma links_sides:
  assumes "links m (CHead # map CPool xs)" "links m (map CPool ys @ [CTail])"
    and "sorted_wrt (<) (xs @ ys)"
    and "\<And>r. r \<in> insert CHead (CPool ` set xs) \<union> insert CTail (CPool ` set ys) \<Longrightarrow>
      r \<noteq> left_end xs \<Longrightarrow> i_next (m' r) = i_next (m r)"
    and "\<And>r. r \<in> insert CHead (CPool ` set xs) \<union> insert CTail (CPool ` set ys) \<Longrightarrow>
      r \<noteq> right_end ys \<Longrightarrow> i_prev (m' r) = i_prev (m r)"
  shows "links m' (CHead # map CPool xs)" "links m' (map CPool ys @ [CTail])"
proof -
  note cut = chain_cut [OF assms(3)]
  have "links m' (CHead # map CPool xs) = links m (CHead # map CPool xs)"
  proof (rule links_cong)
    fix r assume r: "r \<in> set (butlast (CHead # map CPool xs))"
    then have "r \<in> insert CHead (CPool ` set xs)" using in_set_butlastD by fastforce
    moreover have "r \<noteq> left_end xs" using r cut(1) by blast
    ultimately show "i_next (m' r) = i_next (m r)" using assms(4) by blast
  next
    fix r assume "r \<in> set (tl (CHead # map CPool xs))"
    then have r: "r \<in> CPool ` set xs" by simp
    moreover have "CPool ` set xs \<subseteq> set (CHead # map CPool xs)" by auto
    ultimately have "r \<noteq> right_end ys" using cut(2) by blast
    with r     show "i_prev (m' r) = i_prev (m r)" using assms(5) by blast
  qed
  with assms(1) show "links m' (CHead # map CPool xs)" by simp
  have "links m' (map CPool ys @ [CTail]) = links m (map CPool ys @ [CTail])"
  proof (rule links_cong)
    fix r assume "r \<in> set (butlast (map CPool ys @ [CTail]))"
    then have "r \<in> CPool ` set ys" by (simp add: butlast_append)
    moreover have "CPool ` set ys \<subseteq> set (map CPool ys @ [CTail])" by auto
    ultimately have "r \<in> CPool ` set ys" "r \<noteq> left_end xs" using cut(3) by blast+
    then show "i_next (m' r) = i_next (m r)" using assms(4) by blast
  next
    fix r assume r: "r \<in> set (tl (map CPool ys @ [CTail]))"
    then have "r \<in> insert CTail (CPool ` set ys)" by (cases ys) auto
    moreover have "r \<noteq> right_end ys" using r cut(4) by blast
    ultimately show "i_prev (m' r) = i_prev (m r)" using assms(5) by blast
  qed
  with assms(2) show "links m' (map CPool ys @ [CTail])" by simp
qed

text \<open>
  The store after a run of \<open>n\<close> chunks from \<open>t\<close> is linked in between \<open>p\<close> and \<open>q\<close>: the assignments of
  \<open>relink\<close> (and of \<open>init\<close>, with the sentinels for \<open>p\<close> and \<open>q\<close>).
\<close>

definition inserted :: "store \<Rightarrow> cref \<Rightarrow> cref \<Rightarrow> nat \<Rightarrow> nat \<Rightarrow> store" where
  "inserted m p q t n =
     (let p' = (if n = 0 then p else CPool (t + n - 1));
          m1 = relinked (m(p := (m p)\<lparr>i_next := CPool t\<rparr>)) p t n;
          m2 = m1(p' := (m1 p')\<lparr>i_next := q\<rparr>)
      in m2(q := (m2 q)\<lparr>i_prev := p'\<rparr>))"

lemma inserted_outside:
  assumes "0 < n" and "r \<notin> CPool ` {t..<t + n}"
  shows "i_next (inserted m p q t n r) = (if r = p then CPool t else i_next (m r))"
    and "i_prev (inserted m p q t n r) = (if r = q then CPool (t + n - 1) else i_prev (m r))"
    and "i_count (inserted m p q t n r) = i_count (m r)"
  using assms by (auto simp: inserted_def Let_def relinked_outside)

lemma inserted_inside:
  assumes "t \<le> j" "j < t + n" and "q \<notin> CPool ` {t..<t + n}"
  shows "i_next (inserted m p q t n (CPool j)) = (if j = t + n - 1 then q else CPool (Suc j))"
    and "i_prev (inserted m p q t n (CPool j)) = (if j = t then p else CPool (j - 1))"
    and "i_count (inserted m p q t n (CPool j)) = 0"
  using assms by (auto simp: inserted_def Let_def)

lemma inserted_size [simp]: "i_size (inserted m p q t n r) = i_size (m r)"
  by (simp add: inserted_def Let_def)

lemma ends_outside_run:
  assumes "sorted_wrt (<) (xs @ [t..<t + n] @ ys)"
  shows "left_end xs \<notin> CPool ` {t..<t + n}" "right_end ys \<notin> CPool ` {t..<t + n}"
  using assms left_end_cases [of xs] right_end_cases [of ys]
  by (fastforce simp: sorted_wrt_append)+

lemma inserted_run_links:
  assumes n: "0 < n" and q: "q \<notin> CPool ` {t..<t + n}"
  shows "links (inserted m p q t n) (map CPool [t..<t + n])"
proof -
  have "links (inserted m p q t n) (map CPool [t..<t + n]) =
        links (relinked m p t n) (map CPool [t..<t + n])"
  proof (rule links_cong)
    fix r assume "r \<in> set (butlast (map CPool [t..<t + n]))"
    then obtain j where "r = CPool j" "t \<le> j" "j < t + n - 1"
      using n by (cases n) (auto simp: butlast_append)
    then show "i_next (inserted m p q t n r) = i_next (relinked m p t n r)"
      using inserted_inside(1) [of t j n q m p] q by simp
  next
    fix r assume "r \<in> set (tl (map CPool [t..<t + n]))"
    then have "r \<in> set (map CPool [t..<t + n])" by (rule list.set_sel(2) [rotated]) (use n in simp)
    then obtain j where "r = CPool j" "t \<le> j" "j < t + n" by auto
    then show "i_prev (inserted m p q t n r) = i_prev (relinked m p t n r)"
      using inserted_inside(2) [of t j n q m p] q by simp
  qed
  then show ?thesis using links_relinked by simp
qed

lemma inserted_links:
  assumes sides: "links m (CHead # map CPool xs)" "links m (map CPool ys @ [CTail])" and n: "0 < n"
    and so: "sorted_wrt (<) (xs @ [t..<t + n] @ ys)"
  shows "links (inserted m (left_end xs) (right_end ys) t n) (chain (xs @ [t..<t + n] @ ys))"
proof -
  let ?p = "left_end xs" and ?q = "right_end ys"
  let ?m = "inserted m ?p ?q t n"
  note ends = ends_outside_run [OF so]
  have so': "sorted_wrt (<) (xs @ ys)" using so by (auto simp: sorted_wrt_append)
  have "\<forall>j \<in> {t..<t + n}. j \<notin> set xs \<and> j \<notin> set ys"
    using so by (auto simp: sorted_wrt_append)
  then have less: "CPool ` {t..<t + n} \<inter> (insert CHead (CPool ` set xs) \<union> insert CTail (CPool ` set ys)) = {}"
    by blast
  have out: "r \<notin> CPool ` {t..<t + n}"
    if "r \<in> insert CHead (CPool ` set xs) \<union> insert CTail (CPool ` set ys)" for r
    using that less by blast
  have l: "links ?m (CHead # map CPool xs)" and r: "links ?m (map CPool ys @ [CTail])"
    by (rule links_sides [OF sides so']; use inserted_outside [OF n out] in simp)+
  obtain k where k: "n = Suc k" using n by (cases n) auto
  define p q where "p = ?p" and "q = ?q"
  have m: "?m = inserted m p q t n" and pq: "p \<notin> CPool ` {t..<t + n}" "q \<notin> CPool ` {t..<t + n}"
    using ends unfolding p_def q_def by blast+
  obtain zs where zs: "map CPool ys @ [CTail] = q # zs"
    unfolding q_def by (cases ys) auto
  have a: "links ?m (map CPool [t..<t + k] @ [CPool (t + k)])"
    using inserted_run_links [OF n pq(2), of m p] k m by simp
  have b: "i_next (?m (CPool (t + k))) = q" "i_prev (?m q) = CPool (t + k)"
    using inserted_inside(1) [of t "t + k" n q m p] inserted_outside(2) [OF n pq(2), of m p q] pq k m
    by simp_all
  have "links ?m (map CPool [t..<t + k] @ CPool (t + k) # q # zs)"
    unfolding links_join using a b r zs by simp
  then have run: "links ?m (map CPool ([t..<t + n] @ ys) @ [CTail])"
    using zs k by simp
  have first: "right_end ([t..<t + n] @ ys) = CPool t"
    using n by (simp add: upt_conv_Cons)
  have "i_next (?m p) = CPool t" "i_prev (?m (CPool t)) = p"
    using inserted_outside(1) [OF n pq(1), of m p q] inserted_inside(2) [of t t n q m p] pq n m
    by simp_all
  then show ?thesis
    unfolding links_chain_split first p_def using l run by blast
qed

section \<open>init\<close>

lemma init_pool_state:
  obtains s' where "init_pool s = Some s'" "free_list s' [0..<chunk_max s]" "initialized s'"
    "chunk_max s' = chunk_max s" "pool s' = pool s" "totalAllocated s' = totalAllocated s"
    "klock s' = klock s"
proof -
  let ?N = "chunk_max s"
  let ?m = "inserted (mem s) CHead CTail 0 ?N"
  let ?s = "s\<lparr>mem := ?m, initialized := True\<rparr>"
  have "init_pool s = Some ?s"
    by (cases ?N) (simp_all add: init_pool_def link_chunks_relinked inserted_def Let_def)
  moreover have "links ?m (chain [0..<?N])"
  proof (cases ?N)
    case 0
    then show ?thesis by (simp add: inserted_def)
  next
    case (Suc k)
    have "links (inserted (mem s) (left_end []) (right_end []) 0 ?N) (chain ([] @ [0..<0 + ?N] @ []))"
      by (rule inserted_links) (simp_all add: strict_sorted_iff Suc del: upt_Suc)
    then show ?thesis by simp
  qed
  moreover have "i_count (?m (CPool i)) = 0" if "i < ?N" for i
    using inserted_inside(3) [of 0 i ?N CTail] that by auto
  ultimately show ?thesis
    by (intro that [of ?s]) (auto simp: free_list_def)
qed

end
