(* ===== verification/Kmalloc_Ops.thy ===== *)
theory Kmalloc_Ops
  imports Kmalloc_Inv
begin

text \<open>
  \<open>kmalloc_no_lock\<close> and \<open>kfree_no_lock\<close> on a heap that satisfies the invariant: what they return,
  the new free list and the new live blocks.
\<close>

section \<open>Taking a run out of the free list\<close>

definition unlinked :: "store \<Rightarrow> cref \<Rightarrow> cref \<Rightarrow> nat \<Rightarrow> nat \<Rightarrow> u64 \<Rightarrow> store" where
  "unlinked m p q t n z =
     (let m1 = m(p := (m p)\<lparr>i_next := q\<rparr>);
          m2 = m1(q := (m1 q)\<lparr>i_prev := p\<rparr>)
      in m2(CPool t := (m2 (CPool t))\<lparr>i_count := n, i_size := z\<rparr>))"

lemma unlinked_fields [simp]:
  "i_next (unlinked m p q t n z r) = (if r = p then q else i_next (m r))"
  "i_prev (unlinked m p q t n z r) = (if r = q then p else i_prev (m r))"
  "i_count (unlinked m p q t n z r) = (if r = CPool t then n else i_count (m r))"
  "i_size (unlinked m p q t n z r) = (if r = CPool t then z else i_size (m r))"
  by (auto simp: unlinked_def Let_def)

lemma free_list_cut:
  assumes "free_list s (xs @ [t..<t + n] @ ys)" and n: "0 < n"
  shows "i_prev (mem s (CPool t)) = left_end xs"
    "i_next (mem s (CPool (t + n - 1))) = right_end ys"
    "links (mem s) (CHead # map CPool xs)" "links (mem s) (map CPool ys @ [CTail])"
proof -
  have c: "links (mem s) (chain (xs @ [t..<t + n] @ ys))" using assms(1) by (simp add: free_list_def)
  have first: "right_end ([t..<t + n] @ ys) = CPool t" using n by (simp add: upt_conv_Cons)
  from c show "i_prev (mem s (CPool t)) = left_end xs" "links (mem s) (CHead # map CPool xs)"
    unfolding links_chain_split [of _ xs] first by blast+
  have last: "left_end (xs @ [t..<t + n]) = CPool (t + n - 1)" using n by (cases n) auto
  have "links (mem s) (chain ((xs @ [t..<t + n]) @ ys))" using c by simp
  then show "i_next (mem s (CPool (t + n - 1))) = right_end ys"
    "links (mem s) (map CPool ys @ [CTail])"
    unfolding links_chain_split [of _ "xs @ [t..<t + n]"] last by blast+
qed

lemma unlink_run_unlinked:
  assumes fl: "free_list s (xs @ [t..<t + n] @ ys)" and n: "0 < n"
  shows "unlink_run (CPool t) n sz s =
    Some (data_addr s (CPool t),
          s\<lparr>mem := unlinked (mem s) (left_end xs) (right_end ys) t n sz,
            totalAllocated := totalAllocated s + sz\<rparr>)"
proof -
  note cut = free_list_cut [OF fl n]
  have bounds: "\<forall>i \<in> set xs \<union> {t..<t + n} \<union> set ys. i < chunk_max s"
    using fl by (auto simp: free_list_def)
  then have v: "valid s (left_end xs)" "valid s (right_end ys)"
    by (auto intro!: left_end_valid right_end_valid)
  have "t < chunk_max s" "t + n - 1 < chunk_max s" using bounds n by auto
  moreover define p q where "p = left_end xs" and "q = right_end ys"
  ultimately show ?thesis
    using n v cut(1,2)
    by (simp add: unlink_run_def unlinked_def Let_def p_def [symmetric] q_def [symmetric])
qed

lemma unlinked_free_list:
  assumes fl: "free_list s (xs @ [t..<t + n] @ ys)" and n: "0 < n"
  shows "free_list (s\<lparr>mem := unlinked (mem s) (left_end xs) (right_end ys) t n sz,
            totalAllocated := z\<rparr>) (xs @ ys)"
proof -
  let ?m = "unlinked (mem s) (left_end xs) (right_end ys) t n sz"
  note cut = free_list_cut [OF fl n]
  have so: "sorted_wrt (<) (xs @ [t..<t + n] @ ys)" using fl by (simp add: free_list_def)
  then have so': "sorted_wrt (<) (xs @ ys)" by (auto simp: sorted_wrt_append)
  have "links ?m (CHead # map CPool xs)" "links ?m (map CPool ys @ [CTail])"
    by (rule links_sides [OF cut(3,4) so']; simp only: unlinked_fields if_False)+
  moreover have "i_next (?m (left_end xs)) = right_end ys" "i_prev (?m (right_end ys)) = left_end xs"
    by (simp_all only: unlinked_fields simp_thms if_True)
  ultimately have links: "links ?m (chain (xs @ ys))"
    unfolding links_chain_split by blast
  have "distinct (xs @ [t..<t + n] @ ys)" using so unfolding strict_sorted_iff by blast
  then have "{t..<t + n} \<inter> (set xs \<union> set ys) = {}" by auto
  moreover have "t \<in> {t..<t + n}" using n by simp
  ultimately have "t \<notin> set xs \<union> set ys" by blast
  with links show ?thesis
    using fl so' by (auto simp: free_list_def)
qed

lemma mset_take_run:
  "mset ((xs @ ys) @ concat (map block_chunks ((t, n, z) # bs))) =
   mset ((xs @ [t..<t + n] @ ys) @ concat (map block_chunks bs))"
  by simp

lemma unlinked_heap_inv:
  assumes inv: "heap_inv s (xs @ [t..<t + n] @ ys) bs" and n: "0 < n"
  shows "heap_inv (s\<lparr>mem := unlinked (mem s) (left_end xs) (right_end ys) t n sz,
            totalAllocated := totalAllocated s + sz\<rparr>) (xs @ ys) ((t, n, sz) # bs)"
proof -
  let ?m = "unlinked (mem s) (left_end xs) (right_end ys) t n sz"
  have d: "distinct ((xs @ [t..<t + n] @ ys) @ concat (map block_chunks bs))"
    using heap_inv_parts(3) [OF inv] .
  have "block_ok ?m b" if "b \<in> set bs" for b
  proof -
    obtain u k z where b: "b = (u, k, z)" by (cases b)
    have ok: "block_ok (mem s) b" using inv that by (simp add: heap_inv_def)
    have "u \<in> set (block_chunks b)" using ok b by (simp add: block_ok_def)
    moreover have "{t..<t + n} \<inter> (\<Union>a \<in> set bs. set (block_chunks a)) = {}" using d by auto
    moreover have "t \<in> {t..<t + n}" using n by simp
    ultimately have "u \<noteq> t" using that by blast
    with ok b show ?thesis by (simp add: block_ok_def)
  qed
  with inv unlinked_free_list [OF heap_inv_parts(1) [OF inv] n] n mset_take_run
  show ?thesis
    by (auto simp: heap_inv_def block_ok_def simp del: mset_append)
qed

section \<open>kmalloc\<close>

text \<open>The first allocation initialises the pool.\<close>

lemma kmalloc_init_step:
  assumes "heap_state s fs bs"
  obtains s0 where "(if initialized s then Some s else init_pool s) = Some s0"
    "heap_inv s0 fs bs" "chunk_max s0 = chunk_max s" "pool s0 = pool s" "klock s0 = klock s"
proof (cases "initialized s")
  case True
  with assms that show ?thesis by (simp add: heap_state_def)
next
  case False
  obtain s' where "init_pool s = Some s'" "free_list s' [0..<chunk_max s]" "initialized s'"
    "chunk_max s' = chunk_max s" "pool s' = pool s" "totalAllocated s' = totalAllocated s"
    "klock s' = klock s"
    by (rule init_pool_state)
  with False assms that show ?thesis by (auto simp: heap_state_def heap_inv_def)
qed

lemma kmalloc_no_lock_fit:
  assumes st: "heap_state s fs bs" and n: "chunk_count sz = Some n"
    and fit: "first_fit n 0 (hd fs) fs = Some t"
  obtains s' xs ys where
    "kmalloc_no_lock sz s = Some (data_addr s (CPool t), s')"
    "fs = xs @ [t..<t + n] @ ys" "0 < n" "heap_inv s' (xs @ ys) ((t, n, sz) # bs)"
    "chunk_max s' = chunk_max s" "pool s' = pool s" "klock s' = klock s"
proof -
  obtain s0 where s0: "(if initialized s then Some s else init_pool s) = Some s0"
    "heap_inv s0 fs bs" "chunk_max s0 = chunk_max s" "pool s0 = pool s" "klock s0 = klock s"
    by (rule kmalloc_init_step [OF st])
  note parts = heap_inv_parts [OF s0(2)]
  obtain xs ys where fs: "fs = xs @ [t..<t + n] @ ys" and pos: "0 < n"
    using first_fit_Some [OF fit parts(2)] by blast
  note fl = parts(1) [unfolded fs] and inv = s0(2) [unfolded fs]
  let ?s = "s0\<lparr>mem := unlinked (mem s0) (left_end xs) (right_end ys) t n sz,
               totalAllocated := totalAllocated s0 + sz\<rparr>"
  have "kmalloc_no_lock sz s = Some (data_addr s0 (CPool t), ?s)"
    using s0(1) n fit find_run_from_head(1) [OF parts(1)]
      find_run_from_head(2) [OF parts(1), of n] unlink_run_unlinked [OF fl pos, of sz]
    by (simp add: kmalloc_no_lock_def)
  with that [of ?s xs ys] fs pos s0 unlinked_heap_inv [OF inv pos, of sz] show ?thesis
    by simp
qed

lemma kmalloc_no_lock_none:
  assumes st: "heap_state s fs bs" and n: "chunk_count sz = Some n"
    and fit: "first_fit n 0 (hd fs) fs = None"
  obtains s' where
    "kmalloc_no_lock sz s = Some (0, s')" "heap_inv s' fs bs"
    "chunk_max s' = chunk_max s" "pool s' = pool s" "klock s' = klock s"
proof -
  obtain s0 where s0: "(if initialized s then Some s else init_pool s) = Some s0"
    "heap_inv s0 fs bs" "chunk_max s0 = chunk_max s" "pool s0 = pool s" "klock s0 = klock s"
    by (rule kmalloc_init_step [OF st])
  have "kmalloc_no_lock sz s = Some (0, s0)"
    using s0(1) n fit find_run_from_head(1) [OF heap_inv_parts(1) [OF s0(2)]]
      find_run_from_head(2) [OF heap_inv_parts(1) [OF s0(2)], of n]
    by (simp add: kmalloc_no_lock_def)
  with s0 that show ?thesis by blast
qed

section \<open>Addresses\<close>

lemma unat_offset:
  fixes p :: u64
  assumes "unat p + 32 * k < 2 ^ 64"
  shows "unat (p + of_nat k * chunk_size) = unat p + 32 * k"
proof -
  have "p + of_nat k * chunk_size = of_nat (unat p + 32 * k)" by (simp add: chunk_size_def)
  also have "unat \<dots> = unat p + 32 * k" using assms by (simp only: unat_of_nat) simp
  finally show ?thesis .
qed

lemma data_addr_unat:
  assumes "pool_ok s" and "t < chunk_max s"
  shows "unat (data_addr s (CPool t)) = unat (pool s) + 32 * t + 32"
proof -
  have "data_addr s (CPool t) = pool s + of_nat (t + 1) * chunk_size"
    by (simp add: chunk_size_def info_size_def)
  also have "unat \<dots> = unat (pool s) + 32 * (t + 1)"
    by (rule unat_offset) (use assms in \<open>auto simp: pool_ok_def\<close>)
  finally show ?thesis by simp
qed

lemma data_addr_nonzero:
  "pool_ok s \<Longrightarrow> t < chunk_max s \<Longrightarrow> data_addr s (CPool t) \<noteq> 0"
  using data_addr_unat [of s t] by (metis add_is_0 unat_0 zero_neq_numeral)

lemma data_addr_inj:
  assumes "pool_ok s" and "t < chunk_max s" "u < chunk_max s"
    and "data_addr s (CPool t) = data_addr s (CPool u)"
  shows "t = u"
proof -
  have "unat (pool s) + 32 * t + 32 = unat (pool s) + 32 * u + 32"
    using data_addr_unat [OF assms(1,2)] data_addr_unat [OF assms(1,3)] assms(4) by metis
  then show ?thesis by simp
qed

lemma header_addr:
  assumes "pool_ok s" and t: "t < chunk_max s"
  shows "chunk_at s (data_addr s (CPool t) - info_size) = Some (Some t)"
proof -
  let ?a = "pool s + of_nat t * chunk_size"
  have ok: "unat (pool s) + 32 * chunk_max s < 2 ^ 64" using assms by (simp add: pool_ok_def)
  have a: "unat ?a = unat (pool s) + 32 * t" by (rule unat_offset) (use ok t in linarith)
  have "(of_nat (chunk_max s) - 1 :: u64) = of_nat (chunk_max s - 1)"
    using t by (simp add: of_nat_diff)
  then have l: "unat (pool s + (of_nat (chunk_max s) - 1) * chunk_size) =
      unat (pool s) + 32 * (chunk_max s - 1)"
    by (simp only:) (rule unat_offset, use ok in linarith)
  have "unat (0 + of_nat t * chunk_size :: u64) = unat (0 :: u64) + 32 * t"
    by (rule unat_offset) (use ok t in simp)
  then have d: "unat (of_nat t * chunk_size :: u64) = 32 * t" by simp
  have "unat (of_nat t * chunk_size mod chunk_size :: u64) = 0"
    "unat (of_nat t * chunk_size div chunk_size :: u64) = t"
    by (simp_all only: unat_mod unat_div d) (simp_all add: chunk_size_def)
  moreover have "\<not> ?a < pool s"
    "\<not> pool s + (of_nat (chunk_max s) - 1) * chunk_size < ?a"
    unfolding word_less_nat_alt a l using t by simp_all
  moreover have "data_addr s (CPool t) - info_size = ?a" "?a - pool s = of_nat t * chunk_size"
    by simp_all
  ultimately show ?thesis by (simp only: chunk_at_def unat_eq_zero if_False simp_thms if_True)
qed

section \<open>kfree\<close>

text \<open>The free list with a block put back in its place.\<close>

definition put_back :: "nat list \<Rightarrow> nat \<Rightarrow> nat \<Rightarrow> nat list" where
  "put_back fs t n = filter (\<lambda>i. i < t) fs @ [t..<t + n] @ filter (\<lambda>i. \<not> i < t) fs"

lemma sorted_filter_split:
  "sorted_wrt (<) (fs :: nat list) \<Longrightarrow> filter (\<lambda>i. i < t) fs @ filter (\<lambda>i. \<not> i < t) fs = fs"
proof (induction fs)
  case Nil
  then show ?case by simp
next
  case (Cons i fs)
  show ?case
  proof (cases "i < t")
    case True
    with Cons show ?thesis by simp
  next
    case False
    with Cons.prems have "filter (\<lambda>i. i < t) fs = []" "filter (\<lambda>i. \<not> i < t) fs = fs"
      by (fastforce simp: filter_empty_conv filter_id_conv)+
    with False show ?thesis by simp
  qed
qed

lemma put_back_sorted:
  assumes "sorted_wrt (<) fs" and "{t..<t + n} \<inter> set fs = {}"
  shows "sorted_wrt (<) (put_back fs t n)"
proof -
  have "t + n \<le> y" if "y \<in> set fs" "\<not> y < t" for y
    using assms(2) that by (metis IntI atLeastLessThan_iff empty_iff not_less)
  moreover have "sorted_wrt (<) [t..<t + n]" by (simp add: strict_sorted_iff)
  ultimately show ?thesis
    using assms(1) by (force simp: put_back_def sorted_wrt_append sorted_wrt_filter)
qed

lemma mset_put_back: "mset (put_back fs t n) = mset fs + mset [t..<t + n]"
proof -
  have "mset fs = mset (filter (\<lambda>i. i < t) fs) + mset (filter (\<lambda>i. \<not> i < t) fs)"
    unfolding mset_filter by (rule multiset_partition)
  then show ?thesis by (simp add: put_back_def del: mset_filter)
qed

lemma relink_chunk_inserted:
  assumes fl: "free_list s (xs @ ys)" and t: "t + n \<le> chunk_max s" and n: "0 < n"
    and cnt: "i_count (mem s (CPool t)) = n"
    and xs: "\<forall>i \<in> set xs. i < t" and ys: "\<forall>i \<in> set ys. t < i"
  shows "relink_chunk t s =
    Some (s\<lparr>mem := inserted (mem s) (left_end xs) (right_end ys) t n,
            totalAllocated := totalAllocated s - i_size (mem s (CPool t))\<rparr>)"
proof -
  define p q where "p = left_end xs" and "q = right_end ys"
  let ?s = "s\<lparr>totalAllocated := totalAllocated s - i_size (mem s (CPool t))\<rparr>"
  have fl': "free_list ?s (xs @ ys)" using fl by (simp add: free_list_def)
  have fp: "find_prev ?s t CHead = Some p"
    unfolding p_def by (rule find_prev_free_list [OF fl' xs]) (use ys in auto)
  have nx: "i_next (mem s p) = q"
    using fl unfolding free_list_def links_chain_split p_def q_def by blast
  have bounds: "\<forall>i \<in> set xs \<union> set ys. i < chunk_max s" using fl by (auto simp: free_list_def)
  then have v: "valid s p" "valid s q"
    unfolding p_def q_def by (blast intro: left_end_valid right_end_valid)+
  have "p \<noteq> CPool t" using left_end_cases [of xs] xs unfolding p_def by auto
  then show ?thesis
    using fp nx v t n cnt
    by (simp add: relink_chunk_def link_chunks_relinked inserted_def Let_def
        p_def [symmetric] q_def [symmetric])
qed

lemma live_block_not_free:
  assumes inv: "heap_inv s fs bs" and b: "(t, n, z) \<in> set bs"
  shows "{t..<t + n} \<inter> set fs = {}"
    and "b' \<in> set (remove1 (t, n, z) bs) \<Longrightarrow> {t..<t + n} \<inter> set (block_chunks b') = {}"
proof -
  have d: "distinct (fs @ concat (map block_chunks bs))" by (rule heap_inv_parts(3) [OF inv])
  then have "set fs \<inter> (\<Union>b \<in> set bs. set (block_chunks b)) = {}" by auto
  moreover have "set (block_chunks (t, n, z)) \<subseteq> (\<Union>b \<in> set bs. set (block_chunks b))"
    using b by blast
  ultimately show "{t..<t + n} \<inter> set fs = {}" by auto
  assume b': "b' \<in> set (remove1 (t, n, z) bs)"
  obtain us vs where bs: "bs = us @ (t, n, z) # vs" and "(t, n, z) \<notin> set us"
    using split_list_first [OF b] by blast
  then have "remove1 (t, n, z) bs = us @ vs" by (simp add: remove1_append)
  with b' have "set (block_chunks b') \<subseteq> set (concat (map block_chunks (us @ vs)))" by auto
  moreover have "{t..<t + n} \<inter> set (concat (map block_chunks (us @ vs))) = {}"
    using d bs by auto
  ultimately show "{t..<t + n} \<inter> set (block_chunks b') = {}" by blast
qed

lemma mset_concat_remove1:
  "b \<in> set bs \<Longrightarrow>
   mset (concat (map f (remove1 b bs))) + mset (f b) = mset (concat (map f bs))"
  by (induction bs) auto

lemma relink_live_block:
  assumes inv: "heap_inv s fs bs" and b: "(t, n, z) \<in> set bs"
  obtains s' where "relink_chunk t s = Some s'"
    "heap_inv s' (put_back fs t n) (remove1 (t, n, z) bs)"
    "chunk_max s' = chunk_max s" "pool s' = pool s" "klock s' = klock s"
proof -
  let ?xs = "filter (\<lambda>i. i < t) fs" and ?ys = "filter (\<lambda>i. \<not> i < t) fs"
  note parts = heap_inv_parts [OF inv] and bounds = heap_inv_block_bounds [OF inv b]
  note apart = live_block_not_free [OF inv b]
  have fs: "?xs @ ?ys = fs" by (rule sorted_filter_split [OF parts(2)])
  have fl: "free_list s (?xs @ ?ys)" using parts(1) fs by simp
  have so: "sorted_wrt (<) (?xs @ [t..<t + n] @ ?ys)"
    using put_back_sorted [OF parts(2) apart(1)] by (simp add: put_back_def)
  have "t \<notin> set fs" using apart(1) bounds(1) by (auto simp: disjoint_iff)
  then have ys: "\<forall>i \<in> set ?ys. t < i" by (auto simp: not_less order.order_iff_strict)
  have hdr: "i_count (mem s (CPool t)) = n" "i_size (mem s (CPool t)) = z"
    using inv b by (auto simp: heap_inv_def block_ok_def)
  let ?m = "inserted (mem s) (left_end ?xs) (right_end ?ys) t n"
  let ?s = "s\<lparr>mem := ?m, totalAllocated := totalAllocated s - z\<rparr>"
  note ends = ends_outside_run [OF so]
  have run: "relink_chunk t s = Some ?s"
    using relink_chunk_inserted [OF fl bounds(2,1) hdr(1) _ ys] hdr(2) by simp
  have links: "links ?m (chain (put_back fs t n))"
    using inserted_links [OF _ _ bounds(1) so] fl
    unfolding free_list_def links_chain_split put_back_def by blast
  have outside: "i_count (?m (CPool j)) = i_count (mem s (CPool j))" if "j \<notin> {t..<t + n}" for j
    using that by (intro inserted_outside(3) [OF bounds(1)]) auto
  have inside: "i_count (?m (CPool j)) = 0" if "j \<in> {t..<t + n}" for j
    using inserted_inside(3) [of t j n "right_end ?ys"] ends(2) that by simp
  have "free_list ?s (put_back fs t n)"
    unfolding free_list_def
  proof (intro conjI ballI)
    fix i assume i: "i \<in> set (put_back fs t n)"
    then have "i \<in> set fs \<or> i \<in> {t..<t + n}" by (auto simp: put_back_def)
    then show "i < chunk_max ?s" using parts(1) bounds(2) by (auto simp: free_list_def)
    show "i_count (mem ?s (CPool i)) = 0"
      using \<open>i \<in> set fs \<or> i \<in> {t..<t + n}\<close> parts(1) inside [of i] outside [of i]
      by (cases "i \<in> {t..<t + n}") (auto simp: free_list_def)
  qed (use links put_back_sorted [OF parts(2) apart(1)] in simp_all)
  moreover have "block_ok ?m b'" if b': "b' \<in> set (remove1 (t, n, z) bs)" for b'
  proof -
    obtain u k y where u: "b' = (u, k, y)" by (cases b')
    have ok: "block_ok (mem s) b'"
      using inv notin_set_remove1 [of b' bs] b' by (auto simp: heap_inv_def)
    with u have "u \<in> set (block_chunks b')" by (simp add: block_ok_def)
    then have "u \<notin> {t..<t + n}" using apart(2) [OF b'] by blast
    with ok u outside [of u] show ?thesis by (simp add: block_ok_def)
  qed
  moreover have "mset (put_back fs t n @ concat (map block_chunks (remove1 (t, n, z) bs))) =
      mset [0..<chunk_max s]"
    using mset_concat_remove1 [OF b, of block_chunks] inv
    by (simp add: mset_put_back heap_inv_def ac_simps)
  moreover have "totalAllocated s - z = sum_list (map block_size (remove1 (t, n, z) bs))"
    using sum_list_map_remove1 [OF b, of block_size] inv by (simp add: heap_inv_def)
  ultimately have "heap_inv ?s (put_back fs t n) (remove1 (t, n, z) bs)"
    using inv by (simp add: heap_inv_def)
  with run that [of ?s] show ?thesis by simp
qed

lemma kfree_no_lock_live:
  assumes inv: "heap_inv s fs bs" and ok: "pool_ok s" and b: "(t, n, z) \<in> set bs"
  obtains s' where "kfree_no_lock (data_addr s (CPool t)) s = Some s'"
    "heap_inv s' (put_back fs t n) (remove1 (t, n, z) bs)"
    "chunk_max s' = chunk_max s" "pool s' = pool s" "klock s' = klock s"
proof -
  note t = heap_inv_block_bounds(3) [OF inv b]
  have "kfree_no_lock (data_addr s (CPool t)) s = relink_chunk t s"
    using data_addr_nonzero [OF ok t] header_addr [OF ok t]
    by (simp add: kfree_no_lock_def relink_def del: data_addr.simps)
  with relink_live_block [OF inv b] that show ?thesis by metis
qed

text \<open>
  Freeing a chunk that is already free: the walk stops before it, so \<open>prev == top\<close> is false; the
  zero count makes the loop do nothing and the links are written back as they were. Only the
  running total changes.
\<close>

lemma relink_free_chunk:
  assumes inv: "heap_inv s fs bs" and t: "t \<in> set fs"
  shows "relink_chunk t s =
    Some (s\<lparr>totalAllocated := totalAllocated s - i_size (mem s (CPool t))\<rparr>)"
proof -
  note parts = heap_inv_parts [OF inv]
  obtain xs ys where fs: "fs = xs @ t # ys" using t by (meson split_list)
  let ?s = "s\<lparr>totalAllocated := totalAllocated s - i_size (mem s (CPool t))\<rparr>"
  have fl: "free_list ?s (xs @ t # ys)" using parts(1) fs by (simp add: free_list_def)
  define p where "p = left_end xs"
  have lt: "\<forall>i \<in> set xs. i < t" "\<forall>i \<in> set (t # ys). t \<le> i"
    using parts(2) fs by (auto simp: sorted_wrt_append)
  have fp: "find_prev ?s t CHead = Some p"
    unfolding p_def by (rule find_prev_free_list [OF fl lt])
  have nx: "i_next (mem s p) = CPool t" "i_prev (mem s (CPool t)) = p"
    using parts(1) fs links_chain_split [of "mem s" xs "t # ys"]
    by (simp_all add: free_list_def p_def)
  have z: "i_count (mem s (CPool t)) = 0" "t < chunk_max s"
    using parts(1) t by (auto simp: free_list_def)
  have v: "valid s p" unfolding p_def
    by (rule left_end_valid) (use parts(1) fs in \<open>auto simp: free_list_def\<close>)
  have "p \<noteq> CPool t" using left_end_cases [of xs] lt(1) unfolding p_def by auto
  have "(mem s p)\<lparr>i_next := CPool t\<rparr> = mem s p"
    "(mem s (CPool t))\<lparr>i_prev := p\<rparr> = mem s (CPool t)"
    using nx by (metis info.surjective info.update_convs(1,2))+
  then have "(mem s)(p := (mem s p)\<lparr>i_next := CPool t\<rparr>,
      CPool t := (mem s (CPool t))\<lparr>i_prev := p\<rparr>) = mem s"
    by (simp only: fun_upd_triv)
  moreover have "?s\<lparr>mem := mem s\<rparr> = ?s" by (rule kheap.equality) simp_all
  ultimately show ?thesis
    using \<open>p \<noteq> CPool t\<close> fp nx z v by (simp add: relink_chunk_def Let_def)
qed

end
