(* ===== verification/Kmalloc_API.thy ===== *)
theory Kmalloc_API
  imports Kmalloc_Ops
begin

text \<open>
  The allocator as its callers see it: the contract of an allocator as a locale, with the one
  lemma its clients need (any sequence of requests runs to the end and keeps the live blocks
  apart), discharged by \<open>kmalloc_no_lock\<close> and \<open>kfree_no_lock\<close> and again by the locked \<open>kmalloc\<close>
  and \<open>kfree\<close>; then the properties of the C functions.
\<close>

section \<open>The contract\<close>

datatype alloc_op = Alloc u64 | Free nat

text \<open>A client that keeps the pointers it got and frees the \<open>i\<close>-th one it still has.\<close>

fun client_run ::
    "(u64 \<Rightarrow> 's \<Rightarrow> (u64 \<times> 's) outcome) \<Rightarrow> (u64 \<Rightarrow> 's \<Rightarrow> 's outcome) \<Rightarrow>
     alloc_op list \<Rightarrow> u64 list \<Rightarrow> 's \<Rightarrow> (u64 list \<times> 's) outcome" where
  "client_run alloc free [] ps s = Done (ps, s)"
| "client_run alloc free (Alloc z # ops) ps s =
     and_then (alloc z s) (\<lambda>(p, s).
       client_run alloc free ops (if p = 0 then ps else p # ps) s)"
| "client_run alloc free (Free i # ops) ps s =
     (if i < length ps
      then and_then (free (ps ! i) s) (\<lambda>s.
        client_run alloc free ops (take i ps @ drop (Suc i) ps) s)
      else client_run alloc free ops ps s)"

fun request_ok :: "(u64 \<Rightarrow> bool) \<Rightarrow> alloc_op \<Rightarrow> bool" where
  "request_ok fits (Alloc z) = fits z"
| "request_ok fits (Free i) = True"

locale allocator =
  fixes alloc :: "u64 \<Rightarrow> 's \<Rightarrow> (u64 \<times> 's) outcome"
    and free :: "u64 \<Rightarrow> 's \<Rightarrow> 's outcome"
    and inv :: "'s \<Rightarrow> block list \<Rightarrow> bool"
    and addr :: "'s \<Rightarrow> block \<Rightarrow> u64"
    and fits :: "u64 \<Rightarrow> bool"
  assumes alloc_law: "inv s bs \<Longrightarrow> fits z \<Longrightarrow>
      (\<exists>s'. alloc z s = Done (0, s') \<and> inv s' bs \<and> addr s' = addr s) \<or>
      (\<exists>s' b. alloc z s = Done (addr s b, s') \<and> inv s' (b # bs) \<and> addr s b \<noteq> 0 \<and>
        block_size b = z \<and> addr s' = addr s)"
    and free_law: "inv s bs \<Longrightarrow> i < length bs \<Longrightarrow>
      \<exists>s'. free (addr s (bs ! i)) s = Done s' \<and> inv s' (take i bs @ drop (Suc i) bs) \<and> addr s' = addr s"
    and apart: "inv s bs \<Longrightarrow> i < length bs \<Longrightarrow> j < length bs \<Longrightarrow> i \<noteq> j \<Longrightarrow>
      set (block_chunks (bs ! i)) \<inter> set (block_chunks (bs ! j)) = {}"
begin

lemma client_runs:
  assumes "inv s bs" and "ps = map (addr s) bs" and "\<forall>r \<in> set ops. request_ok fits r"
  shows "\<exists>bs' s'. client_run alloc free ops ps s = Done (map (addr s') bs', s') \<and> inv s' bs'"
  using assms
proof (induction ops arbitrary: s bs ps)
  case Nil
  then show ?case by auto
next
  case (Cons r ops)
  show ?case
  proof (cases r)
    case (Alloc z)
    then have "fits z" using Cons.prems(3) by simp
    from alloc_law [OF Cons.prems(1) this] show ?thesis
    proof (elim disjE exE conjE)
      fix s' assume a: "alloc z s = Done (0, s')" "inv s' bs" "addr s' = addr s"
      have "\<exists>bs' t. client_run alloc free ops ps s' = Done (map (addr t) bs', t) \<and> inv t bs'"
        by (rule Cons.IH [OF a(2)]) (use Cons.prems a in simp_all)
      with Alloc a show ?thesis by simp
    next
      fix s' b assume a: "alloc z s = Done (addr s b, s')" "inv s' (b # bs)"
        "addr s b \<noteq> 0" "addr s' = addr s"
      have "\<exists>bs' t. client_run alloc free ops (addr s b # ps) s' = Done (map (addr t) bs', t) \<and> inv t bs'"
        by (rule Cons.IH [OF a(2)]) (use Cons.prems a in simp_all)
      with Alloc a show ?thesis by simp
    qed
  next
    case (Free i)
    show ?thesis
    proof (cases "i < length bs")
      case True
      from free_law [OF Cons.prems(1) True] obtain s' where
        f: "free (addr s (bs ! i)) s = Done s'" "inv s' (take i bs @ drop (Suc i) bs)" "addr s' = addr s"
        by blast
      have "\<exists>bs' t. client_run alloc free ops (take i ps @ drop (Suc i) ps) s' =
          Done (map (addr t) bs', t) \<and> inv t bs'"
        by (rule Cons.IH [OF f(2)]) (use Cons.prems f in \<open>simp_all add: take_map drop_map\<close>)
      with Free True f Cons.prems(2) show ?thesis by simp
    next
      case False
      have "\<exists>bs' t. client_run alloc free ops ps s = Done (map (addr t) bs', t) \<and> inv t bs'"
        by (rule Cons.IH [OF Cons.prems(1,2)]) (use Cons.prems(3) in simp)
      with Free False Cons.prems(2) show ?thesis by simp
    qed
  qed
qed

end

section \<open>The unlocked functions\<close>

fun block_addr :: "kheap \<Rightarrow> block \<Rightarrow> u64" where
  "block_addr s (t, n, z) = data_addr s (CPool t)"

lemma block_addr_pool: "pool s' = pool s \<Longrightarrow> block_addr s' = block_addr s"
  by (rule ext) (auto simp: fun_eq_iff)

text \<open>The sizes for which the counting loop ends.\<close>

definition countable_size :: "u64 \<Rightarrow> bool" where
  "countable_size sz \<longleftrightarrow> unat (sz + info_size) \<le> 2 ^ 64 - 32"

definition unlocked_inv :: "kheap \<Rightarrow> block list \<Rightarrow> bool" where
  "unlocked_inv s bs \<longleftrightarrow> (\<exists>fs. heap_state s fs bs) \<and> pool_ok s"

lemma heap_inv_mset:
  assumes "heap_inv s fs bs" and eq: "mset bs = mset bs'"
  shows "heap_inv s fs bs'"
proof -
  have "mset (concat (map block_chunks bs)) = mset (concat (map block_chunks bs'))"
    using arg_cong [OF eq, of "\<lambda>m. \<Sum>\<^sub># (image_mset (\<lambda>b. mset (block_chunks b)) m)"]
    by (simp add: mset_concat mset_map [symmetric] sum_mset_sum_list comp_def del: mset_map)
  moreover have "sum_list (map block_size bs) = sum_list (map block_size bs')"
    using eq by (metis mset_map sum_mset_sum_list)
  moreover have "set bs = set bs'" using eq by (rule mset_eq_setD)
  ultimately show ?thesis using assms(1) by (simp add: heap_inv_def)
qed

lemma mset_remove_nth:
  "i < length bs \<Longrightarrow> mset (remove1 (bs ! i) bs) = mset (take i bs @ drop (Suc i) bs)"
proof -
  assume i: "i < length bs"
  have "mset bs = mset (take i bs @ bs ! i # drop (Suc i) bs)"
    using id_take_nth_drop [OF i] by simp
  then show ?thesis using i by simp
qed

lemma heap_state_initialized: "heap_state s fs bs \<Longrightarrow> bs \<noteq> [] \<Longrightarrow> heap_inv s fs bs"
  by (auto simp: heap_state_def split: if_splits)

lemma heap_state_apart:
  assumes "heap_state s fs bs" and "i < length bs" "j < length bs" "i \<noteq> j"
  shows "set (block_chunks (bs ! i)) \<inter> set (block_chunks (bs ! j)) = {}"
proof -
  have "heap_inv s fs bs" using assms by (intro heap_state_initialized) auto
  then have "distinct (fs @ concat (map block_chunks bs))" by (rule heap_inv_parts(3))
  then have "distinct (concat (map block_chunks bs))" by (simp only: distinct_append)
  then show ?thesis using assms(2-4) by (rule distinct_concat_pair)
qed

lemma kmalloc_no_lock_law:
  assumes inv: "unlocked_inv s bs" and sz: "countable_size sz"
  shows "(\<exists>s'. kmalloc_no_lock sz s = Some (0, s') \<and> unlocked_inv s' bs \<and>
      pool s' = pool s \<and> klock s' = klock s) \<or>
    (\<exists>s' b. kmalloc_no_lock sz s = Some (block_addr s b, s') \<and> unlocked_inv s' (b # bs) \<and>
      block_addr s b \<noteq> 0 \<and> block_size b = sz \<and> pool s' = pool s \<and> klock s' = klock s)"
proof -
  obtain fs where st: "heap_state s fs bs" and ok: "pool_ok s"
    using inv by (auto simp: unlocked_inv_def)
  have n: "chunk_count sz = Some (chunks_for sz)"
    using sz by (simp add: countable_size_def chunk_count_ends)
  show ?thesis
  proof (cases "first_fit (chunks_for sz) 0 (hd fs) fs")
    case None
    from kmalloc_no_lock_none [OF st n None] obtain s' where
      "kmalloc_no_lock sz s = Some (0, s')" "heap_inv s' fs bs"
      "chunk_max s' = chunk_max s" "pool s' = pool s" "klock s' = klock s" .
    moreover from this ok have "unlocked_inv s' bs"
      by (auto simp: unlocked_inv_def pool_ok_def intro: heap_inv_state)
    ultimately show ?thesis by blast
  next
    case (Some t)
    from kmalloc_no_lock_fit [OF st n Some] obtain s' xs ys where
      r: "kmalloc_no_lock sz s = Some (data_addr s (CPool t), s')"
      "heap_inv s' (xs @ ys) ((t, chunks_for sz, sz) # bs)"
      "chunk_max s' = chunk_max s" "pool s' = pool s" "klock s' = klock s" .
    then have "unlocked_inv s' ((t, chunks_for sz, sz) # bs)"
      using ok by (auto simp: unlocked_inv_def pool_ok_def intro: heap_inv_state)
    moreover have "data_addr s (CPool t) \<noteq> 0"
      using heap_inv_block_bounds(3) [OF r(2), of t] r(3) ok by (intro data_addr_nonzero) auto
    ultimately show ?thesis
      using r by (intro disjI2 exI [of _ s'] exI [of _ "(t, chunks_for sz, sz)"]) simp
  qed
qed

lemma kfree_no_lock_law:
  assumes inv: "unlocked_inv s bs" and i: "i < length bs"
  shows "\<exists>s'. kfree_no_lock (block_addr s (bs ! i)) s = Some s' \<and>
    unlocked_inv s' (take i bs @ drop (Suc i) bs) \<and> pool s' = pool s \<and> klock s' = klock s"
proof -
  obtain fs where st: "heap_state s fs bs" and ok: "pool_ok s"
    using inv by (auto simp: unlocked_inv_def)
  have h: "heap_inv s fs bs" using st i by (intro heap_state_initialized) auto
  obtain t n z where b: "bs ! i = (t, n, z)" by (cases "bs ! i")
  then have mem: "(t, n, z) \<in> set bs" using i by (metis nth_mem)
  from kfree_no_lock_live [OF h ok mem] obtain s' where
    r: "kfree_no_lock (data_addr s (CPool t)) s = Some s'"
    "heap_inv s' (put_back fs t n) (remove1 (t, n, z) bs)"
    "chunk_max s' = chunk_max s" "pool s' = pool s" "klock s' = klock s" .
  have "heap_inv s' (put_back fs t n) (take i bs @ drop (Suc i) bs)"
    using heap_inv_mset [OF r(2)] mset_remove_nth [OF i] b by simp
  then have "unlocked_inv s' (take i bs @ drop (Suc i) bs)"
    using ok r by (auto simp: unlocked_inv_def pool_ok_def intro: heap_inv_state)
  with r b show ?thesis by auto
qed

interpretation nolock: allocator
  "\<lambda>z s. of_option (kmalloc_no_lock z s)" "\<lambda>p s. of_option (kfree_no_lock p s)"
  unlocked_inv block_addr countable_size
proof
  fix s bs z assume "unlocked_inv s bs" "countable_size z"
  from kmalloc_no_lock_law [OF this] show
    "(\<exists>s'. of_option (kmalloc_no_lock z s) = Done (0, s') \<and> unlocked_inv s' bs \<and> block_addr s' = block_addr s) \<or>
     (\<exists>s' b. of_option (kmalloc_no_lock z s) = Done (block_addr s b, s') \<and> unlocked_inv s' (b # bs) \<and>
        block_addr s b \<noteq> 0 \<and> block_size b = z \<and> block_addr s' = block_addr s)"
    unfolding of_option_Done_iff by (metis block_addr_pool)
next
  fix s bs i assume "unlocked_inv s bs" "i < length bs"
  from kfree_no_lock_law [OF this] show
    "\<exists>s'. of_option (kfree_no_lock (block_addr s (bs ! i)) s) = Done s' \<and>
      unlocked_inv s' (take i bs @ drop (Suc i) bs) \<and> block_addr s' = block_addr s"
    unfolding of_option_Done_iff by (metis block_addr_pool)
next
  fix s bs and i j :: nat
  assume "unlocked_inv s bs" "i < length bs" "j < length bs" "i \<noteq> j"
  then show "set (block_chunks (bs ! i)) \<inter> set (block_chunks (bs ! j)) = {}"
    using heap_state_apart unfolding unlocked_inv_def by blast
qed

section \<open>The locked functions\<close>

definition heap_ready :: "kheap \<Rightarrow> nat list \<Rightarrow> block list \<Rightarrow> bool" where
  "heap_ready s fs bs \<longleftrightarrow> heap_state s fs bs \<and> pool_ok s \<and> sem_value (klock s) = 1"

definition locked_inv :: "kheap \<Rightarrow> block list \<Rightarrow> bool" where
  "locked_inv s bs \<longleftrightarrow> (\<exists>fs. heap_ready s fs bs)"

abbreviation with_lock :: "sync_bin_sem \<Rightarrow> kheap \<Rightarrow> kheap" where
  "with_lock l s \<equiv> s\<lparr>klock := l\<rparr>"

lemma lock_valid [simp]: "valid (with_lock l s) r = valid s r"
  by (cases r) auto

text \<open>The mutex is no part of the allocator's own invariant.\<close>

lemma heap_inv_lock [simp]: "heap_inv (with_lock l s) fs bs = heap_inv s fs bs"
  and heap_state_lock [simp]: "heap_state (with_lock l s) fs bs = heap_state s fs bs"
  and pool_ok_lock [simp]: "pool_ok (with_lock l s) = pool_ok s"
  and unlocked_inv_lock [simp]: "unlocked_inv (with_lock l s) bs = unlocked_inv s bs"
  by (simp_all add: unlocked_inv_def heap_state_def heap_inv_def free_list_def pool_ok_def)

lemma locked_inv_iff: "locked_inv s bs \<longleftrightarrow> unlocked_inv s bs \<and> sem_value (klock s) = 1"
  by (auto simp: locked_inv_def heap_ready_def unlocked_inv_def)

definition held :: "sync_bin_sem \<Rightarrow> sync_bin_sem" where
  "held l = l\<lparr>sem_value := 0\<rparr>"

lemma lock_heap_free:
  "sem_value (klock s) = 1 \<Longrightarrow> lock_heap s = Done (with_lock (held (klock s)) s)"
  by (simp add: lock_heap_def mutex_lock_free held_def)

lemma lock_heap_held: "sem_value (klock s) = 0 \<Longrightarrow> lock_heap s = Blocked"
  by (simp add: lock_heap_def mutex_lock_held INT_MIN_def)

lemma unlock_heap_held:
  assumes "klock s' = held l" and "sem_value l = 1"
  shows "unlock_heap s' = with_lock l s'"
proof -
  have "(held l)\<lparr>sem_value := 1\<rparr> = l" using assms(2) by (cases l) (simp add: held_def)
  with assms show ?thesis by (simp add: unlock_heap_def mutex_unlock_uncontended held_def)
qed

lemma kmalloc_locked:
  assumes "sem_value (klock s) = 1"
    and "kmalloc_no_lock sz (with_lock (held (klock s)) s) = Some (r, s')"
    and "klock s' = held (klock s)"
  shows "kmalloc sz s = Done (r, with_lock (klock s) s')"
  using assms by (simp add: kmalloc_def lock_heap_free unlock_heap_held)

lemma kfree_locked:
  assumes "sem_value (klock s) = 1"
    and "kfree_no_lock p (with_lock (held (klock s)) s) = Some s'"
    and "klock s' = held (klock s)"
  shows "kfree p s = Done (with_lock (klock s) s')"
  using assms by (simp add: kfree_def lock_heap_free unlock_heap_held)

lemma block_addr_lock [simp]: "block_addr (with_lock l s) = block_addr s"
  by (rule block_addr_pool) simp

interpretation locked: allocator kmalloc kfree locked_inv block_addr countable_size
proof
  fix s bs z assume inv: "locked_inv s bs" and sz: "countable_size z"
  let ?s = "with_lock (held (klock s)) s"
  have u: "unlocked_inv ?s bs" and v: "sem_value (klock s) = 1"
    using inv by (auto simp: locked_inv_iff)
  show "(\<exists>s'. kmalloc z s = Done (0, s') \<and> locked_inv s' bs \<and> block_addr s' = block_addr s) \<or>
     (\<exists>s' b. kmalloc z s = Done (block_addr s b, s') \<and> locked_inv s' (b # bs) \<and>
        block_addr s b \<noteq> 0 \<and> block_size b = z \<and> block_addr s' = block_addr s)"
    using kmalloc_no_lock_law [OF u sz]
  proof (elim disjE exE conjE)
    fix s' assume r: "kmalloc_no_lock z ?s = Some (0, s')" "unlocked_inv s' bs"
      "pool s' = pool ?s" "klock s' = klock ?s"
    then have "kmalloc z s = Done (0, with_lock (klock s) s')" by (intro kmalloc_locked v) simp_all
    moreover have "block_addr s' = block_addr s" using r by (intro block_addr_pool) simp
    ultimately show ?thesis using r v by (intro disjI1 exI) (auto simp: locked_inv_iff)
  next
    fix s' b assume r: "kmalloc_no_lock z ?s = Some (block_addr ?s b, s')" "unlocked_inv s' (b # bs)"
      "block_addr ?s b \<noteq> 0" "block_size b = z" "pool s' = pool ?s" "klock s' = klock ?s"
    then have "kmalloc z s = Done (block_addr s b, with_lock (klock s) s')"
      by (intro kmalloc_locked v) simp_all
    moreover have "block_addr s' = block_addr s" using r by (intro block_addr_pool) simp
    ultimately show ?thesis using r v by (intro disjI2 exI [of _ "with_lock (klock s) s'"] exI [of _ b]) (auto simp: locked_inv_iff)
  qed
next
  fix s bs i assume inv: "locked_inv s bs" and i: "i < length bs"
  let ?s = "with_lock (held (klock s)) s"
  have u: "unlocked_inv ?s bs" and v: "sem_value (klock s) = 1"
    using inv by (auto simp: locked_inv_iff)
  from kfree_no_lock_law [OF u i] obtain s' where
    r: "kfree_no_lock (block_addr ?s (bs ! i)) ?s = Some s'"
    "unlocked_inv s' (take i bs @ drop (Suc i) bs)" "pool s' = pool ?s" "klock s' = klock ?s" by blast
  then have "kfree (block_addr s (bs ! i)) s = Done (with_lock (klock s) s')"
    by (intro kfree_locked v) simp_all
  moreover have "block_addr s' = block_addr s" using r by (intro block_addr_pool) simp
  ultimately show "\<exists>s'. kfree (block_addr s (bs ! i)) s = Done s' \<and>
      locked_inv s' (take i bs @ drop (Suc i) bs) \<and> block_addr s' = block_addr s"
    using r v by (intro exI) (auto simp: locked_inv_iff)
next
  fix s bs and i j :: nat
  assume "locked_inv s bs" "i < length bs" "j < length bs" "i \<noteq> j"
  then show "set (block_chunks (bs ! i)) \<inter> set (block_chunks (bs ! j)) = {}"
    using heap_state_apart unfolding locked_inv_def heap_ready_def by blast
qed

end
