(* ===== verification/Kmalloc_Props.thy ===== *)
theory Kmalloc_Props
  imports Kmalloc_API
begin

text \<open>
  The properties of \<open>setMemoryPool\<close>, \<open>kmalloc\<close>, \<open>kfree\<close> and \<open>krealloc\<close>, each with a witness on a
  pool of four chunks.
\<close>

section \<open>A pool of four chunks\<close>

definition small_pool :: kheap where
  "small_pool = kheap_static\<lparr>pool := 4096, chunk_max := 4, hasMemoryPool := True,
     mutexNotif := 7, klock := \<lparr>notification = 7, sem_value = 1\<rparr>\<rparr>"

lemma small_pool_ready: "heap_ready small_pool [0, 1, 2, 3] []"
  by (simp add: heap_ready_def heap_state_def small_pool_def kheap_static_def pool_ok_def
      upt_rec)

definition pool16 :: kheap where
  "pool16 = small_pool\<lparr>chunk_max := 16\<rparr>"

lemma pool16_ready: "heap_ready pool16 [0..<16] []"
  by (simp add: pool16_def heap_ready_def heap_state_def small_pool_def kheap_static_def pool_ok_def)

lemma setMemoryPool_small: "setMemoryPool 4096 128 7 kheap_static = Done small_pool"
  by (simp add: setMemoryPool_def small_pool_def kheap_static_def sync_mutex_init_def
      sync_bin_sem_init_def chunk_size_def)

section \<open>Helpers\<close>

lemma countable_small: "unat sz < 2 ^ 64 - 64 \<Longrightarrow> countable_size sz"
  and unat_small: "unat sz < 2 ^ 64 - 64 \<Longrightarrow> unat (sz + info_size) = unat sz + 32"
  using unat_add_chunk [of sz] by (simp_all add: countable_size_def info_size_def chunk_size_def)

lemma chunks_for_small:
  assumes "unat sz < 2 ^ 64 - 64"
  shows "unat sz + 32 \<le> 32 * chunks_for sz" "32 * chunks_for sz < unat sz + 64"
    "0 < chunks_for sz"
  using unat_small [OF assms] by (simp_all add: chunks_for_def)

lemma remove_run:
  assumes "distinct (xs @ [t..<t + n] @ ys)"
  shows "filter (\<lambda>i. i \<notin> {t..<t + n}) (xs @ [t..<t + n] @ ys) = xs @ ys"
proof -
  have "\<forall>i \<in> set xs \<union> set ys. i \<notin> {t..<t + n}" using assms by auto
  then show ?thesis by (auto simp: filter_id_conv filter_empty_conv)
qed

lemma heap_state_parts:
  assumes "heap_state s fs bs"
  shows "sorted_wrt (<) fs" "distinct fs" "\<forall>t \<in> set fs. t < chunk_max s"
proof -
  show "sorted_wrt (<) fs"
    using assms heap_inv_parts(2) by (cases "initialized s") (auto simp: heap_state_def strict_sorted_iff)
  then show "distinct fs" by (simp add: strict_sorted_iff)
  show "\<forall>t \<in> set fs. t < chunk_max s"
    using assms heap_inv_parts(1) by (cases "initialized s") (auto simp: heap_state_def free_list_def)
qed

text \<open>The locked allocation, from the search on the free list.\<close>

lemma kmalloc_fit:
  assumes r: "heap_ready s fs bs" and n: "chunk_count sz = Some n"
    and fit: "first_fit n 0 (hd fs) fs = Some t"
  shows "\<exists>s'. kmalloc sz s = Done (data_addr s (CPool t), s') \<and>
     heap_ready s' (filter (\<lambda>i. i \<notin> {t..<t + n}) fs) ((t, n, sz) # bs) \<and>
     free_run fs n t \<and> 0 < n \<and> pool s' = pool s \<and> chunk_max s' = chunk_max s"
proof -
  let ?s = "with_lock (held (klock s)) s"
  have st: "heap_state ?s fs bs" and v: "sem_value (klock s) = 1" and ok: "pool_ok s"
    using r by (simp_all add: heap_ready_def)
  from kmalloc_no_lock_fit [OF st n fit] obtain s' xs ys where
    k: "kmalloc_no_lock sz ?s = Some (data_addr ?s (CPool t), s')"
    "fs = xs @ [t..<t + n] @ ys" "0 < n" "heap_inv s' (xs @ ys) ((t, n, sz) # bs)"
    "chunk_max s' = chunk_max ?s" "pool s' = pool ?s" "klock s' = klock ?s" .
  have "kmalloc sz s = Done (data_addr s (CPool t), with_lock (klock s) s')"
    using k by (intro kmalloc_locked v) simp_all
  moreover have "filter (\<lambda>i. i \<notin> {t..<t + n}) fs = xs @ ys"
    using heap_state_parts(2) [OF st] unfolding k(2) by (rule remove_run)
  moreover have "free_run fs n t" using k(2) by (auto simp: free_run_def)
  ultimately show ?thesis
    using k v ok by (intro exI [of _ "with_lock (klock s) s'"])
      (auto simp: heap_ready_def pool_ok_def intro!: heap_inv_state)
qed

text \<open>A free list without gaps gives its first chunks.\<close>

lemma first_fit_upt: "k < n \<Longrightarrow> u + (n - k) \<le> m \<Longrightarrow> first_fit n k t [u..<m] = Some t"
proof (induction "n - k" arbitrary: k u)
  case (Suc d)
  then have "u < m" by simp
  then have u: "[u..<m] = u # [Suc u..<m]" by (rule upt_conv_Cons)
  show ?case
  proof (cases "k + 1 = n")
    case False
    with Suc have k: "d = n - (k + 1)" "k + 1 < n" "Suc u + (n - (k + 1)) \<le> m" by auto
    then have "[Suc u..<m] = Suc u # [Suc (Suc u)..<m]" by (intro upt_conv_Cons) simp
    then show ?thesis using Suc.hyps(1) [OF k] False u by simp
  qed (simp add: u)
qed simp

lemma kmalloc_front:
  assumes r: "heap_ready s [t..<m] bs" and z: "countable_size z" and c: "chunks_for z = n" "t + n = u"
    and m: "0 < n" "u \<le> m"
  obtains s' where "kmalloc z s = Done (data_addr s (CPool t), s')"
    "heap_ready s' [u..<m] ((t, n, z) # bs)" "pool s' = pool s"
proof -
  have n: "chunk_count z = Some n" using z c by (simp add: countable_size_def chunk_count_ends)
  have "hd [t..<m] = t" using m c by simp
  then have fit: "first_fit n 0 (hd [t..<m]) [t..<m] = Some t" using first_fit_upt [of 0 n t m t] m c by simp
  have "[t..<m] = [t..<t + n] @ [u..<m]"
    using m c by (metis le_add1 le_Suc_ex upt_add_eq_append)
  then have "filter (\<lambda>i. i \<notin> {t..<t + n}) [t..<m] = [u..<m]" using c by simp
  with kmalloc_fit [OF r n fit] that show ?thesis by metis
qed

lemma kmalloc_no_fit:
  assumes r: "heap_ready s fs bs" and n: "chunk_count sz = Some n"
    and fit: "first_fit n 0 (hd fs) fs = None"
  shows "\<exists>s'. kmalloc sz s = Done (0, s') \<and> heap_ready s' fs bs"
proof -
  let ?s = "with_lock (held (klock s)) s"
  have st: "heap_state ?s fs bs" and v: "sem_value (klock s) = 1" and ok: "pool_ok s"
    using r by (simp_all add: heap_ready_def)
  from kmalloc_no_lock_none [OF st n fit] obtain s' where
    k: "kmalloc_no_lock sz ?s = Some (0, s')" "heap_inv s' fs bs"
    "chunk_max s' = chunk_max ?s" "pool s' = pool ?s" "klock s' = klock ?s" .
  then have "kmalloc sz s = Done (0, with_lock (klock s) s')" by (intro kmalloc_locked v) simp_all
  then show ?thesis
    using k v ok by (intro exI [of _ "with_lock (klock s) s'"])
      (auto simp: heap_ready_def pool_ok_def intro!: heap_inv_state)
qed

lemma first_fit_cases:
  assumes "sorted_wrt (<) fs" and "0 < n"
  shows "first_fit n 0 (hd fs) fs = None \<longleftrightarrow> (\<forall>u. \<not> free_run fs n u)"
    and "first_fit n 0 (hd fs) fs = Some t \<Longrightarrow> free_run fs n u \<Longrightarrow> t \<le> u"
proof -
  show "first_fit n 0 (hd fs) fs = None \<longleftrightarrow> (\<forall>u. \<not> free_run fs n u)"
  proof
    assume "first_fit n 0 (hd fs) fs = None"
    then show "\<forall>u. \<not> free_run fs n u" using first_fit_complete [OF assms] by fastforce
  next
    assume none: "\<forall>u. \<not> free_run fs n u"
    show "first_fit n 0 (hd fs) fs = None"
    proof (rule ccontr)
      assume "first_fit n 0 (hd fs) fs \<noteq> None"
      then obtain v where "first_fit n 0 (hd fs) fs = Some v" by blast
      from first_fit_Some [OF this assms(1)] obtain xs ys where "fs = xs @ [v..<v + n] @ ys" .
      then have "free_run fs n v" by (auto simp: free_run_def)
      with none show False by blast
    qed
  qed
  show "first_fit n 0 (hd fs) fs = Some t \<Longrightarrow> free_run fs n u \<Longrightarrow> t \<le> u"
    using first_fit_complete [OF assms] by fastforce
qed

lemma kfree_live_block:
  assumes r: "heap_ready s fs bs" and b: "(t, n, z) \<in> set bs"
  shows "\<exists>s'. kfree (data_addr s (CPool t)) s = Done s' \<and>
    heap_ready s' (put_back fs t n) (remove1 (t, n, z) bs)"
proof -
  let ?s = "with_lock (held (klock s)) s"
  have v: "sem_value (klock s) = 1" and ok: "pool_ok s" and "heap_state s fs bs"
    using r by (simp_all add: heap_ready_def)
  then have inv: "heap_inv ?s fs bs" and ok': "pool_ok ?s"
    using heap_state_initialized [of s fs bs] b by (cases bs; auto)+
  from kfree_no_lock_live [OF inv ok' b] obtain s' where
    k: "kfree_no_lock (data_addr ?s (CPool t)) ?s = Some s'"
    "heap_inv s' (put_back fs t n) (remove1 (t, n, z) bs)"
    "chunk_max s' = chunk_max ?s" "pool s' = pool ?s" "klock s' = klock ?s" .
  then have "kfree (data_addr s (CPool t)) s = Done (with_lock (klock s) s')"
    by (intro kfree_locked v) simp_all
  then show ?thesis
    using k v ok by (intro exI [of _ "with_lock (klock s) s'"])
      (auto simp: heap_ready_def pool_ok_def intro!: heap_inv_state)
qed

lemma put_back_removed:
  assumes "sorted_wrt (<) fs" and "free_run fs n t"
  shows "put_back (filter (\<lambda>i. i \<notin> {t..<t + n}) fs) t n = fs"
proof -
  have "set (put_back (filter (\<lambda>i. i \<notin> {t..<t + n}) fs) t n) = set fs"
    using assms(2) by (auto simp: put_back_def free_run_def)
  moreover have "sorted_wrt (<) (put_back (filter (\<lambda>i. i \<notin> {t..<t + n}) fs) t n)"
    by (rule put_back_sorted) (use assms(1) in \<open>auto intro: sorted_wrt_filter\<close>)
  ultimately show ?thesis using assms(1) by (metis strict_sorted_equal)
qed

text \<open>The small pool with one block of two chunks taken.\<close>

lemma small_pool_taken:
  "\<exists>s. kmalloc 20 small_pool = Done (4128, s) \<and> heap_ready s [2, 3] [(0, 2, 20)] \<and>
     pool s = 4096 \<and> chunk_max s = 4"
proof -
  have n: "chunk_count 20 = Some 2"
    using chunk_count_ends [of 20] by (simp add: chunks_for_def info_size_def)
  have fit: "first_fit 2 0 (hd [0, 1, 2, 3]) [0, 1, 2, 3] = Some 0" by simp
  show ?thesis
    using kmalloc_fit [OF small_pool_ready n fit]
    by (auto simp: small_pool_def chunk_size_def info_size_def)
qed

lemma heap_ready_lock_held:
  assumes "heap_ready s fs bs"
  shows "lock_heap s = Done (with_lock (held (klock s)) s)"
  using assms by (simp add: heap_ready_def lock_heap_free)

lemma kmalloc_no_lock_endless:
  assumes "heap_state s fs bs" and "chunk_count sz = None"
  shows "kmalloc_no_lock sz s = None"
proof -
  obtain s0 where "(if initialized s then Some s else init_pool s) = Some s0"
    using kmalloc_init_step [OF assms(1)] by metis
  with assms(2) show ?thesis by (simp add: kmalloc_no_lock_def)
qed

lemma krealloc_live:
  assumes "heap_ready s fs bs" and "(t, n, z) \<in> set bs" and "z \<le> sz"
  shows "krealloc copy (data_addr s (CPool t)) sz s = Blocked"
proof -
  let ?s = "with_lock (held (klock s)) s"
  have ok: "pool_ok s" and "heap_state s fs bs" using assms(1) by (simp_all add: heap_ready_def)
  then have inv: "heap_inv s fs bs" by (intro heap_state_initialized) (use assms(2) in auto)
  note t = heap_inv_block_bounds(3) [OF inv assms(2)]
  have hdr: "i_size (mem s (CPool t)) = z"
    using inv assms(2) by (auto simp: heap_inv_def block_ok_def)
  have "kmalloc sz ?s = Blocked" by (simp add: kmalloc_def lock_heap_held held_def)
  then show ?thesis
    using heap_ready_lock_held [OF assms(1)] data_addr_nonzero [OF ok t] header_addr [of ?s t]
      ok t hdr assms(3)
    by (simp add: krealloc_def Let_def)
qed

lemma setMemoryPool_heap:
  assumes "0 < unat start" and "unat start + unat sz < 2 ^ 64"
  shows "\<exists>s. setMemoryPool start sz ntfn kheap_static = Done s \<and>
    heap_ready s [0..<unat sz div 32] [] \<and> pool s = start"
proof -
  have "unat (sz div chunk_size) = unat sz div 32" by (simp add: unat_div chunk_size_def)
  moreover have "32 * (unat sz div 32) \<le> unat sz" by simp
  ultimately show ?thesis
    using assms by (simp add: setMemoryPool_def sync_mutex_init_def sync_bin_sem_init_def
        heap_ready_def heap_state_def pool_ok_def kheap_static_def)
qed

section \<open>Properties\<close>

text \<open>
  \<open>setMemoryPool\<close> on a region inside the address space makes the allocator ready: every
  whole 32-byte chunk of the region is free, nothing is live and the mutex is free.
\<close>

theorem setMemoryPool_ready:
  assumes "0 < unat start" and "unat start + unat sz < 2 ^ 64"
  shows "\<exists>s. setMemoryPool start sz ntfn kheap_static = Done s \<and>
    heap_ready s [0..<unat sz div 32] [] \<and> pool s = start"
  using assms by (rule setMemoryPool_heap)

theorem setMemoryPool_ready_witness:
  "\<exists>s. setMemoryPool 4096 128 7 kheap_static = Done s \<and>
    heap_ready s [0..<unat (128 :: u64) div 32] [] \<and> pool s = 4096"
  using setMemoryPool_ready [of 4096 128 7] by simp



text \<open>
  C10. \<open>kfree\<close> of the address of a live block returns, removes the block from the live ones and
  puts its chunks back at their place in the sorted free list; nothing else changes hands.
\<close>

theorem kfree_returns_block:
  assumes "heap_ready s fs bs" and "(t, n, z) \<in> set bs"
  shows "\<exists>s' fs'. kfree (data_addr s (CPool t)) s = Done s' \<and>
    heap_ready s' fs' (remove1 (t, n, z) bs) \<and> set fs' = set fs \<union> {t..<t + n} \<and> sorted_wrt (<) fs'"
proof -
  from kfree_live_block [OF assms] obtain s' where
    s': "kfree (data_addr s (CPool t)) s = Done s'"
    "heap_ready s' (put_back fs t n) (remove1 (t, n, z) bs)" by blast
  moreover have "set (put_back fs t n) = set fs \<union> {t..<t + n}" by (auto simp: put_back_def)
  moreover have "sorted_wrt (<) (put_back fs t n)"
    using s'(2) heap_state_parts(1) by (auto simp: heap_ready_def)
  ultimately show ?thesis by blast
qed

theorem kfree_returns_block_witness:
  "\<exists>s s' fs'. kfree (data_addr s (CPool 0)) s = Done s' \<and> heap_ready s' fs' [] \<and>
    set fs' = {0..<4}"
proof -
  obtain s where "heap_ready s [2, 3] [(0, 2, 20)]" using small_pool_taken by blast
  from kfree_returns_block [OF this, of 0 2 20] show ?thesis
    by (fastforce simp: numeral_eq_Suc)
qed

text \<open>
  C11. Allocating and freeing what was allocated restores the free list, the live blocks and,
  with them, the running total.
\<close>

theorem kmalloc_kfree_roundtrip:
  assumes "heap_ready s fs bs" and "unat sz < 2 ^ 64 - 64" and "kmalloc sz s = Done (p, s')" and "p \<noteq> 0"
  shows "\<exists>s''. kfree p s' = Done s'' \<and> heap_ready s'' fs bs"
proof -
  let ?n = "chunks_for sz"
  have count: "chunk_count sz = Some ?n"
    using countable_small [OF assms(2)] by (simp add: countable_size_def chunk_count_ends)
  have so: "sorted_wrt (<) fs" using assms(1) heap_state_parts(1) by (auto simp: heap_ready_def)
  show ?thesis
  proof (cases "first_fit ?n 0 (hd fs) fs")
    case None
    with kmalloc_no_fit [OF assms(1) count None] assms(3,4) show ?thesis by auto
  next
    case (Some t)
    from kmalloc_fit [OF assms(1) count Some] assms(3) have
      r: "heap_ready s' (filter (\<lambda>i. i \<notin> {t..<t + ?n}) fs) ((t, ?n, sz) # bs)"
      "p = data_addr s (CPool t)" "free_run fs ?n t" "pool s' = pool s" by auto
    from kfree_live_block [OF r(1), of t ?n sz] r(2,4) put_back_removed [OF so r(3)]
    show ?thesis by auto
  qed
qed

theorem kmalloc_kfree_roundtrip_witness:
  "\<exists>s' s''. kmalloc 20 small_pool = Done (4128, s') \<and> kfree 4128 s' = Done s'' \<and>
     heap_ready s'' [0, 1, 2, 3] []"
proof -
  obtain s' where s': "kmalloc 20 small_pool = Done (4128, s')" using small_pool_taken by blast
  show ?thesis using kmalloc_kfree_roundtrip [OF small_pool_ready _ s'] s' by auto
qed



text \<open>
  C37. \<open>chunk_count\<close> ends exactly for the sizes with \<open>size + 32 \<le> 2 ^ 64 - 32\<close> (in 64-bit
  arithmetic), and then returns the number of chunks that hold the wrapped sum. For the 31 sizes
  beyond, the running sum wraps past the bound for ever and \<open>kmalloc\<close> does not return, with the
  mutex held.
\<close>

theorem chunk_count_termination:
  "chunk_count sz = (if unat (sz + info_size) \<le> 2 ^ 64 - 32 then Some (chunks_for sz) else None) \<and>
   (2 ^ 64 - 32 < unat (sz + info_size) \<longrightarrow>
      (\<forall>s fs bs. heap_ready s fs bs \<longrightarrow> kmalloc sz s = Stuck))"
proof (intro conjI impI allI)
  show "chunk_count sz = (if unat (sz + info_size) \<le> 2 ^ 64 - 32 then Some (chunks_for sz) else None)"
    using chunk_count_ends [of sz] chunk_count_None [of sz] by auto
  fix s fs bs
  assume big: "2 ^ 64 - 32 < unat (sz + info_size)" and r: "heap_ready s fs bs"
  then have "kmalloc_no_lock sz (with_lock (held (klock s)) s) = None"
    by (intro kmalloc_no_lock_endless [of _ fs bs] chunk_count_None) (simp_all add: heap_ready_def)
  then show "kmalloc sz s = Stuck"
    using heap_ready_lock_held [OF r] by (simp add: kmalloc_def)
qed

theorem chunk_count_termination_witness: "kmalloc (-40) small_pool = Stuck"
proof -
  have "2 ^ 64 - 32 < unat (-40 + info_size)" by (simp add: info_size_def)
  with chunk_count_termination [of "-40"] small_pool_ready show ?thesis by blast
qed

text \<open>
  Sizes close to \<open>2 ^ 64\<close> wrap in \<open>size + sizeof (struct info)\<close>: a request for more than
  \<open>2 ^ 64 - 32\<close> bytes succeeds with a single chunk, all of it header.
\<close>

theorem kmalloc_size_wraps:
  assumes "heap_ready s fs bs" and "fs \<noteq> []" and "2 ^ 64 - 32 < unat sz"
  shows "\<exists>s'. kmalloc sz s = Done (data_addr s (CPool (hd fs)), s') \<and>
    heap_ready s' (filter (\<lambda>i. i \<noteq> hd fs) fs) ((hd fs, 1, sz) # bs)"
proof -
  have "unat sz < 2 ^ LENGTH(64)" by (rule unsigned_less)
  then have "unat (sz + info_size) = unat sz + 32 - 2 ^ 64" and less: "unat sz < 2 ^ 64"
    using assms(3) by (simp_all add: info_size_def unat_word_ariths mod_if)
  then have "chunks_for sz = 1" "countable_size sz"
    using assms(3) by (simp_all add: chunks_for_def countable_size_def)
  then have count: "chunk_count sz = Some 1" by (simp add: countable_size_def chunk_count_ends)
  have fit: "first_fit 1 0 (hd fs) fs = Some (hd fs)" using assms(2) by (cases fs) auto
  have "filter (\<lambda>i. i \<notin> {hd fs..<hd fs + 1}) fs = filter (\<lambda>i. i \<noteq> hd fs) fs"
    by (rule filter_cong) auto
  with kmalloc_fit [OF assms(1) count fit] show ?thesis by auto
qed

theorem kmalloc_size_wraps_witness:
  "\<exists>s'. kmalloc (-1) small_pool = Done (data_addr small_pool (CPool 0), s')"
proof -
  have "2 ^ 64 - 32 < unat (-1 :: u64)" by (simp add: unsigned_minus_1_eq_mask mask_eq_exp_minus_1)
  from kmalloc_size_wraps [OF small_pool_ready _ this] show ?thesis by auto
qed

text \<open>
  Freeing a chunk that is already free is accepted: the check for a dual free never fires,
  the free list stays as it is and the running total is decremented a second time.
\<close>

theorem kfree_twice:
  assumes "heap_ready s fs bs" and "initialized s" and "t \<in> set fs"
  shows "kfree (data_addr s (CPool t)) s =
    Done (s\<lparr>totalAllocated := totalAllocated s - i_size (mem s (CPool t))\<rparr>)"
proof -
  let ?s = "with_lock (held (klock s)) s"
  have v: "sem_value (klock s) = 1" and ok: "pool_ok s" and inv: "heap_inv s fs bs"
    using assms(1,2) by (simp_all add: heap_ready_def heap_state_def)
  have t: "t < chunk_max s" using heap_inv_parts(1) [OF inv] assms(3) by (auto simp: free_list_def)
  have "relink_chunk t ?s = Some (?s\<lparr>totalAllocated := totalAllocated s - i_size (mem s (CPool t))\<rparr>)"
    using relink_free_chunk [of ?s fs bs t] inv assms(3) by simp
  then have "kfree_no_lock (data_addr s (CPool t)) ?s =
      Some (?s\<lparr>totalAllocated := totalAllocated s - i_size (mem s (CPool t))\<rparr>)"
    using data_addr_nonzero [OF ok t] header_addr [of ?s t] ok t
    by (simp add: kfree_no_lock_def relink_def)
  from kfree_locked [OF v this] show ?thesis by simp
qed

theorem kfree_twice_witness:
  "\<exists>s. kfree (data_addr s (CPool 2)) s =
    Done (s\<lparr>totalAllocated := totalAllocated s - i_size (mem s (CPool 2))\<rparr>)"
proof -
  obtain s where s: "heap_ready s [2, 3] [(0, 2, 20)]" using small_pool_taken by blast
  then have "initialized s" by (auto simp: heap_ready_def heap_state_def split: if_splits)
  from kfree_twice [OF s this, of 2] show ?thesis by auto
qed

text \<open>
  \<open>krealloc\<close> of a live block to its size or more never returns: it takes the mutex and then
  calls \<open>kmalloc\<close>, which waits for the same mutex.
\<close>

theorem krealloc_grow_blocks:
  assumes "heap_ready s fs bs" and "(t, n, z) \<in> set bs" and "z \<le> sz"
  shows "krealloc copy (data_addr s (CPool t)) sz s = Blocked"
  using assms by (rule krealloc_live)

theorem krealloc_grow_blocks_witness:
  "\<exists>s. krealloc (\<lambda>d r y z h. h) (data_addr s (CPool 0)) 40 s = Blocked"
proof -
  obtain s where "heap_ready s [2, 3] [(0, 2, 20)]" using small_pool_taken by blast
  from krealloc_grow_blocks [OF this, of 0 2 20 40] show ?thesis by auto
qed

text \<open>
  \<open>krealloc\<close> of a null pointer is \<open>kmalloc\<close>, and of a live block to a smaller size it returns
  null and leaves the heap as it was.
\<close>

theorem krealloc_null_and_shrink:
  assumes "heap_ready s fs bs"
  shows "krealloc copy 0 sz s = kmalloc sz s \<and>
    (\<forall>t n z. (t, n, z) \<in> set bs \<longrightarrow> sz < z \<longrightarrow>
       krealloc copy (data_addr s (CPool t)) sz s = Done (0, s))"
proof (intro conjI allI impI)
  show "krealloc copy 0 sz s = kmalloc sz s" by (simp add: krealloc_def kmalloc_def)
  fix t n z assume b: "(t, n, z) \<in> set bs" and less: "sz < z"
  let ?s = "with_lock (held (klock s)) s"
  have ok: "pool_ok s" and "heap_state s fs bs" and v: "sem_value (klock s) = 1"
    using assms by (simp_all add: heap_ready_def)
  then have inv: "heap_inv s fs bs" by (intro heap_state_initialized) (use b in auto)
  note t = heap_inv_block_bounds(3) [OF inv b]
  have hdr: "i_size (mem s (CPool t)) = z" using inv b by (auto simp: heap_inv_def block_ok_def)
  have "unlock_heap ?s = s" using unlock_heap_held [of ?s "klock s"] v by simp
  then show "krealloc copy (data_addr s (CPool t)) sz s = Done (0, s)"
    using heap_ready_lock_held [OF assms] data_addr_nonzero [OF ok t] header_addr [of ?s t]
      ok t hdr less
    by (simp add: krealloc_def Let_def)
qed

theorem krealloc_null_and_shrink_witness:
  "\<exists>s. krealloc (\<lambda>d r y z h. h) (data_addr s (CPool 0)) 8 s = Done (0, s)"
proof -
  obtain s where "heap_ready s [2, 3] [(0, 2, 20)]" using small_pool_taken by blast
  from krealloc_null_and_shrink [OF this, of "\<lambda>d r y z h. h" 8] show ?thesis by auto
qed

end
