(* ===== verification/BasicString.thy ===== *)
theory BasicString
  imports CString Kmalloc_Props "HOL-Library.Sublist"
begin

text \<open>
  \<open>basic_string\<close> of \<open>userland/lib/basic_string.hpp\<close> and \<open>strdup\<close> of \<open>userland/lib/cstring.h\<close>. A string
  object is its pointer, the characters in front of the first terminator behind the pointer, and the
  stored size, which need not be their number. A C string argument is \<open>None\<close> for a null pointer. A
  read through a null pointer or behind the terminator does not return: the model does not say what
  those bytes are.
\<close>

section \<open>The class\<close>

record str =
  s_ptr :: u64
  s_text :: string
  s_size :: u64

definition npos :: u64 where "npos = -1"

definition upto_NUL :: "string \<Rightarrow> string" where
  "upto_NUL t = takeWhile (\<lambda>c. c \<noteq> NUL) t"

definition strdup :: "string option \<Rightarrow> kheap \<Rightarrow> (u64 \<times> kheap) outcome" where
  "strdup src h =
     (case src of
        None \<Rightarrow> Stuck
      | Some t \<Rightarrow> and_then (kmalloc (of_nat (strlen t) + 1) h) (\<lambda>(newS, h).
          if newS = 0 then Done (0, h) else Done (newS, h)))"

text \<open>
  The members that copy text, over the \<open>strdup\<close> and \<open>free\<close> of the build: those of the kernel here,
  those of the host in the unit tests.
\<close>

type_synonym 'h dup = "string option \<Rightarrow> 'h \<Rightarrow> (u64 \<times> 'h) outcome"

definition make_string_with :: "'h dup \<Rightarrow> string option \<Rightarrow> u64 \<Rightarrow> 'h \<Rightarrow> (str \<times> 'h) outcome" where
  "make_string_with dup src sz h =
     and_then (dup src h) (\<lambda>(p, h).
     Done (\<lparr>s_ptr = p, s_text = (case src of None \<Rightarrow> [] | Some t \<Rightarrow> upto_NUL t), s_size = sz\<rparr>, h))"

definition string_of_cstr_with :: "'h dup \<Rightarrow> string option \<Rightarrow> 'h \<Rightarrow> (str \<times> 'h) outcome" where
  "string_of_cstr_with dup src h =
     (case src of None \<Rightarrow> Stuck | Some t \<Rightarrow> make_string_with dup src (of_nat (strlen t)) h)"

text \<open>The pointer \<open>_data\<close> as a C string.\<close>

definition c_str :: "str \<Rightarrow> string option" where
  "c_str s = (if s_ptr s = 0 then None else Some (s_text s))"

definition string_copy_with :: "'h dup \<Rightarrow> str \<Rightarrow> 'h \<Rightarrow> (str \<times> 'h) outcome" where
  "string_copy_with dup rhs h = make_string_with dup (c_str rhs) (s_size rhs) h"

text \<open>The old data is not freed.\<close>

definition string_assign_with :: "'h dup \<Rightarrow> str \<Rightarrow> str \<Rightarrow> 'h \<Rightarrow> (str \<times> 'h) outcome" where
  "string_assign_with dup lhs rhs h =
     and_then (dup (c_str rhs) h) (\<lambda>(p, h).
     Done (lhs\<lparr>s_ptr := p, s_text := upto_NUL (s_text rhs), s_size := s_size rhs\<rparr>, h))"

text \<open>The class on the kernel heap.\<close>

definition make_string :: "string option \<Rightarrow> u64 \<Rightarrow> kheap \<Rightarrow> (str \<times> kheap) outcome" where
  "make_string = make_string_with strdup"

definition string_default :: "kheap \<Rightarrow> (str \<times> kheap) outcome" where
  "string_default h = make_string None 0 h"

definition string_of_cstr :: "string option \<Rightarrow> kheap \<Rightarrow> (str \<times> kheap) outcome" where
  "string_of_cstr = string_of_cstr_with strdup"

definition string_copy :: "str \<Rightarrow> kheap \<Rightarrow> (str \<times> kheap) outcome" where
  "string_copy = string_copy_with strdup"

definition delete_string :: "str \<Rightarrow> kheap \<Rightarrow> kheap outcome" where
  "delete_string s h = kfree (s_ptr s) h"

definition string_assign :: "str \<Rightarrow> str \<Rightarrow> kheap \<Rightarrow> (str \<times> kheap) outcome" where
  "string_assign = string_assign_with strdup"

definition char_at :: "string option \<Rightarrow> nat \<Rightarrow> char outcome" where
  "char_at src i =
     (case src of None \<Rightarrow> Stuck
      | Some t \<Rightarrow> if i \<le> length t then Done ((t @ [NUL]) ! i) else Stuck)"

definition string_nth :: "str \<Rightarrow> u64 \<Rightarrow> char outcome" where
  "string_nth s i = char_at (c_str s) (unat i)"

fun starts_with_loop :: "str \<Rightarrow> string \<Rightarrow> nat \<Rightarrow> bool outcome" where
  "starts_with_loop s [] i = Done True"
| "starts_with_loop s (c # cs) i =
     (if c = NUL then Done True
      else if of_nat i > s_size s then Done False
      else and_then (char_at (c_str s) i) (\<lambda>d.
           if c \<noteq> d then Done False else starts_with_loop s cs (i + 1)))"

definition starts_with :: "str \<Rightarrow> string option \<Rightarrow> bool outcome" where
  "starts_with s src =
     (case src of None \<Rightarrow> Done False | Some t \<Rightarrow> starts_with_loop s t 0)"

text \<open>\<open>_data + pos\<close> as a C string, \<open>None\<close> where the bytes are not the string's own.\<close>

definition substr :: "str \<Rightarrow> u64 \<Rightarrow> u64 \<Rightarrow> kheap \<Rightarrow> (str \<times> kheap) outcome" where
  "substr s p cnt h =
     and_then (assert_that (s_ptr s \<noteq> 0 \<and> unat p \<le> length (s_text s))) (\<lambda>_.
     let tl = Some (drop (unat p) (s_text s))
     in if cnt = npos then make_string tl (s_size s - p) h
        else make_string tl (s_size s - cnt - p) h)"

text \<open>The comparison loop, \<open>n\<close> characters from \<open>i\<close> on.\<close>

fun eq_loop :: "string option \<Rightarrow> string option \<Rightarrow> nat \<Rightarrow> nat \<Rightarrow> bool outcome" where
  "eq_loop lhs rhs 0 i = Done True"
| "eq_loop lhs rhs (Suc n) i =
     and_then (char_at lhs i) (\<lambda>a.
     and_then (char_at rhs i) (\<lambda>b.
     if a \<noteq> b then Done False else eq_loop lhs rhs n (i + 1)))"

definition eq_string :: "str \<Rightarrow> str \<Rightarrow> bool outcome" where
  "eq_string lhs rhs =
     (if s_size lhs \<noteq> s_size rhs then Done False
      else eq_loop (c_str lhs) (c_str rhs) (unat (s_size lhs)) 0)"

definition eq_cstr :: "str \<Rightarrow> string option \<Rightarrow> bool outcome" where
  "eq_cstr lhs rhs =
     (case rhs of None \<Rightarrow> Stuck
      | Some t \<Rightarrow> if s_size lhs \<noteq> of_nat (strlen t) then Done False
                  else eq_loop (c_str lhs) rhs (unat (s_size lhs)) 0)"

definition eq_cstr_rev :: "string option \<Rightarrow> str \<Rightarrow> bool outcome" where
  "eq_cstr_rev lhs rhs = eq_cstr rhs lhs"

lemmas string_members = make_string_def make_string_with_def string_of_cstr_def string_of_cstr_with_def
  string_copy_def string_copy_with_def string_assign_def string_assign_with_def

section \<open>Lemmas\<close>

text \<open>A string object that says what it holds.\<close>

definition string_ok :: "str \<Rightarrow> bool" where
  "string_ok s \<longleftrightarrow> s_ptr s \<noteq> 0 \<and> NUL \<notin> set (s_text s) \<and> length (s_text s) < 2 ^ 63 \<and>
     s_size s = of_nat (length (s_text s))"

lemma string_ok_size: "string_ok s \<Longrightarrow> unat (s_size s) = length (s_text s)"
  by (simp add: string_ok_def unat_of_nat)

lemma upto_NUL_id [simp]: "NUL \<notin> set t \<Longrightarrow> upto_NUL t = t"
  by (auto simp: upto_NUL_def takeWhile_eq_all_conv)

lemma eq_loop_run:
  assumes "i + n \<le> length t" "i + n \<le> length u"
  shows "eq_loop (Some t) (Some u) n i = Done (take n (drop i t) = take n (drop i u))"
  using assms
proof (induction n arbitrary: i)
  case (Suc n)
  then have "i < length t" "i < length u" by simp_all
  moreover from this have "take (Suc n) (drop i t) = t ! i # take n (drop (Suc i) t)"
      "take (Suc n) (drop i u) = u ! i # take n (drop (Suc i) u)"
    by (simp_all add: Cons_nth_drop_Suc [symmetric])
  ultimately show ?case using Suc by (auto simp: char_at_def nth_append)
qed simp

lemma eq_cstr_ok:
  assumes "string_ok s" "NUL \<notin> set t" "length t < 2 ^ 63"
  shows "eq_cstr s (Some t) = Done (s_text s = t)"
proof (cases "length t = length (s_text s)")
  case True
  then show ?thesis
    using assms eq_loop_run [of 0 "length t" "s_text s" t]
    by (simp add: eq_cstr_def strlen_no_nul string_ok_def c_str_def unat_of_nat)
next
  case False
  have "(of_nat (length t) :: u64) \<noteq> of_nat (length (s_text s))"
  proof
    assume "(of_nat (length t) :: u64) = of_nat (length (s_text s))"
    then have "unat (of_nat (length t) :: u64) = unat (of_nat (length (s_text s)) :: u64)" by simp
    with assms False show False by (simp add: string_ok_def unat_of_nat)
  qed
  then show ?thesis
    using assms False by (auto simp: eq_cstr_def strlen_no_nul string_ok_def)
qed

lemma eq_string_ok:
  assumes "string_ok s" "string_ok u"
  shows "eq_string s u = Done (s_text s = s_text u)"
  using eq_cstr_ok [OF assms(1), of "s_text u"] assms(2)
  by (auto simp: eq_string_def eq_cstr_def string_ok_def strlen_no_nul c_str_def split: if_splits)

lemma starts_with_loop_run:
  assumes "string_ok s" "NUL \<notin> set t" "i \<le> length (s_text s)"
  shows "starts_with_loop s t i = Done (prefix t (drop i (s_text s)))"
  using assms(2,3)
proof (induction t arbitrary: i)
  case (Cons c cs)
  have le: "\<not> of_nat i > s_size s"
    using assms(1) Cons.prems(2)
    by (simp add: string_ok_def word_less_nat_alt unat_of_nat)
  show ?case
  proof (cases "i = length (s_text s)")
    case True
    then show ?thesis using Cons.prems assms(1) le
      by (auto simp: char_at_def c_str_def string_ok_def nth_append)
  next
    case False
    then have i: "i < length (s_text s)" using Cons.prems by simp
    then have "drop i (s_text s) = s_text s ! i # drop (Suc i) (s_text s)"
      by (simp add: Cons_nth_drop_Suc)
    then show ?thesis using Cons i assms(1) le
      by (auto simp: char_at_def c_str_def string_ok_def nth_append)
  qed
qed simp

lemma starts_with_ok:
  "string_ok s \<Longrightarrow> NUL \<notin> set t \<Longrightarrow> starts_with s (Some t) = Done (prefix t (s_text s))"
  using starts_with_loop_run [of s t 0] by (simp add: starts_with_def)

lemma make_string_ok:
  assumes "kmalloc (of_nat (length t) + 1) h = Done (p, h')" "p \<noteq> 0" "NUL \<notin> set t"
  shows "make_string (Some t) sz h = Done (\<lparr>s_ptr = p, s_text = t, s_size = sz\<rparr>, h')"
  using assms by (simp add: string_members strdup_def strlen_no_nul)

lemma substr_ok:
  assumes "string_ok s" "unat i \<le> length (s_text s)"
    and "kmalloc (of_nat (length (s_text s) - unat i) + 1) h = Done (p, h')" "p \<noteq> 0"
  shows "substr s i npos h = Done (\<lparr>s_ptr = p, s_text = drop (unat i) (s_text s),
      s_size = of_nat (length (s_text s) - unat i)\<rparr>, h')"
proof -
  have "NUL \<notin> set (drop (unat i) (s_text s))"
    using assms(1) by (auto simp: string_ok_def dest: in_set_dropD)
  moreover have "s_size s - i = of_nat (length (s_text s) - unat i)"
    using assms(1,2) by (simp add: string_ok_def of_nat_diff)
  ultimately show ?thesis
    using assms make_string_ok [of "drop (unat i) (s_text s)" h p h']
    by (simp add: substr_def string_ok_def Let_def)
qed

end
