(* ===== verification/Vector.thy ===== *)
theory Vector
  imports Kmalloc_Props
begin

text \<open>
  \<open>vector\<close> of \<open>userland/lib/vector.hpp\<close>. The reallocation function is an argument, as in the header,
  where it is \<open>krealloc\<close> or, in the unit tests, \<open>realloc\<close>. \<open>tsz\<close> is \<open>sizeof (Type)\<close>. The elements are a
  function from indices; a store outside the bytes last requested, or through a null \<open>_data\<close>, does
  not return. \<open>erase\<close> is not modelled: its body calls operators that \<open>Iterator\<close> does not have, so no
  instance of it compiles.
\<close>

section \<open>The class\<close>

type_synonym 'h resize = "u64 \<Rightarrow> u64 \<Rightarrow> 'h \<Rightarrow> (u64 \<times> 'h) outcome"

record 'a vector =
  v_size :: u64
  v_reservation :: u64
  v_data :: u64
  v_elems :: "nat \<Rightarrow> 'a"

definition new_vector :: "(nat \<Rightarrow> 'a) \<Rightarrow> 'a vector" where
  "new_vector junk = \<lparr>v_size = 0, v_reservation = 0, v_data = 0, v_elems = junk\<rparr>"

definition new_vector_count :: "u64 \<Rightarrow> (nat \<Rightarrow> 'a) \<Rightarrow> 'a vector" where
  "new_vector_count n junk = (new_vector junk)\<lparr>v_reservation := n\<rparr>"

definition delete_vector :: "(u64 \<Rightarrow> 'h \<Rightarrow> 'h outcome) \<Rightarrow> 'a vector \<Rightarrow> 'h \<Rightarrow> 'h outcome" where
  "delete_vector free v h = (if v_data v \<noteq> 0 then free (v_data v) h else Done h)"

definition vector_empty :: "'a vector \<Rightarrow> bool" where
  "vector_empty v \<longleftrightarrow> v_size v = 0"

definition doRealloc ::
    "'h resize \<Rightarrow> u64 \<Rightarrow> 'a vector \<Rightarrow> 'h \<Rightarrow> ('a vector \<times> 'h) outcome" where
  "doRealloc resize tsz v h =
     (if v_data v = 0 \<or> v_size v \<ge> v_reservation v then
        (let r = (if v_reservation v = 0 then 10 else v_size v * 2);
             sizeToRealloc = r * tsz
         in and_then (resize (v_data v) sizeToRealloc h) (\<lambda>(p, h).
            Done (v\<lparr>v_reservation := r, v_data := p\<rparr>, h)))
      else Done (v, h))"

text \<open>\<open>_data[i]\<close> lies in the bytes last requested.\<close>

definition in_block :: "u64 \<Rightarrow> 'a vector \<Rightarrow> u64 \<Rightarrow> bool" where
  "in_block tsz v i \<longleftrightarrow>
     v_data v \<noteq> 0 \<and> (unat i + 1) * unat tsz \<le> unat (v_reservation v * tsz)"

definition push_back ::
    "'h resize \<Rightarrow> u64 \<Rightarrow> 'a \<Rightarrow> 'a vector \<Rightarrow> 'h \<Rightarrow> ('a vector \<times> 'h) outcome" where
  "push_back resize tsz x v h =
     and_then (doRealloc resize tsz v h) (\<lambda>(v, h).
     and_then (assert_that (in_block tsz v (v_size v))) (\<lambda>_.
     Done (v\<lparr>v_elems := (v_elems v)(unat (v_size v) := x), v_size := v_size v + 1\<rparr>, h)))"

definition vector_clear :: "'a vector \<Rightarrow> 'a vector" where
  "vector_clear v = v\<lparr>v_size := 0\<rparr>"

definition vector_nth :: "u64 \<Rightarrow> 'a vector \<Rightarrow> u64 \<Rightarrow> 'a outcome" where
  "vector_nth tsz v i = and_then (assert_that (in_block tsz v i)) (\<lambda>_. Done (v_elems v (unat i)))"

definition vector_front :: "u64 \<Rightarrow> 'a vector \<Rightarrow> 'a outcome" where
  "vector_front tsz v = vector_nth tsz v 0"

definition vector_back :: "u64 \<Rightarrow> 'a vector \<Rightarrow> 'a outcome" where
  "vector_back tsz v = vector_nth tsz v (v_size v - 1)"

text \<open>What the iteration from \<open>begin ()\<close> to \<open>end ()\<close> visits.\<close>

definition vector_list :: "'a vector \<Rightarrow> 'a list" where
  "vector_list v = map (v_elems v) [0..<unat (v_size v)]"

lemma length_vector_list [simp]: "length (vector_list v) = unat (v_size v)"
  by (simp add: vector_list_def)

fun push_all :: "'h resize \<Rightarrow> u64 \<Rightarrow> 'a list \<Rightarrow> 'a vector \<Rightarrow> 'h \<Rightarrow> ('a vector \<times> 'h) outcome" where
  "push_all resize tsz [] v h = Done (v, h)"
| "push_all resize tsz (x # xs) v h =
     and_then (push_back resize tsz x v h) (\<lambda>(v, h). push_all resize tsz xs v h)"

section \<open>Iteration\<close>

text \<open>
  An \<open>Iterator\<close> is its pointer \<open>_item\<close>; a difference of pointers that is no multiple of the element
  size is never dereferenced.
\<close>

definition iter_inc :: "u64 \<Rightarrow> u64 \<Rightarrow> u64" where
  "iter_inc tsz it = it + tsz"

definition iter_neq :: "u64 \<Rightarrow> u64 \<Rightarrow> bool" where
  "iter_neq it rhs \<longleftrightarrow> it \<noteq> rhs"

definition iter_deref :: "u64 \<Rightarrow> 'a vector \<Rightarrow> u64 \<Rightarrow> 'a outcome" where
  "iter_deref tsz v it =
     (let d = it - v_data v in and_then (assert_that (d mod tsz = 0)) (\<lambda>_. vector_nth tsz v (d div tsz)))"

definition vector_begin :: "'a vector \<Rightarrow> u64" where
  "vector_begin v = v_data v"

definition vector_end :: "u64 \<Rightarrow> 'a vector \<Rightarrow> u64" where
  "vector_end tsz v = v_data v + v_size v * tsz"

text \<open>The elements that a range-based \<open>for\<close> visits: from \<open>it\<close>, until \<open>it\<close> is the end.\<close>

partial_function (option) for_each :: "u64 \<Rightarrow> 'a vector \<Rightarrow> u64 \<Rightarrow> u64 \<Rightarrow> 'a list \<Rightarrow> 'a list option" where
  "for_each tsz v it en visited =
     (if iter_neq it en then
        (case iter_deref tsz v it of
           Done x \<Rightarrow> for_each tsz v (iter_inc tsz it) en (visited @ [x])
         | Blocked \<Rightarrow> None
         | Stuck \<Rightarrow> None)
      else Some visited)"

lemma in_block_offset:
  assumes "in_block tsz v (v_size v - 1)" "k < unat (v_size v)" "0 < unat tsz"
  shows "in_block tsz v (of_nat k)" "unat (of_nat k * tsz :: u64) = k * unat tsz"
    "unat (v_size v * tsz) = unat (v_size v) * unat tsz"
proof -
  have s: "unat (v_size v - 1) + 1 = unat (v_size v)"
    using assms(2) by (cases "v_size v = 0") (simp_all add: unat_minus_one)
  have b: "unat (v_size v) * unat tsz \<le> unat (v_reservation v * tsz)" "v_data v \<noteq> 0"
    using assms(1) unfolding in_block_def s by simp_all
  have r: "unat (v_reservation v * tsz) < 2 ^ 64" using unsigned_less [of "v_reservation v * tsz"] by simp
  have "k < 2 ^ 64" using assms(2) unsigned_less [of "v_size v", where ?'a = nat] by simp
  then have k: "unat (of_nat k :: u64) = k" by (simp add: unat_of_nat)
  have "(k + 1) * unat tsz \<le> unat (v_size v) * unat tsz" using assms(2) by (intro mult_le_mono1) simp
  then have le: "(k + 1) * unat tsz \<le> unat (v_reservation v * tsz)" using b(1) by simp
  then show "in_block tsz v (of_nat k)" using b(2) by (simp add: in_block_def k)
  have "k * unat tsz < 2 ^ 64" using le r by simp
  then show "unat (of_nat k * tsz :: u64) = k * unat tsz" by (simp add: unat_word_ariths k)
  have "unat (v_size v) * unat tsz < 2 ^ 64" using b(1) r by simp
  then show "unat (v_size v * tsz) = unat (v_size v) * unat tsz"
    by (simp add: unat_word_ariths)
qed

lemma for_each_from:
  assumes "in_block tsz v (v_size v - 1)" "0 < unat tsz" "k + n = unat (v_size v)"
  shows "for_each tsz v (v_data v + of_nat k * tsz) (vector_end tsz v) visited =
    Some (visited @ map (v_elems v) [k..<unat (v_size v)])"
  using assms(3)
proof (induction n arbitrary: k visited)
  case 0
  then show ?case by (subst for_each.simps) (simp add: iter_neq_def vector_end_def)
next
  case (Suc n)
  note o = in_block_offset [OF assms(1) _ assms(2), of k]
  have k: "k < unat (v_size v)" using Suc.prems by simp
  have "k < 2 ^ 64" using k unsigned_less [of "v_size v", where ?'a = nat] by simp
  then have uk: "unat (of_nat k :: u64) = k" by (simp add: unat_of_nat)
  have "of_nat k * tsz \<noteq> v_size v * tsz"
  proof
    assume "of_nat k * tsz = v_size v * tsz"
    then have "k * unat tsz = unat (v_size v) * unat tsz" using o(2,3) [OF k] by auto
    then show False using k assms(2) by simp
  qed
  then have ne: "iter_neq (v_data v + of_nat k * tsz) (vector_end tsz v)" by (simp add: iter_neq_def vector_end_def)
  have "(of_nat k * tsz) mod tsz = 0" "(of_nat k * tsz) div tsz = of_nat k"
    using o(2) [OF k] assms(2) by (simp_all add: word_unat_eq_iff unat_mod unat_div uk)
  then have d: "iter_deref tsz v (v_data v + of_nat k * tsz) = Done (v_elems v k)"
    using o(1) [OF k] by (simp add: iter_deref_def vector_nth_def uk Let_def)
  have "iter_inc tsz (v_data v + of_nat k * tsz) = v_data v + of_nat (Suc k) * tsz"
    by (simp add: iter_inc_def algebra_simps)
  moreover have "[k..<unat (v_size v)] = k # [Suc k..<unat (v_size v)]" using k by (simp add: upt_conv_Cons)
  ultimately show ?case
    using Suc.IH [of "Suc k"] Suc.prems by (subst for_each.simps) (simp add: ne d)
qed

text \<open>A range-based \<open>for\<close> visits the elements in order, once each, and ends.\<close>

lemma for_each_list:
  assumes "v_size v = 0 \<or> in_block tsz v (v_size v - 1)" "0 < unat tsz"
  shows "for_each tsz v (vector_begin v) (vector_end tsz v) [] = Some (vector_list v)"
proof (cases "v_size v = 0")
  case True
  then show ?thesis
    by (subst for_each.simps) (simp add: iter_neq_def vector_begin_def vector_end_def vector_list_def)
next
  case False
  then have "in_block tsz v (v_size v - 1)" using assms(1) by simp
  from for_each_from [OF this assms(2), of 0 "unat (v_size v)" "[]"] show ?thesis
    by (simp add: vector_begin_def vector_list_def)
qed

section \<open>What the vector asks of its reallocation function\<close>

locale resizer =
  fixes resize :: "'h resize"
    and inv :: "'h \<Rightarrow> 'b list \<Rightarrow> bool"
    and addr :: "'h \<Rightarrow> 'b \<Rightarrow> u64"
    and bsize :: "'b \<Rightarrow> u64"
    and askable :: "u64 \<Rightarrow> bool"
  assumes resize_null: "inv h bs \<Longrightarrow> askable z \<Longrightarrow>
      (\<exists>h'. resize 0 z h = Done (0, h') \<and> inv h' bs) \<or>
      (\<exists>h' b. resize 0 z h = Done (addr h' b, h') \<and> inv h' (b # bs) \<and> addr h' b \<noteq> 0 \<and>
        bsize b = z \<and> addr h' = addr h)"
begin

lemma first_push:
  assumes "inv h bs" "askable (10 * tsz)" "0 < unat tsz" "10 * unat tsz < 2 ^ 64"
  shows "(push_back resize tsz x (new_vector junk) h = Stuck) \<or>
    (\<exists>h' b v. push_back resize tsz x (new_vector junk) h = Done (v, h') \<and> inv h' (b # bs) \<and>
       bsize b = 10 * tsz \<and> v_data v = addr h' b \<and> addr h' b \<noteq> 0 \<and> v_reservation v = 10 \<and>
       v_size v = 1 \<and> vector_list v = [x] \<and> addr h' = addr h)"
proof -
  have t: "unat (10 * tsz) = 10 * unat tsz" using assms(4) by (simp add: unat_word_ariths)
  from resize_null [OF assms(1,2)] show ?thesis
  proof (elim disjE exE conjE)
    fix h' assume "resize 0 (10 * tsz) h = Done (0, h')"
    then have "push_back resize tsz x (new_vector junk) h = Stuck"
      by (simp add: push_back_def doRealloc_def new_vector_def in_block_def)
    then show ?thesis ..
  next
    fix h' b assume "resize 0 (10 * tsz) h = Done (addr h' b, h')" "inv h' (b # bs)"
      "addr h' b \<noteq> 0" "bsize b = 10 * tsz" "addr h' = addr h"
    then show ?thesis using assms(3) t
      by (auto simp: push_back_def doRealloc_def new_vector_def in_block_def vector_list_def)
  qed
qed

end

lemma push_within:
  assumes "v_data v \<noteq> 0" "v_reservation v = 10" "v_size v < 10" "10 * unat tsz < 2 ^ 64"
  shows "push_back resize tsz x v h =
    Done (v\<lparr>v_elems := (v_elems v)(unat (v_size v) := x), v_size := v_size v + 1\<rparr>, h)"
proof -
  have "unat (10 * tsz) = 10 * unat tsz" using assms(4) by (simp add: unat_word_ariths)
  moreover have "unat (v_size v) + 1 \<le> 10" using assms(3) by (simp add: word_less_nat_alt)
  then have "(unat (v_size v) + 1) * unat tsz \<le> 10 * unat tsz" by (rule mult_le_mono1)
  moreover have "doRealloc resize tsz v h = Done (v, h)"
    unfolding doRealloc_def by (rule if_not_P) (use assms in auto)
  ultimately show ?thesis
    using assms(1,2) by (simp add: push_back_def in_block_def)
qed

text \<open>Pushing into the ten reserved places, and what the next push does.\<close>

lemma push_reserved:
  assumes "v_data v \<noteq> 0" "v_reservation v = 10" "unat (v_size v) + length xs \<le> 10"
    "10 * unat tsz < 2 ^ 64"
  shows "\<exists>v'. push_all resize tsz (xs @ ys) v h = push_all resize tsz ys v' h \<and>
    vector_list v' = vector_list v @ xs \<and> v_data v' = v_data v \<and> v_reservation v' = 10 \<and>
    unat (v_size v') = unat (v_size v) + length xs"
  using assms
proof (induction xs arbitrary: v)
  case Nil
  then show ?case by auto
next
  case (Cons x xs)
  let ?v = "v\<lparr>v_elems := (v_elems v)(unat (v_size v) := x), v_size := v_size v + 1\<rparr>"
  have up: "unat (v_size v + 1) = unat (v_size v) + 1"
    using Cons.prems(3) by (simp add: unat_word_ariths)
  have "v_size v < 10" using Cons.prems(3) by (simp add: word_less_nat_alt)
  then have "push_back resize tsz x v h = Done (?v, h)"
    using Cons.prems by (intro push_within)
  moreover have "vector_list ?v = vector_list v @ [x]" by (simp add: vector_list_def up)
  moreover have "v_data ?v \<noteq> 0" "v_reservation ?v = 10" "unat (v_size ?v) + length xs \<le> 10"
    using Cons.prems up by simp_all
  from Cons.IH [OF this Cons.prems(4)] obtain v' where
    "push_all resize tsz (xs @ ys) ?v h = push_all resize tsz ys v' h"
    "vector_list v' = vector_list ?v @ xs" "v_data v' = v_data v" "v_reservation v' = 10"
    "unat (v_size v') = unat (v_size v) + Suc (length xs)" using up by auto
  ultimately show ?case by auto
qed


section \<open>Growing\<close>

text \<open>
  The contract of \<open>realloc\<close>: \<open>live\<close> gives the size of every live block, \<open>room\<close> is a number of
  allocations that are sure to succeed. A call on the null pointer or a live block moves the block
  to a place that is free once the old one is given up; only without room it may return null and
  change nothing. The content that it keeps is the vector's \<open>v_elems\<close>.
\<close>

definition realloc_law :: "'h resize \<Rightarrow> ('h \<Rightarrow> u64 \<rightharpoonup> u64) \<Rightarrow> ('h \<Rightarrow> nat) \<Rightarrow> bool" where
  "realloc_law resize live room \<longleftrightarrow> (\<forall>h p z. p = 0 \<or> live h p \<noteq> None \<longrightarrow>
     (\<exists>q h'. resize p z h = Done (q, h') \<and> q \<noteq> 0 \<and> ((live h)(p := None)) q = None \<and>
        live h' = (live h)(p := None, q \<mapsto> z) \<and> room h \<le> room h' + 1) \<or>
     room h = 0 \<and> (\<exists>h'. resize p z h = Done (0, h') \<and> live h' = live h))"

text \<open>A vector as its operations leave it.\<close>

definition grown_ok :: "('h \<Rightarrow> u64 \<rightharpoonup> u64) \<Rightarrow> u64 \<Rightarrow> 'a vector \<Rightarrow> 'h \<Rightarrow> bool" where
  "grown_ok live tsz v h \<longleftrightarrow>
     v_data v = 0 \<and> v_size v = 0 \<and> v_reservation v = 0 \<or>
     v_data v \<noteq> 0 \<and> live h (v_data v) = Some (v_reservation v * tsz) \<and> 10 \<le> v_reservation v \<and>
       v_size v \<le> v_reservation v \<and> unat (v_reservation v) * unat tsz < 2 ^ 64"

lemma grown_ok_new: "grown_ok live tsz (new_vector junk) h"
  by (simp add: grown_ok_def new_vector_def)

text \<open>Storing an element in a place that is reserved.\<close>

definition stored :: "'a \<Rightarrow> 'a vector \<Rightarrow> 'a vector" where
  "stored x v = v\<lparr>v_elems := (v_elems v)(unat (v_size v) := x), v_size := v_size v + 1\<rparr>"

lemma stored_simps [simp]: "v_data (stored x v) = v_data v" "v_reservation (stored x v) = v_reservation v"
  by (simp_all add: stored_def)

lemma store_grown:
  assumes "v_data v \<noteq> 0" "unat (v_size v) < unat (v_reservation v)" "grown_ok live tsz v h"
  shows "in_block tsz v (v_size v)" "unat (v_size (stored x v)) = unat (v_size v) + 1"
    "vector_list (stored x v) = vector_list v @ [x]" "grown_ok live tsz (stored x v) h"
proof -
  have f: "unat (v_reservation v) * unat tsz < 2 ^ 64" using assms(1,3) by (simp add: grown_ok_def)
  have "(unat (v_size v) + 1) * unat tsz \<le> unat (v_reservation v) * unat tsz"
    using assms(2) by (intro mult_le_mono1) simp
  then show "in_block tsz v (v_size v)" using assms(1) f by (simp add: in_block_def unat_word_ariths)
  have "unat (v_size v) + 1 < 2 ^ 64" using assms(2) unsigned_less [of "v_reservation v", where ?'a = nat] by simp
  then have up: "unat (v_size v + 1) = unat (v_size v) + 1" by (simp add: unat_word_ariths)
  then show "unat (v_size (stored x v)) = unat (v_size v) + 1"
    "vector_list (stored x v) = vector_list v @ [x]" by (simp_all add: stored_def vector_list_def)
  have "v_size v + 1 \<le> v_reservation v" using up assms(2) by (simp add: word_le_nat_alt)
  then show "grown_ok live tsz (stored x v) h" using assms(1,3) by (simp add: stored_def grown_ok_def)
qed

lemma doRealloc_grown:
  assumes law: "realloc_law resize live room" "live h 0 = None" "0 < room h" and ok: "grown_ok live tsz v h"
    and fits: "(2 * unat (v_size v) + 10) * unat tsz < 2 ^ 64" "0 < unat tsz"
  obtains v' h' where "doRealloc resize tsz v h = Done (v', h')" "v_size v' = v_size v" "v_elems v' = v_elems v"
    "v_data v' \<noteq> 0" "unat (v_size v') < unat (v_reservation v')" "grown_ok live tsz v' h'"
    "((live h)(v_data v := None)) (v_data v') = None" "room h \<le> room h' + 1"
    "live h' = (live h)(v_data v := None, v_data v' \<mapsto> v_reservation v' * tsz)"
proof (cases "v_data v = 0 \<or> v_size v \<ge> v_reservation v")
  case False
  then have "doRealloc resize tsz v h = Done (v, h)" by (simp add: doRealloc_def)
  moreover have "unat (v_size v) < unat (v_reservation v)" using False by (simp add: word_less_nat_alt not_le)
  moreover have "live h (v_data v) = Some (v_reservation v * tsz)" using ok False by (simp add: grown_ok_def)
  ultimately show ?thesis using that [of v h] False ok by (simp add: map_upd_triv)
next
  case True
  define r where "r = (if v_reservation v = 0 then 10 else v_size v * 2)"
  have lt: "2 * unat (v_size v) + 10 < 2 ^ 64"
    using fits by (metis One_nat_def Suc_leI le_less_trans mult.right_neutral mult_le_mono2)
  have r: "10 \<le> unat r" "unat (v_size v) < unat r" "unat r \<le> 2 * unat (v_size v) + 10"
    using ok True lt by (auto simp: r_def grown_ok_def word_le_nat_alt unat_word_ariths)
  have b: "unat r * unat tsz < 2 ^ 64" by (rule le_less_trans [OF mult_le_mono1 [OF r(3)] fits(1)])
  have d: "doRealloc resize tsz v h = and_then (resize (v_data v) (r * tsz) h) (\<lambda>(p, h).
      Done (v\<lparr>v_reservation := r, v_data := p\<rparr>, h))"
    using True by (simp add: doRealloc_def r_def Let_def)
  have "v_data v = 0 \<or> live h (v_data v) \<noteq> None" using ok by (auto simp: grown_ok_def)
  from law(1) [unfolded realloc_law_def, rule_format, OF this, of "r * tsz"] law(3) obtain q h' where q: "resize (v_data v) (r * tsz) h = Done (q, h')" "q \<noteq> 0"
    "((live h)(v_data v := None)) q = None" "live h' = (live h)(v_data v := None, q \<mapsto> r * tsz)" "room h \<le> room h' + 1"
    by auto
  let ?v = "v\<lparr>v_reservation := r, v_data := q\<rparr>"
  show ?thesis
  proof (rule that [of ?v h'])
    show "doRealloc resize tsz v h = Done (?v, h')" using d q(1) by simp
    show "grown_ok live tsz ?v h'" using q(2,4) r b by (simp add: grown_ok_def word_le_nat_alt)
  qed (use q r(2) in simp_all)
qed

lemma push_all_grown:
  assumes "realloc_law resize live room" "\<And>h. live h 0 = None" "grown_ok live tsz v h" "0 < unat tsz"
    and "(2 * (unat (v_size v) + length xs) + 10) * unat tsz < 2 ^ 64" "length xs \<le> room h"
  shows "\<exists>v' h'. push_all resize tsz xs v h = Done (v', h') \<and> vector_list v' = vector_list v @ xs \<and>
    grown_ok live tsz v' h'"
  using assms(3,5,6)
proof (induction xs arbitrary: v h)
  case (Cons x xs)
  have "2 * unat (v_size v) + 10 \<le> 2 * (unat (v_size v) + length (x # xs)) + 10" by simp
  from le_less_trans [OF mult_le_mono1 [OF this] Cons.prems(2)]
  have f: "(2 * unat (v_size v) + 10) * unat tsz < 2 ^ 64" .
  have "0 < room h" using Cons.prems(3) by simp
  from doRealloc_grown [OF assms(1,2) this Cons.prems(1) f assms(4)] obtain v1 h' where
    d: "doRealloc resize tsz v h = Done (v1, h')" "v_size v1 = v_size v" "v_elems v1 = v_elems v"
      "v_data v1 \<noteq> 0" "unat (v_size v1) < unat (v_reservation v1)" "grown_ok live tsz v1 h'" "room h \<le> room h' + 1" .
  note s = store_grown(1) [OF d(4-6)] store_grown(2-4) [OF d(4-6), where x = x]
  have "push_back resize tsz x v h = Done (stored x v1, h')" using d(1) s(1) by (simp add: push_back_def stored_def)
  moreover have "vector_list v1 = vector_list v" by (simp add: vector_list_def d(2,3))
  moreover have "(2 * (unat (v_size (stored x v1)) + length xs) + 10) * unat tsz < 2 ^ 64"
    using Cons.prems(2) s(2) d(2) by simp
  moreover have "length xs \<le> room h'" using Cons.prems(3) d(7) by simp
  ultimately show ?case using Cons.IH [OF s(4)] s(3) by simp
qed auto

lemma grown_iterates:
  assumes "grown_ok live tsz v h" "0 < unat tsz"
  shows "for_each tsz v (vector_begin v) (vector_end tsz v) [] = Some (vector_list v)"
proof (rule for_each_list [OF _ assms(2)])
  show "v_size v = 0 \<or> in_block tsz v (v_size v - 1)"
  proof (cases "v_size v = 0")
    case False
    then have "unat (v_size v - 1) + 1 = unat (v_size v)" by (simp add: unat_minus_one unat_gt_0)
    moreover have "unat (v_size v) * unat tsz \<le> unat (v_reservation v) * unat tsz"
      using assms(1) False by (intro mult_le_mono1) (auto simp: grown_ok_def word_le_nat_alt)
    ultimately show ?thesis using assms(1) False by (auto simp: in_block_def grown_ok_def unat_word_ariths)
  qed simp
qed

section \<open>The vector on the kernel heap\<close>

lemma krealloc_null: "krealloc copy 0 sz s = kmalloc sz s"
  by (simp add: krealloc_def kmalloc_def)

interpretation on_heap: resizer "krealloc copy" locked_inv block_addr block_size countable_size for copy
proof
  fix h bs z assume "locked_inv h bs" "countable_size z"
  from locked.alloc_law [OF this]
  show "(\<exists>h'. krealloc copy 0 z h = Done (0, h') \<and> locked_inv h' bs) \<or>
      (\<exists>h' b. krealloc copy 0 z h = Done (block_addr h' b, h') \<and> locked_inv h' (b # bs) \<and>
        block_addr h' b \<noteq> 0 \<and> block_size b = z \<and> block_addr h' = block_addr h)"
    unfolding krealloc_null by metis
qed

lemma krealloc_live_blocks:
  assumes "locked_inv h bs" "b \<in> set bs" "block_size b \<le> sz"
  shows "krealloc copy (block_addr h b) sz h = Blocked"
proof -
  obtain t n z where b: "b = (t, n, z)" by (cases b)
  from assms(1) obtain fs where "heap_ready h fs bs" by (auto simp: locked_inv_def)
  from krealloc_live [OF this, of t n z sz] assms b show ?thesis
    by (simp only: block_addr.simps block_size.simps)
qed

text \<open>The push that follows ten: a second request for a live block.\<close>

lemma push_eleventh:
  assumes "locked_inv h bs" "b \<in> set bs" "block_size b = 10 * tsz" "10 * unat tsz < 2 ^ 62"
    and "v_data v = block_addr h b" "v_reservation v = 10" "unat (v_size v) = 10"
  shows "push_back (krealloc copy) tsz x v h = Blocked"
proof -
  have s: "v_size v = 10" by (simp add: word_unat_eq_iff assms(7))
  have "10 * tsz \<le> 20 * tsz" using assms(4) by (simp add: word_le_nat_alt unat_word_ariths)
  then have "krealloc copy (block_addr h b) (20 * tsz) h = Blocked"
    using assms by (intro krealloc_live_blocks) simp_all
  then show ?thesis using assms s by (simp add: push_back_def doRealloc_def)
qed

section \<open>Properties\<close>




text \<open>An allocator that moves every block to fresh addresses until these run out.\<close>

fun bump :: "(u64 \<times> (u64 \<rightharpoonup> u64)) resize" where
  "bump p z (n, m) =
     (if n \<noteq> 0 \<and> (m(p := None)) n = None then Done (n, n + 16, m(p := None, n \<mapsto> z)) else Done (0, n, m))"

fun bump_live :: "u64 \<times> (u64 \<rightharpoonup> u64) \<Rightarrow> u64 \<rightharpoonup> u64" where
  "bump_live (n, m) = m(0 := None)"

fun bump_room :: "u64 \<times> (u64 \<rightharpoonup> u64) \<Rightarrow> nat" where
  "bump_room (n, m) = (if n \<noteq> 0 \<and> (\<forall>a \<ge> n. m a = None) then (2 ^ 64 - unat n) div 16 else 0)"

lemma bump_room_next:
  assumes "n \<noteq> 0" "\<forall>a \<ge> n. m a = None"
  shows "bump_room (n, m) \<le> bump_room (n + 16, m(p := None, n \<mapsto> z)) + 1"
proof (cases "unat n + 16 < 2 ^ 64")
  case True
  then have u: "unat (n + 16) = unat n + 16" by (simp add: unat_word_ariths)
  then have "\<forall>a \<ge> n + 16. (m(p := None, n \<mapsto> z)) a = None"
    using assms(2) by (auto simp: word_le_nat_alt)
  moreover have "n + 16 \<noteq> 0" using u by (metis add_is_0 unat_0 zero_neq_numeral)
  ultimately show ?thesis using assms u by (simp)
next
  case False
  then have "(2 ^ 64 - unat n) div 16 \<le> 1" by simp
  then show ?thesis using assms by simp
qed

lemma bump_law: "realloc_law bump bump_live bump_room"
  unfolding realloc_law_def
proof (intro allI impI, clarify)
  fix n p z :: u64 and m :: "u64 \<rightharpoonup> u64"
  assume "\<not> (bump_room (n, m) = 0 \<and> (\<exists>h'. bump p z (n, m) = Done (0, h') \<and> bump_live h' = bump_live (n, m)))"
    and "p = 0 \<or> bump_live (n, m) p \<noteq> None"
  then show "\<exists>q h'. bump p z (n, m) = Done (q, h') \<and> q \<noteq> 0 \<and> ((bump_live (n, m))(p := None)) q = None \<and>
        bump_live h' = (bump_live (n, m))(p := None, q \<mapsto> z) \<and> bump_room (n, m) \<le> bump_room h' + 1"
    using bump_room_next [of n m p z] by (auto simp: fun_upd_twist split: if_splits)
qed


text \<open>
  A vector made with a count has a reservation but no data: its first push reserves twice its
  size, which is nothing, and stores outside the empty block.
\<close>

theorem vector_count_push_faults:
  assumes "locked_inv h bs" "0 < tsz" "n \<noteq> 0"
  shows "push_back (krealloc copy) tsz x (new_vector_count n junk) h = Stuck"
proof -
  have "countable_size 0" by (rule countable_small) simp
  from on_heap.resize_null [OF assms(1) this, of copy] assms(2,3) show ?thesis
    by (auto simp: push_back_def doRealloc_def new_vector_count_def new_vector_def in_block_def
        word_less_nat_alt)
qed

theorem vector_count_push_faults_witness:
  "push_back (krealloc (\<lambda>d r y z h. h)) 4 (7 :: int) (new_vector_count 16 (\<lambda>_. 0)) small_pool = Stuck"
proof -
  have "locked_inv small_pool []" using small_pool_ready by (auto simp: locked_inv_def)
  from vector_count_push_faults [OF this, of 4 16] show ?thesis by simp
qed

end
