(* ===== verification/Expected.thy ===== *)
theory Expected
  imports Prelude
begin

text \<open>
  \<open>Expected\<close> of \<open>userland/lib/expected.hpp\<close>: a value, an error and a flag that says which of the two
  counts. Both are always there, so reading \<open>value\<close> of a failure is defined and gives the default
  the failure was built with. The default arguments of \<open>success\<close> and \<open>unexpected\<close> are written out
  at each call.
\<close>

record ('v, 'e) Expected =
  exp_value :: 'v
  exp_error :: 'e
  isValid :: bool

definition success :: "'v \<Rightarrow> 'e \<Rightarrow> ('v, 'e) Expected" where
  "success val err = \<lparr>exp_value = val, exp_error = err, isValid = True\<rparr>"

definition unexpected :: "'e \<Rightarrow> 'v \<Rightarrow> ('v, 'e) Expected" where
  "unexpected err val = \<lparr>exp_value = val, exp_error = err, isValid = False\<rparr>"

text \<open>The implicit conversion to \<open>bool\<close>, and on to an integer, that the code uses.\<close>

definition to_bool :: "('v, 'e) Expected \<Rightarrow> bool" where
  "to_bool e = isValid e"

definition bool_word :: "bool \<Rightarrow> u64" where
  "bool_word b = (if b then 1 else 0)"

lemma Expected_simps [simp]:
  "exp_value (success v e) = v" "exp_error (success v e) = e" "to_bool (success v e)"
  "exp_value (unexpected e v) = v" "exp_error (unexpected e v) = e" "\<not> to_bool (unexpected e v)"
  by (simp_all add: success_def unexpected_def to_bool_def)

lemma success_eq_iff [simp]: "success v e = success v' e' \<longleftrightarrow> v = v' \<and> e = e'"
  by (auto simp: success_def)

lemma Expected_cases:
  obtains v e where "x = success v e" | e v where "x = unexpected e v"
  by (cases x rule: Expected.cases, case_tac isValid) (auto simp: success_def unexpected_def)

end
