(* ===== verification/Syscall.thy ===== *)
theory Syscall
  imports Expected
begin

text \<open>
  The system-call protocol of \<open>userland/Syscall.hpp\<close> and \<open>userland/Syscall.cpp\<close>: requests are
  written to message registers behind the call's number, the server decodes them. Message registers
  are a function from indices to words (the IPC buffer of the thread). \<open>seL4_Call\<close> and \<open>seL4_Send\<close>
  belong to the kernel and are parameters.
\<close>

section \<open>Messages\<close>

type_synonym mregs = "nat \<Rightarrow> u64"

record msg_info =
  msg_label :: u64
  msg_length :: u64

text \<open>\<open>seL4_MessageInfo_new (0, 0, 0, n)\<close>: label 0, no capabilities.\<close>

definition message_info_new :: "u64 \<Rightarrow> msg_info" where
  "message_info_new n = \<lparr>msg_label = 0, msg_length = n\<rparr>"

text \<open>\<open>enum class ID\<close>, \<open>DebugRequest::Operation\<close> and \<open>ThreadRequest::ThreadOp\<close>: enumerations over
  \<open>seL4_Word\<close>, which a cast can fill with any word.\<close>

abbreviation (input) "ID_Unknown \<equiv> (0 :: u64)"
abbreviation (input) "ID_Debug \<equiv> (1 :: u64)"
abbreviation (input) "ID_KMalloc \<equiv> (2 :: u64)"
abbreviation (input) "ID_KFree \<equiv> (3 :: u64)"
abbreviation (input) "ID_MMap \<equiv> (4 :: u64)"
abbreviation (input) "ID_Thread \<equiv> (5 :: u64)"

abbreviation (input) "Op_Unknown \<equiv> (0 :: u64)"
abbreviation (input) "Op_VMStats \<equiv> (1 :: u64)"
abbreviation (input) "Op_DumpScheduler \<equiv> (2 :: u64)"

abbreviation (input) "Op_List \<equiv> (0 :: u64)"
abbreviation (input) "Op_Suspend \<equiv> (1 :: u64)"
abbreviation (input) "Op_Resume \<equiv> (2 :: u64)"
abbreviation (input) "Op_SetPriority \<equiv> (3 :: u64)"
abbreviation (input) "Op_StopAndDelete \<equiv> (4 :: u64)"

datatype request =
    BaseRequest
  | DebugRequest u64
  | KMallocRequest u64
  | KFreeRequest u64
  | MMapRequest u64
  | ThreadRequest u64 u64 u64

fun getNumMsgRegisters :: "request \<Rightarrow> nat" where
  "getNumMsgRegisters BaseRequest = 0"
| "getNumMsgRegisters (ThreadRequest op arg1 arg2) = 3"
| "getNumMsgRegisters _ = 1"

fun getMsgRegister :: "request \<Rightarrow> nat \<Rightarrow> u64" where
  "getMsgRegister BaseRequest i = 0"
| "getMsgRegister (DebugRequest op) i = op"
| "getMsgRegister (KMallocRequest sz) i = sz"
| "getMsgRegister (KFreeRequest ptr) i = ptr"
| "getMsgRegister (MMapRequest numPages) i = numPages"
| "getMsgRegister (ThreadRequest op arg1 arg2) i = (if i = 0 then op else if i = 1 then arg1 else arg2)"

fun hasResponse :: "request \<Rightarrow> bool" where
  "hasResponse BaseRequest = False"
| "hasResponse (DebugRequest op) = False"
| "hasResponse _ = True"

datatype response =
    BaseResponse
  | KMallocResponse u64
  | KFreeResponse int
  | MMapResponse u64

section \<open>Decoding\<close>

definition decode_debug :: "msg_info \<Rightarrow> mregs \<Rightarrow> (request, bool) Expected" where
  "decode_debug info mr =
     (if msg_length info < 2 then unexpected False (DebugRequest Op_Unknown)
      else success (DebugRequest (mr 1)) False)"

definition decode_kmalloc :: "msg_info \<Rightarrow> mregs \<Rightarrow> (request, bool) Expected" where
  "decode_kmalloc info mr =
     (if msg_length info < 2 then unexpected False (KMallocRequest 0)
      else success (KMallocRequest (mr 1)) False)"

definition decode_kfree :: "msg_info \<Rightarrow> mregs \<Rightarrow> (request, bool) Expected" where
  "decode_kfree info mr =
     (if msg_length info < 2 then unexpected False (KFreeRequest 0)
      else success (KFreeRequest (mr 1)) False)"

definition decode_mmap :: "msg_info \<Rightarrow> mregs \<Rightarrow> (request, bool) Expected" where
  "decode_mmap info mr =
     (if msg_length info < 2 then unexpected False (MMapRequest 0)
      else success (MMapRequest (mr 1)) False)"

definition decode_thread :: "msg_info \<Rightarrow> mregs \<Rightarrow> (request, bool) Expected" where
  "decode_thread info mr = success (ThreadRequest (mr 1) (mr 2) (mr 3)) False"

text \<open>
  The response decoders. \<open>KFreeResponse (int)\<close> ignores its argument and leaves \<open>response\<close> at 0.
\<close>

definition KFreeResponse_of :: "u64 \<Rightarrow> response" where
  "KFreeResponse_of w = KFreeResponse 0"

definition decode_base_response :: "msg_info \<Rightarrow> mregs \<Rightarrow> (response, bool) Expected" where
  "decode_base_response info mr = success BaseResponse False"

definition decode_kmalloc_response :: "msg_info \<Rightarrow> mregs \<Rightarrow> (response, bool) Expected" where
  "decode_kmalloc_response info mr = success (KMallocResponse (mr 1)) False"

definition decode_kfree_response :: "msg_info \<Rightarrow> mregs \<Rightarrow> (response, bool) Expected" where
  "decode_kfree_response info mr = success (KFreeResponse_of (mr 1)) False"

definition decode_mmap_response :: "msg_info \<Rightarrow> mregs \<Rightarrow> (response, bool) Expected" where
  "decode_mmap_response info mr = success (MMapResponse (mr 1)) False"

section \<open>Performing a call\<close>

text \<open>
  The kernel's part, over a world \<open>'w\<close> that holds everybody else: \<open>call\<close> sends and waits for the
  reply (its message info and the registers afterwards), \<open>send\<close> only sends. Either may not return.
\<close>

record 'w ipc =
  ipc_call :: "u64 \<Rightarrow> msg_info \<Rightarrow> mregs \<Rightarrow> 'w \<Rightarrow> (msg_info \<times> mregs \<times> 'w) outcome"
  ipc_send :: "u64 \<Rightarrow> msg_info \<Rightarrow> mregs \<Rightarrow> 'w \<Rightarrow> 'w outcome"

definition request_info :: "request \<Rightarrow> msg_info" where
  "request_info b = message_info_new (of_nat (getNumMsgRegisters b) + 1)"

text \<open>The registers after \<open>seL4_SetMR (0, id)\<close> and the loop.\<close>

definition write_registers :: "u64 \<Rightarrow> request \<Rightarrow> mregs \<Rightarrow> mregs" where
  "write_registers sid b mr =
     foldl (\<lambda>mr i. mr(i + 1 := getMsgRegister b i)) (mr(0 := sid)) [0..<getNumMsgRegisters b]"

text \<open>\<open>decode\<close> and \<open>dflt\<close> are \<open>ReturnType::decode\<close> and \<open>ReturnType (0)\<close>.\<close>

definition performBase ::
    "(msg_info \<Rightarrow> mregs \<Rightarrow> (response, bool) Expected) \<Rightarrow> response \<Rightarrow> 'w ipc \<Rightarrow>
     u64 \<Rightarrow> u64 \<Rightarrow> request \<Rightarrow> mregs \<Rightarrow> 'w \<Rightarrow> ((response, bool) Expected \<times> mregs \<times> 'w) outcome" where
  "performBase decode dflt K endpoint sid b mr w =
     (let info = request_info b; mr = write_registers sid b mr
      in if hasResponse b then
           and_then (ipc_call K endpoint info mr w) (\<lambda>(retInfo, mr, w).
           Done (decode retInfo mr, mr, w))
         else
           and_then (ipc_send K endpoint info mr w) (\<lambda>w.
           Done (success dflt False, mr, w)))"

definition perform_kmalloc where
  "perform_kmalloc K endpoint r =
     performBase decode_kmalloc_response (KMallocResponse 0) K endpoint ID_KMalloc r"

definition perform_kfree where
  "perform_kfree K endpoint r =
     performBase decode_kfree_response (KFreeResponse_of 0) K endpoint ID_KFree r"

definition perform_debug where
  "perform_debug K endpoint r =
     performBase decode_base_response BaseResponse K endpoint ID_Debug r"

definition perform_mmap where
  "perform_mmap K endpoint r =
     performBase decode_mmap_response (MMapResponse 0) K endpoint ID_MMap r"

definition perform_thread where
  "perform_thread K endpoint r =
     performBase decode_base_response BaseResponse K endpoint ID_Thread r"

section \<open>Lemmas\<close>

lemma write_registers_apply:
  "write_registers sid b mr j =
     (if j = 0 then sid
      else if j \<le> getNumMsgRegisters b then getMsgRegister b (j - 1) else mr j)"
proof -
  have "foldl (\<lambda>mr i. mr(i + 1 := getMsgRegister b i)) (mr(0 := sid)) [0..<n] j =
     (if j = 0 then sid else if j \<le> n then getMsgRegister b (j - 1) else mr j)" for n
    by (induction n) auto
  then show ?thesis by (simp add: write_registers_def)
qed

lemma request_info_length:
  "unat (msg_length (request_info b)) = getNumMsgRegisters b + 1"
  by (cases b) (simp_all add: request_info_def message_info_new_def)

text \<open>The number the code sends each request with, and the server's decoder for it.\<close>

fun id_of :: "request \<Rightarrow> u64" where
  "id_of BaseRequest = ID_Unknown"
| "id_of (DebugRequest op) = ID_Debug"
| "id_of (KMallocRequest sz) = ID_KMalloc"
| "id_of (KFreeRequest ptr) = ID_KFree"
| "id_of (MMapRequest numPages) = ID_MMap"
| "id_of (ThreadRequest op arg1 arg2) = ID_Thread"

definition decode_for :: "u64 \<Rightarrow> msg_info \<Rightarrow> mregs \<Rightarrow> (request, bool) Expected" where
  "decode_for sid =
     (if sid = ID_Debug then decode_debug else if sid = ID_KMalloc then decode_kmalloc
      else if sid = ID_KFree then decode_kfree else if sid = ID_MMap then decode_mmap
      else decode_thread)"

text \<open>
  The kernel's documented transfer: the receiver's registers agree with the sender's up to the
  message length.
\<close>

definition delivers :: "(msg_info \<Rightarrow> mregs \<Rightarrow> mregs) \<Rightarrow> bool" where
  "delivers transfer \<longleftrightarrow> (\<forall>info mr i. i < unat (msg_length info) \<longrightarrow> transfer info mr i = mr i)"

text \<open>
  C29. What a client writes for a request is what the server decodes: the call's number arrives in
  register 0, and the decoder for that number returns the same request, whatever the registers
  held before and whatever the kernel leaves in the registers beyond the message's length.
\<close>

theorem request_roundtrip:
  assumes "delivers transfer" "b \<noteq> BaseRequest"
  shows "(let mr = transfer (request_info b) (write_registers (id_of b) b mr0)
     in mr 0 = id_of b \<and> decode_for (mr 0) (request_info b) mr = success b False)"
proof -
  define mr where "mr = transfer (request_info b) (write_registers (id_of b) b mr0)"
  have "mr i = (if i = 0 then id_of b else getMsgRegister b (i - 1))"
    if "i \<le> getNumMsgRegisters b" for i
    using assms(1) that request_info_length [of b]
    by (simp add: delivers_def mr_def write_registers_apply)
  then show ?thesis
    using assms(2) unfolding mr_def [symmetric]
    by (cases b) (auto simp: Let_def decode_for_def decode_debug_def decode_kmalloc_def
        decode_kfree_def decode_mmap_def decode_thread_def request_info_def message_info_new_def)
qed

theorem request_roundtrip_witness:
  "decode_for ID_Thread (request_info (ThreadRequest Op_SetPriority 3 200))
     (\<lambda>i. if i < 4 then write_registers ID_Thread (ThreadRequest Op_SetPriority 3 200) (\<lambda>_. 0) i
          else 99) =
   success (ThreadRequest Op_SetPriority 3 200) False"
proof -
  let ?t = "\<lambda>info mr i. if i < unat (msg_length info) then mr i else 99 :: u64"
  have "delivers ?t" by (simp add: delivers_def)
  from request_roundtrip [OF this, of "ThreadRequest Op_SetPriority 3 200" "\<lambda>_. 0"]
  show ?thesis
    by (simp add: request_info_length Let_def write_registers_apply cong: if_cong)
qed

end
