(* ===== verification/Shell.thy ===== *)
theory Shell
  imports BasicString Vector Syscall
begin

text \<open>
  The shell of \<open>userland/Shell.cpp\<close>: a line buffer fed by single characters, the commands, and the
  history. The commands make system calls; the server shares the kernel heap with the shell, so the
  world of the kernel's \<open>ipc\<close> is the heap with everything else. Output is not modelled.
\<close>

section \<open>State\<close>

definition BufferSize :: nat where "BufferSize = 256"

record shell =
  buffer :: string
  bufferIndex :: nat
  lastRet :: int
  history :: "str vector"

record 'x world =
  w_mr :: mregs
  w_heap :: kheap
  w_rest :: 'x

type_synonym 'x shell_ipc = "(kheap \<times> 'x) ipc"

definition with_heap :: "(kheap \<Rightarrow> ('a \<times> kheap) outcome) \<Rightarrow> 'x world \<Rightarrow> ('a \<times> 'x world) outcome" where
  "with_heap f w = and_then (f (w_heap w)) (\<lambda>(r, h). Done (r, w\<lparr>w_heap := h\<rparr>))"

text \<open>\<open>sizeof (string)\<close>: a pointer and a \<open>size_t\<close>.\<close>

definition sizeof_string :: u64 where "sizeof_string = 16"

section \<open>Commands\<close>

text \<open>One of the \<open>Syscall::perform\<close> functions on the shell's world.\<close>

definition do_perform ::
    "(request \<Rightarrow> mregs \<Rightarrow> kheap \<times> 'x \<Rightarrow> ((response, bool) Expected \<times> mregs \<times> kheap \<times> 'x) outcome) \<Rightarrow>
     request \<Rightarrow> 'x world \<Rightarrow> ((response, bool) Expected \<times> 'x world) outcome" where
  "do_perform P b w =
     and_then (P b (w_mr w) (w_heap w, w_rest w)) (\<lambda>(r, mr, h, x).
     Done (r, \<lparr>w_mr = mr, w_heap = h, w_rest = x\<rparr>))"

text \<open>A scope with \<open>auto args = cmd.substr (p)\<close>, whose destructor runs at the end.\<close>

definition with_substr ::
    "u64 \<Rightarrow> str \<Rightarrow> (str \<Rightarrow> 'x world \<Rightarrow> ('a \<times> 'x world) outcome) \<Rightarrow> 'x world \<Rightarrow> ('a \<times> 'x world) outcome" where
  "with_substr p cmd body w =
     and_then (with_heap (substr cmd p npos) w) (\<lambda>(args, w).
     and_then (body args w) (\<lambda>(r, w).
     and_then (delete_string args (w_heap w)) (\<lambda>h. Done (r, w\<lparr>w_heap := h\<rparr>))))"

text \<open>
  \<open>strtol (s.c_str (), .., 10)\<close>: the memory, the value and \<open>*endPtr\<close>. The byte in front of the
  characters is the top byte of the chunk's \<open>size\<close>, zero for every string that fits.
\<close>

definition strtol_str :: "str \<Rightarrow> (memory \<times> int \<times> int option) outcome" where
  "strtol_str s =
     (case c_str s of None \<Rightarrow> Stuck
      | Some t \<Rightarrow> and_then (of_option (strtol (c_mem NUL t) 10)) (\<lambda>(v, e, err). Done (c_mem NUL t, v, e)))"

text \<open>The commands on one thread: \<open>argStr = args.substr (p)\<close>, its number, the call.\<close>

definition thread_call ::
    "'x shell_ipc \<Rightarrow> u64 \<Rightarrow> u64 \<Rightarrow> u64 \<Rightarrow> str \<Rightarrow> 'x world \<Rightarrow> (int \<times> 'x world) outcome" where
  "thread_call K ep p op args w =
     with_substr p args (\<lambda>argStr w.
       and_then (strtol_str argStr) (\<lambda>(_, badge, _).
       and_then (do_perform (perform_thread K ep) (ThreadRequest op (word_of_int badge) 0) w) (\<lambda>(_, w).
       Done (0, w)))) w"

definition thread_prio :: "'x shell_ipc \<Rightarrow> u64 \<Rightarrow> str \<Rightarrow> 'x world \<Rightarrow> (int \<times> 'x world) outcome" where
  "thread_prio K ep args w =
     with_substr 5 args (\<lambda>argStr w.
       and_then (strtol_str argStr) (\<lambda>(m, badge, outArg).
       case outArg of
         None \<Rightarrow> Done (-1, w)
       | Some e \<Rightarrow>
           and_then (of_option (strtol (\<lambda>i. m (e + i)) 10)) (\<lambda>(prio, _, _).
           and_then (do_perform (perform_thread K ep)
               (ThreadRequest Op_SetPriority (word_of_int badge) (word_of_int prio)) w) (\<lambda>(_, w).
           Done (0, w))))) w"

definition cmdThread :: "'x shell_ipc \<Rightarrow> u64 \<Rightarrow> str \<Rightarrow> 'x world \<Rightarrow> (int \<times> 'x world) outcome" where
  "cmdThread K ep args w =
     and_then (eq_cstr args (Some ''list'')) (\<lambda>b. if b then
       and_then (do_perform (perform_thread K ep) (ThreadRequest Op_List 0 0) w) (\<lambda>(_, w). Done (0, w))
     else and_then (starts_with args (Some ''suspend'')) (\<lambda>b. if b then thread_call K ep 8 Op_Suspend args w
     else and_then (starts_with args (Some ''resume'')) (\<lambda>b. if b then thread_call K ep 7 Op_Resume args w
     else and_then (starts_with args (Some ''del'')) (\<lambda>b. if b then thread_call K ep 5 Op_StopAndDelete args w
     else and_then (starts_with args (Some ''prio'')) (\<lambda>b. if b then thread_prio K ep args w
     else Done (-1, w))))))"

text \<open>
  The commands with one number: the length test, \<open>args = cmd.substr (p)\<close>, the number, and -1 for a
  zero.
\<close>

definition with_number ::
    "u64 \<Rightarrow> str \<Rightarrow> (int \<Rightarrow> 'x world \<Rightarrow> (int \<times> 'x world) outcome) \<Rightarrow> 'x world \<Rightarrow> (int \<times> 'x world) outcome" where
  "with_number p cmd act w =
     (if s_size cmd < p + 1 then Done (-1, w)
      else with_substr p cmd (\<lambda>args w.
        and_then (strtol_str args) (\<lambda>(_, v, _). if v \<noteq> 0 then act v w else Done (-1, w))) w)"

definition cmd_kmalloc :: "'x shell_ipc \<Rightarrow> u64 \<Rightarrow> int \<Rightarrow> 'x world \<Rightarrow> (int \<times> 'x world) outcome" where
  "cmd_kmalloc K ep v w =
     and_then (do_perform (perform_kmalloc K ep) (KMallocRequest (word_of_int v)) w) (\<lambda>(_, w). Done (0, w))"

text \<open>\<open>poke\<close> is the effect of the store \<open>((char * ) addr)[0] = 53\<close> on the whole memory.\<close>

definition cmd_touch ::
    "(u64 \<Rightarrow> u8 \<Rightarrow> kheap \<times> 'x \<Rightarrow> (kheap \<times> 'x) outcome) \<Rightarrow> int \<Rightarrow> 'x world \<Rightarrow> (int \<times> 'x world) outcome" where
  "cmd_touch poke v w =
     and_then (poke (word_of_int v) 53 (w_heap w, w_rest w)) (\<lambda>(h, x).
     Done (0, w\<lparr>w_heap := h, w_rest := x\<rparr>))"

definition cmd_kfree :: "'x shell_ipc \<Rightarrow> u64 \<Rightarrow> int \<Rightarrow> 'x world \<Rightarrow> (int \<times> 'x world) outcome" where
  "cmd_kfree K ep v w =
     and_then (do_perform (perform_kfree K ep) (KFreeRequest (word_of_int v)) w) (\<lambda>(resp, w).
     Done (if to_bool resp then (case exp_value resp of KFreeResponse r \<Rightarrow> r | _ \<Rightarrow> 0) else -1, w))"

definition cmd_mmap :: "'x shell_ipc \<Rightarrow> u64 \<Rightarrow> int \<Rightarrow> 'x world \<Rightarrow> (int \<times> 'x world) outcome" where
  "cmd_mmap K ep v w =
     and_then (do_perform (perform_mmap K ep) (MMapRequest (word_of_int v)) w) (\<lambda>(resp, w).
     Done (if to_bool resp then 0 else -1, w))"

definition cmd_debug :: "'x shell_ipc \<Rightarrow> u64 \<Rightarrow> u64 \<Rightarrow> 'x world \<Rightarrow> (int \<times> 'x world) outcome" where
  "cmd_debug K ep op w =
     and_then (do_perform (perform_debug K ep) (DebugRequest op) w) (\<lambda>(_, w). Done (0, w))"

definition processNewCommand ::
    "(u64 \<Rightarrow> u8 \<Rightarrow> kheap \<times> 'x \<Rightarrow> (kheap \<times> 'x) outcome) \<Rightarrow> 'x shell_ipc \<Rightarrow> u64 \<Rightarrow> str \<Rightarrow> shell \<Rightarrow>
     'x world \<Rightarrow> (int \<times> 'x world) outcome" where
  "processNewCommand poke K ep cmd sh w =
     and_then (eq_cstr cmd (Some ''sched'')) (\<lambda>b. if b then cmd_debug K ep Op_DumpScheduler w
     else and_then (starts_with cmd (Some ''thread'')) (\<lambda>b. if b then
       (if s_size cmd < 8 then Done (-1, w) else with_substr 7 cmd (cmdThread K ep) w)
     else and_then (eq_cstr cmd (Some ''help'')) (\<lambda>b. if b then Done (0, w)
     else and_then (starts_with cmd (Some ''kmalloc'')) (\<lambda>b. if b then with_number 8 cmd (cmd_kmalloc K ep) w
     else and_then (starts_with cmd (Some ''touch'')) (\<lambda>b. if b then with_number 6 cmd (cmd_touch poke) w
     else and_then (starts_with cmd (Some ''kfree'')) (\<lambda>b. if b then with_number 6 cmd (cmd_kfree K ep) w
     else and_then (eq_cstr cmd (Some ''vm'')) (\<lambda>b. if b then cmd_debug K ep Op_VMStats w
     else and_then (eq_cstr cmd (Some ''history'')) (\<lambda>b. if b then Done (0, w)
     else and_then (eq_cstr cmd (Some ''last'')) (\<lambda>b. if b then Done (lastRet sh, w)
     else and_then (starts_with cmd (Some ''mmap'')) (\<lambda>b. if b then with_number 5 cmd (cmd_mmap K ep) w
     else Done (-1, w)))))))))))"

section \<open>History and line buffer\<close>

text \<open>
  \<open>_history.push_back (cmd.c_str ())\<close>: a temporary string, room in the vector, the assignment to
  the element, which copies the temporary, and the temporary's destructor.
\<close>

definition push_string_with ::
    "'h dup \<Rightarrow> 'h resize \<Rightarrow> (u64 \<Rightarrow> 'h \<Rightarrow> 'h outcome) \<Rightarrow> string option \<Rightarrow> str vector \<Rightarrow> 'h \<Rightarrow>
     (str vector \<times> 'h) outcome" where
  "push_string_with dup resize free src v h =
     and_then (string_of_cstr_with dup src h) (\<lambda>(tmp, h).
     and_then (doRealloc resize sizeof_string v h) (\<lambda>(v, h).
     and_then (assert_that (in_block sizeof_string v (v_size v))) (\<lambda>_.
     and_then (string_assign_with dup (v_elems v (unat (v_size v))) tmp h) (\<lambda>(e, h).
     and_then (free (s_ptr tmp) h) (\<lambda>h.
     Done (v\<lparr>v_elems := (v_elems v)(unat (v_size v) := e), v_size := v_size v + 1\<rparr>, h))))))"

definition push_string ::
    "(u64 \<Rightarrow> u64 \<Rightarrow> u64 \<Rightarrow> u64 \<Rightarrow> kheap \<Rightarrow> kheap) \<Rightarrow> string option \<Rightarrow> str vector \<Rightarrow> kheap \<Rightarrow>
     (str vector \<times> kheap) outcome" where
  "push_string copy = push_string_with strdup (krealloc copy) kfree"

text \<open>\<open>!_history.empty () && _history.back () == cmd\<close>\<close>

definition repeats_last :: "shell \<Rightarrow> str \<Rightarrow> bool outcome" where
  "repeats_last sh cmd =
     (if vector_empty (history sh) then Done False
      else and_then (vector_back sizeof_string (history sh)) (\<lambda>e. eq_string e cmd))"

record 'x shell_env =
  env_copy :: "u64 \<Rightarrow> u64 \<Rightarrow> u64 \<Rightarrow> u64 \<Rightarrow> kheap \<Rightarrow> kheap"
  env_poke :: "u64 \<Rightarrow> u8 \<Rightarrow> kheap \<times> 'x \<Rightarrow> (kheap \<times> 'x) outcome"
  env_ipc :: "'x shell_ipc"
  env_endpoint :: u64

definition newCommand ::
    "'x shell_env \<Rightarrow> str \<Rightarrow> shell \<Rightarrow> 'x world \<Rightarrow> (int \<times> shell \<times> 'x world) outcome" where
  "newCommand E cmd sh w =
     and_then (processNewCommand (env_poke E) (env_ipc E) (env_endpoint E) cmd sh w) (\<lambda>(r, w).
     let sh = sh\<lparr>lastRet := r\<rparr> in
     and_then (repeats_last sh cmd) (\<lambda>b.
     if b then Done (r, sh, w)
     else and_then (with_heap (push_string (env_copy E) (c_str cmd) (history sh)) w) (\<lambda>(v, w).
       Done (r, sh\<lparr>history := v\<rparr>, w))))"

text \<open>\<open>buffer[i] = c\<close>\<close>

definition set_buffer :: "nat \<Rightarrow> char \<Rightarrow> shell \<Rightarrow> shell outcome" where
  "set_buffer i c sh =
     (if i < length (buffer sh) then Done (sh\<lparr>buffer := (buffer sh)[i := c]\<rparr>) else Stuck)"

definition clear_buffer :: "shell \<Rightarrow> shell" where
  "clear_buffer sh = sh\<lparr>bufferIndex := 0, buffer := replicate BufferSize NUL\<rparr>"

definition shell_init :: "shell \<Rightarrow> kheap \<Rightarrow> (shell \<times> kheap) outcome" where
  "shell_init sh h =
     and_then (kmalloc (of_nat BufferSize) h) (\<lambda>(p, h).
     and_then (assert_that (p \<noteq> 0)) (\<lambda>_.
     Done (sh\<lparr>buffer := replicate BufferSize NUL\<rparr>, h)))"

definition onChar :: "'x shell_env \<Rightarrow> char \<Rightarrow> shell \<Rightarrow> 'x world \<Rightarrow> (shell \<times> 'x world) outcome" where
  "onChar E c sh w =
     (if c = CHR 0x0D then
        and_then (set_buffer (bufferIndex sh) NUL sh) (\<lambda>sh.
        if strlen (buffer sh) > 0 then
          and_then (with_heap (make_string (Some (buffer sh)) (of_nat (bufferIndex sh))) w) (\<lambda>(cmd, w).
          and_then (newCommand E cmd sh w) (\<lambda>(r, sh, w).
          and_then (delete_string cmd (w_heap w)) (\<lambda>h.
          Done (clear_buffer sh, w\<lparr>w_heap := h\<rparr>))))
        else Done (clear_buffer sh, w))
      else if c = CHR 0x7F then
        Done (if bufferIndex sh > 0 then sh\<lparr>bufferIndex := bufferIndex sh - 1\<rparr> else sh, w)
      else
        and_then (assert_that (bufferIndex sh + 1 < BufferSize)) (\<lambda>_.
        and_then (set_buffer (bufferIndex sh) c sh) (\<lambda>sh.
        and_then (set_buffer (bufferIndex sh + 1) NUL sh) (\<lambda>sh.
        let sh = sh\<lparr>bufferIndex := bufferIndex sh + 1\<rparr>
        in Done (if bufferIndex sh \<ge> BufferSize - 1 then sh\<lparr>bufferIndex := 0\<rparr> else sh, w)))))"

fun onChars :: "'x shell_env \<Rightarrow> string \<Rightarrow> shell \<Rightarrow> 'x world \<Rightarrow> (shell \<times> 'x world) outcome" where
  "onChars E [] sh w = Done (sh, w)"
| "onChars E (c # cs) sh w = and_then (onChar E c sh w) (\<lambda>(sh, w). onChars E cs sh w)"

end
