(* ===== verification/Optional.thy ===== *)
theory Optional
  imports Prelude
begin

text \<open>
  \<open>Optional\<close> of \<open>userland/lib/optional.hpp\<close>: a flag and a union of the value with an empty member. The
  union is \<open>None\<close> when the empty member is the active one; reading \<open>value_\<close> then is undefined, and
  does not return here. \<open>operator*\<close> does not look at the flag.
\<close>

record 'a Optional =
  opt_value :: "'a option"
  has_value_flag :: bool

definition Optional_empty :: "'a Optional" where
  "Optional_empty = \<lparr>opt_value = None, has_value_flag = False\<rparr>"

definition Optional_of :: "'a \<Rightarrow> 'a Optional" where
  "Optional_of v = \<lparr>opt_value = Some v, has_value_flag = True\<rparr>"

definition has_value :: "'a Optional \<Rightarrow> bool" where
  "has_value x = has_value_flag x"

definition Optional_deref :: "'a Optional \<Rightarrow> 'a outcome" where
  "Optional_deref x = of_option (opt_value x)"

text \<open>The flag says which member of the union is active, for everything the constructors make.\<close>

lemma Optional_simps [simp]:
  "\<not> has_value Optional_empty" "has_value (Optional_of v)"
  "Optional_deref Optional_empty = Stuck" "Optional_deref (Optional_of v) = Done v"
  by (simp_all add: Optional_empty_def Optional_of_def has_value_def Optional_deref_def)

end
