(* ===== verification/UnitTests.thy ===== *)
theory UnitTests
  imports Shell Optional
begin

text \<open>
  The unit tests of \<open>userland/unittests\<close>, which build the library classes against the memory functions
  of the host (\<open>UNIT_TESTS\<close>). These functions are a parameter: a record of \<open>strdup\<close>, \<open>realloc\<close> and
  \<open>free\<close>. The \<open>assert\<close> of the host ends the program, which counts as not returning. \<open>testVectorRemove\<close>
  and its call are left out: it instantiates \<open>vector::erase\<close>, which does not compile.
\<close>

section \<open>The host\<close>

record 'h host =
  h_strdup :: "'h dup"
  h_realloc :: "'h resize"
  h_free :: "u64 \<Rightarrow> 'h \<Rightarrow> 'h outcome"

section \<open>The tests\<close>

text \<open>\<open>sizeof (int)\<close> and \<open>sizeof (bool)\<close>.\<close>

definition sizeof_int :: u64 where "sizeof_int = 4"
definition sizeof_bool :: u64 where "sizeof_bool = 1"

text \<open>The \<open>float\<close> of the first value is named by its number; the class does not compute with it.\<close>

definition testExpected :: "int outcome" where
  "testExpected =
     (let a = success (12 :: int) (0 :: int) in
      and_then (assert_that (isValid a)) (\<lambda>_.
      and_then (assert_that (exp_value a = 12)) (\<lambda>_.
      let b = unexpected (42 :: int) False in
      and_then (assert_that (\<not> to_bool b)) (\<lambda>_.
      and_then (assert_that (exp_error b = 42)) (\<lambda>_. Done 0)))))"

definition create :: "int \<Rightarrow> int Optional" where
  "create v = Optional_of v"

definition testOptional :: "int outcome" where
  "testOptional =
     (let a = (Optional_empty :: bool Optional) in
      and_then (assert_that (has_value a = False)) (\<lambda>_.
      let b = Optional_of True in
      and_then (assert_that (has_value b)) (\<lambda>_.
      and_then (Optional_deref b) (\<lambda>v. and_then (assert_that (v = True)) (\<lambda>_.
      let c = create 42 in
      and_then (assert_that (has_value c)) (\<lambda>_.
      and_then (Optional_deref c) (\<lambda>v. and_then (assert_that (v = 42)) (\<lambda>_. Done 0))))))))"

text \<open>The vectors start with the bytes \<open>junk\<close>. Both are destroyed when the function returns.\<close>

text \<open>\<open>for (const auto &j : b) \{ assert (i == j); i++; \}\<close>\<close>

fun count_up :: "int \<Rightarrow> int list \<Rightarrow> unit outcome" where
  "count_up i [] = Done ()"
| "count_up i (j # js) = and_then (assert_that (i = j)) (\<lambda>_. count_up (i + 1) js)"

definition testVector :: "'h host \<Rightarrow> (nat \<Rightarrow> bool) \<Rightarrow> (nat \<Rightarrow> int) \<Rightarrow> 'h \<Rightarrow> (int \<times> 'h) outcome" where
  "testVector H junk1 junk2 h =
     (let a = new_vector junk1 in
      and_then (assert_that (v_size a = 0)) (\<lambda>_.
      and_then (assert_that (vector_empty a)) (\<lambda>_.
      and_then (push_back (h_realloc H) sizeof_bool True a h) (\<lambda>(a, h).
      and_then (push_back (h_realloc H) sizeof_bool False a h) (\<lambda>(a, h).
      and_then (push_back (h_realloc H) sizeof_bool True a h) (\<lambda>(a, h).
      and_then (of_option (for_each sizeof_bool a (vector_begin a) (vector_end sizeof_bool a) [])) (\<lambda>_.
      and_then (assert_that (v_size a = 3)) (\<lambda>_.
      and_then (vector_nth sizeof_bool a 0) (\<lambda>e. and_then (assert_that (e = True)) (\<lambda>_.
      let a = vector_clear a in
      and_then (assert_that (vector_empty a)) (\<lambda>_.
      and_then (assert_that (v_size a = 0)) (\<lambda>_.
      let b = new_vector junk2 in
      and_then (push_all (h_realloc H) sizeof_int [0..99] b h) (\<lambda>(b, h).
      and_then (assert_that (v_size b = 100)) (\<lambda>_.
      and_then (of_option (for_each sizeof_int b (vector_begin b) (vector_end sizeof_int b) [])) (\<lambda>js.
      and_then (count_up 0 js) (\<lambda>_.
      let b = vector_clear b in
      and_then (assert_that (vector_empty b)) (\<lambda>_.
      and_then (delete_vector (h_free H) b h) (\<lambda>h.
      and_then (delete_vector (h_free H) a h) (\<lambda>h. Done (0, h))))))))))))))))))))"

text \<open>\<open>assert (a[i] == c)\<close>\<close>

definition assert_char :: "str \<Rightarrow> u64 \<Rightarrow> char \<Rightarrow> unit outcome" where
  "assert_char a i c = and_then (string_nth a i) (\<lambda>d. assert_that (d = c))"

definition testStringBase :: "'h host \<Rightarrow> 'h \<Rightarrow> 'h outcome" where
  "testStringBase H h =
     and_then (string_of_cstr_with (h_strdup H) (Some ''Hello'') h) (\<lambda>(a, h).
     and_then (assert_that (c_str a = Some ''Hello'')) (\<lambda>_.
     and_then (assert_that (s_size a = of_nat (strlen ''Hello''))) (\<lambda>_.
     and_then (assert_char a 0 (CHR ''H'')) (\<lambda>_.
     and_then (assert_char a 1 (CHR ''e'')) (\<lambda>_.
     and_then (assert_char a 2 (CHR ''l'')) (\<lambda>_.
     and_then (assert_char a 3 (CHR ''l'')) (\<lambda>_.
     and_then (assert_char a 4 (CHR ''o'')) (\<lambda>_.
     and_then (string_copy_with (h_strdup H) a h) (\<lambda>(b, h).
     and_then (eq_string a b) (\<lambda>e. and_then (assert_that e) (\<lambda>_.
     and_then (h_free H (s_ptr b) h) (\<lambda>h.
     h_free H (s_ptr a) h))))))))))))"

text \<open>The destructor of the vector frees its block, but destroys no element.\<close>

definition testVectorString :: "'h host \<Rightarrow> (nat \<Rightarrow> str) \<Rightarrow> 'h \<Rightarrow> 'h outcome" where
  "testVectorString H junk h =
     (let push = push_string_with (h_strdup H) (h_realloc H) (h_free H) in
      and_then (push (Some ''Hello'') (new_vector junk) h) (\<lambda>(v, h).
      and_then (push (Some ''World'') v h) (\<lambda>(v, h).
      and_then (assert_that (v_size v = 2)) (\<lambda>_.
      and_then (vector_nth sizeof_string v 0) (\<lambda>s. and_then (eq_cstr s (Some ''Hello'')) (\<lambda>e. and_then (assert_that e) (\<lambda>_.
      and_then (vector_nth sizeof_string v 1) (\<lambda>s. and_then (eq_cstr s (Some ''World'')) (\<lambda>e. and_then (assert_that e) (\<lambda>_.
      delete_vector (h_free H) v h))))))))))"

definition testString :: "'h host \<Rightarrow> (nat \<Rightarrow> str) \<Rightarrow> 'h \<Rightarrow> (int \<times> 'h) outcome" where
  "testString H junk h =
     and_then (testStringBase H h) (\<lambda>h. and_then (testVectorString H junk h) (\<lambda>h. Done (0, h)))"

text \<open>\<open>main\<close>.\<close>

definition main_tests ::
    "'h host \<Rightarrow> (nat \<Rightarrow> bool) \<Rightarrow> (nat \<Rightarrow> int) \<Rightarrow> (nat \<Rightarrow> str) \<Rightarrow> 'h \<Rightarrow> (int \<times> 'h) outcome" where
  "main_tests H junk1 junk2 junk3 h =
     and_then (testVector H junk1 junk2 h) (\<lambda>(_, h).
     and_then (testString H junk3 h) (\<lambda>(_, h).
     and_then testExpected (\<lambda>_.
     and_then testOptional (\<lambda>_. Done (0, h)))))"

section \<open>The contract of the host's memory functions\<close>

text \<open>
  \<open>strdup\<close> takes a new block for the text and its terminator, \<open>free\<close> gives a live block back; \<open>room\<close>
  counts the allocations that are sure to succeed.
\<close>

definition strdup_law :: "'h dup \<Rightarrow> ('h \<Rightarrow> u64 \<rightharpoonup> u64) \<Rightarrow> ('h \<Rightarrow> nat) \<Rightarrow> bool" where
  "strdup_law dup live room \<longleftrightarrow> (\<forall>h t. 0 < room h \<longrightarrow>
     (\<exists>q h'. dup (Some t) h = Done (q, h') \<and> q \<noteq> 0 \<and> live h q = None \<and>
        live h' = (live h)(q \<mapsto> of_nat (strlen t) + 1) \<and> room h \<le> room h' + 1))"

definition free_law :: "(u64 \<Rightarrow> 'h \<Rightarrow> 'h outcome) \<Rightarrow> ('h \<Rightarrow> u64 \<rightharpoonup> u64) \<Rightarrow> ('h \<Rightarrow> nat) \<Rightarrow> bool" where
  "free_law free live room \<longleftrightarrow> (\<forall>h p. live h p \<noteq> None \<longrightarrow>
     (\<exists>h'. free p h = Done h' \<and> live h' = (live h)(p := None) \<and> room h \<le> room h'))"

definition host_law :: "'h host \<Rightarrow> ('h \<Rightarrow> u64 \<rightharpoonup> u64) \<Rightarrow> ('h \<Rightarrow> nat) \<Rightarrow> bool" where
  "host_law H live room \<longleftrightarrow> strdup_law (h_strdup H) live room \<and> realloc_law (h_realloc H) live room \<and>
     free_law (h_free H) live room \<and> (\<forall>h. live h 0 = None)"

lemma host_lawD:
  assumes "host_law H live room"
  shows "strdup_law (h_strdup H) live room" "realloc_law (h_realloc H) live room"
    "free_law (h_free H) live room" "live h 0 = None"
  using assms by (simp_all add: host_law_def)

lemma free_lawE:
  assumes "free_law free live room" "live h p = Some z"
  obtains h' where "free p h = Done h'" "live h' = (live h)(p := None)" "room h \<le> room h'"
  using assms unfolding free_law_def by blast

lemma make_string_host:
  assumes law: "strdup_law dup live room" "0 < room h" and t: "NUL \<notin> set t"
  obtains p h' where "make_string_with dup (Some t) sz h = Done (\<lparr>s_ptr = p, s_text = t, s_size = sz\<rparr>, h')"
    "p \<noteq> 0" "live h p = None" "live h' = (live h)(p \<mapsto> of_nat (length t) + 1)" "room h \<le> room h' + 1"
proof -
  from law obtain q h' where "dup (Some t) h = Done (q, h')" "q \<noteq> 0" "live h q = None"
    "live h' = (live h)(q \<mapsto> of_nat (strlen t) + 1)" "room h \<le> room h' + 1"
    unfolding strdup_law_def by blast
  then show ?thesis using that t by (simp add: make_string_with_def strlen_no_nul)
qed

text \<open>One string pushed: the temporary is gone, the element and the vector's block are live.\<close>

lemma push_string_host:
  assumes H: "host_law H live room" and v: "grown_ok live sizeof_string v h"
    and fits: "(2 * unat (v_size v) + 10) * unat sizeof_string < 2 ^ 64" and room: "2 < room h"
    and t: "NUL \<notin> set t" "length t < 2 ^ 63"
  obtains v' h' e where "push_string_with (h_strdup H) (h_realloc H) (h_free H) (Some t) v h = Done (v', h')"
    "vector_list v' = vector_list v @ [e]" "string_ok e" "s_text e = t"
    "grown_ok live sizeof_string v' h'" "v_data v' \<noteq> 0" "((live h)(v_data v := None)) (v_data v') = None"
    "s_ptr e \<noteq> v_data v'" "((live h)(v_data v := None)) (s_ptr e) = None"
    "live h' = (live h)(v_data v := None, v_data v' \<mapsto> v_reservation v' * sizeof_string,
       s_ptr e \<mapsto> of_nat (length t) + 1)"
    "room h \<le> room h' + 3"
proof -
  note law = host_lawD [OF H]
  let ?n = "of_nat (length t) :: u64"
  have "0 < room h" using room by simp
  from make_string_host [OF law(1) this t(1), of ?n] obtain p h1 where
    1: "make_string_with (h_strdup H) (Some t) ?n h = Done (\<lparr>s_ptr = p, s_text = t, s_size = ?n\<rparr>, h1)"
      "p \<noteq> 0" "live h p = None" "live h1 = (live h)(p \<mapsto> ?n + 1)" "room h \<le> room h1 + 1" .
  have pv: "p \<noteq> v_data v" using v 1(2,3) by (auto simp: grown_ok_def)
  then have v1: "grown_ok live sizeof_string v h1" using v 1(4) by (auto simp: grown_ok_def)
  have "0 < room h1" "0 < unat sizeof_string" using room 1(5) by (simp_all add: sizeof_string_def)
  from doRealloc_grown [OF law(2,4) this(1) v1 fits this(2)] obtain v2 h2 where
    2: "doRealloc (h_realloc H) sizeof_string v h1 = Done (v2, h2)" "v_size v2 = v_size v" "v_elems v2 = v_elems v"
      "v_data v2 \<noteq> 0" "unat (v_size v2) < unat (v_reservation v2)" "grown_ok live sizeof_string v2 h2"
      "((live h1)(v_data v := None)) (v_data v2) = None" "room h1 \<le> room h2 + 1"
      "live h2 = (live h1)(v_data v := None, v_data v2 \<mapsto> v_reservation v2 * sizeof_string)" .
  have p2: "p \<noteq> v_data v2" using 2(7) 1(4) pv by auto
  have "0 < room h2" using room 1(5) 2(8) by simp
  then obtain q h3 where 3: "h_strdup H (Some t) h2 = Done (q, h3)" "q \<noteq> 0" "live h2 q = None"
    "live h3 = (live h2)(q \<mapsto> ?n + 1)" "room h2 \<le> room h3 + 1"
    using law(1) strlen_no_nul [OF t(1)] unfolding strdup_law_def by metis
  have "live h3 p = Some (?n + 1)" using 1(4) 2(9) 3(3,4) pv p2 by auto
  from free_lawE [OF law(3) this] obtain h4 where
    4: "h_free H p h3 = Done h4" "live h4 = (live h3)(p := None)" "room h3 \<le> room h4" .
  define e where "e = (v_elems v2 (unat (v_size v2)))\<lparr>s_ptr := q, s_text := t, s_size := ?n\<rparr>"
  have qp: "q \<noteq> p" "q \<noteq> v_data v2" using 3(3) 1(4) 2(9) pv p2 by auto
  have live4: "live h4 = (live h)(v_data v := None, v_data v2 \<mapsto> v_reservation v2 * sizeof_string, q \<mapsto> ?n + 1)"
    unfolding 4(2) 3(4) 2(9) 1(4) using 1(3) pv p2 qp by (auto simp: fun_eq_iff)
  then have v4: "grown_ok live sizeof_string v2 h4" using 2(4,6) qp(2) by (simp add: grown_ok_def)
  note s = store_grown(1) [OF 2(4,5) v4] store_grown(2-4) [OF 2(4,5) v4, where x = e]
  show ?thesis
  proof (rule that [of "stored e v2" h4 e])
    show "push_string_with (h_strdup H) (h_realloc H) (h_free H) (Some t) v h = Done (stored e v2, h4)"
      using 1(1,2) 2(1) 3(1) 4(1) s(1) t(1)
      by (simp add: push_string_with_def string_of_cstr_with_def string_assign_with_def c_str_def
          strlen_no_nul stored_def e_def)
    show "vector_list (stored e v2) = vector_list v @ [e]" using s(3) 2(2,3) by (simp add: vector_list_def)
    show "string_ok e" "s_text e = t" using 3(2) t by (simp_all add: e_def string_ok_def)
    show "((live h)(v_data v := None)) (s_ptr e) = None" using 3(3) 2(9) 1(4) qp by (auto simp: e_def split: if_splits)
  qed (use s 2 1 3 4 qp live4 in \<open>auto simp: stored_def e_def split: if_splits\<close>)
qed

section \<open>The tests pass\<close>

lemma count_up_list: "count_up i [i..j] = Done ()"
proof (induction "nat (j - i + 1)" arbitrary: i)
  case (Suc n)
  then have "[i..j] = i # [i + 1..j]" by (intro upto_rec1) simp
  then show ?case using Suc(1) [of "i + 1"] Suc(2) by simp
qed simp

lemma push_back_grown:
  assumes "host_law H live room" "grown_ok live tsz v h" "0 < unat tsz" "0 < room h"
    and "(2 * unat (v_size v) + 10) * unat tsz < 2 ^ 64"
  obtains v' h' where "push_back (h_realloc H) tsz x v h = Done (v', h')" "vector_list v' = vector_list v @ [x]"
    "grown_ok live tsz v' h'" "v_data v' \<noteq> 0" "((live h)(v_data v := None)) (v_data v') = None"
    "live h' = (live h)(v_data v := None, v_data v' \<mapsto> v_reservation v' * tsz)" "room h \<le> room h' + 1"
proof -
  from doRealloc_grown [OF host_lawD(2,4) [OF assms(1)] assms(4,2,5,3)] obtain v1 h' where
    d: "doRealloc (h_realloc H) tsz v h = Done (v1, h')" "v_size v1 = v_size v" "v_elems v1 = v_elems v"
      "v_data v1 \<noteq> 0" "unat (v_size v1) < unat (v_reservation v1)" "grown_ok live tsz v1 h'"
      "((live h)(v_data v := None)) (v_data v1) = None" "room h \<le> room h' + 1"
      "live h' = (live h)(v_data v := None, v_data v1 \<mapsto> v_reservation v1 * tsz)" .
  note s = store_grown(1) [OF d(4-6)] store_grown(2-4) [OF d(4-6), where x = x]
  have "push_back (h_realloc H) tsz x v h = Done (stored x v1, h')"
    using d(1) s(1) by (simp add: push_back_def stored_def)
  moreover have "vector_list v1 = vector_list v" by (simp add: vector_list_def d(2,3))
  ultimately show ?thesis using s(3,4) d by (intro that [of "stored x v1" h']) simp_all
qed

text \<open>A vector in use: its block is the only difference to the memory before it was made.\<close>

definition in_use :: "('h \<Rightarrow> u64 \<rightharpoonup> u64) \<Rightarrow> u64 \<Rightarrow> (u64 \<rightharpoonup> u64) \<Rightarrow> 'a vector \<Rightarrow> 'h \<Rightarrow> bool" where
  "in_use live tsz m v h \<longleftrightarrow> grown_ok live tsz v h \<and> m (v_data v) = None \<and>
     live h = (if v_data v = 0 then m else m(v_data v \<mapsto> v_reservation v * tsz))"

lemma in_use_new: "m 0 = None \<Longrightarrow> live h = m \<Longrightarrow> in_use live tsz m (new_vector junk) h"
  by (simp add: in_use_def grown_ok_new) (simp add: new_vector_def)

lemma in_use_push:
  assumes "host_law H live room" "in_use live tsz m v h" "0 < unat tsz" "0 < room h"
    and "(2 * unat (v_size v) + 10) * unat tsz < 2 ^ 64"
  obtains v' h' where "push_back (h_realloc H) tsz x v h = Done (v', h')" "vector_list v' = vector_list v @ [x]"
    "in_use live tsz m v' h'" "v_data v' \<noteq> 0" "room h \<le> room h' + 1"
proof -
  have g: "grown_ok live tsz v h" using assms(2) by (simp add: in_use_def)
  from push_back_grown [OF assms(1) g assms(3-5), of x] obtain v' h' where
    p: "push_back (h_realloc H) tsz x v h = Done (v', h')" "vector_list v' = vector_list v @ [x]"
    "grown_ok live tsz v' h'" "v_data v' \<noteq> 0" "((live h)(v_data v := None)) (v_data v') = None"
    "live h' = (live h)(v_data v := None, v_data v' \<mapsto> v_reservation v' * tsz)" "room h \<le> room h' + 1" .
  have "(live h)(v_data v := None) = m" using assms(2) by (auto simp: in_use_def fun_eq_iff split: if_splits)
  then have "in_use live tsz m v' h'" using p(3-6) by (simp add: in_use_def)
  then show ?thesis using that p by blast
qed

lemma in_use_push_all:
  assumes "host_law H live room" "0 < unat tsz" "in_use live tsz m v h"
    and "length xs \<le> room h" "(2 * (unat (v_size v) + length xs) + 10) * unat tsz < 2 ^ 64"
  shows "\<exists>v' h'. push_all (h_realloc H) tsz xs v h = Done (v', h') \<and> vector_list v' = vector_list v @ xs \<and>
    in_use live tsz m v' h' \<and> room h \<le> room h' + length xs"
  using assms(3-5)
proof (induction xs arbitrary: v h)
  case (Cons x xs)
  have "2 * unat (v_size v) + 10 \<le> 2 * (unat (v_size v) + length (x # xs)) + 10" by simp
  from le_less_trans [OF mult_le_mono1 [OF this] Cons.prems(3)]
  have f: "(2 * unat (v_size v) + 10) * unat tsz < 2 ^ 64" .
  have "0 < room h" using Cons.prems(2) by simp
  from in_use_push [OF assms(1) Cons.prems(1) assms(2) this f, of x] obtain v1 h1 where
    p: "push_back (h_realloc H) tsz x v h = Done (v1, h1)" "vector_list v1 = vector_list v @ [x]"
    "in_use live tsz m v1 h1" "room h \<le> room h1 + 1" .
  have s: "unat (v_size v1) = unat (v_size v) + 1" using arg_cong [OF p(2), of length] by simp
  have "length xs \<le> room h1" "(2 * (unat (v_size v1) + length xs) + 10) * unat tsz < 2 ^ 64"
    using p(4) Cons.prems(2,3) s by simp_all
  from Cons.IH [OF p(3) this] p show ?case by auto
qed auto

lemma in_use_delete:
  assumes "host_law H live room" "in_use live tsz m v h"
  obtains h' where "delete_vector (h_free H) v h = Done h'" "live h' = m" "room h \<le> room h'"
proof (cases "v_data v = 0")
  case True
  then show ?thesis using that [of h] assms(2) by (simp add: delete_vector_def in_use_def)
next
  case False
  then have "live h (v_data v) = Some (v_reservation v * tsz)" using assms(2) by (simp add: in_use_def)
  from free_lawE [OF host_lawD(3) [OF assms(1)] this] obtain h' where
    "h_free H (v_data v) h = Done h'" "live h' = (live h)(v_data v := None)" "room h \<le> room h'" .
  then show ?thesis using that [of h'] False assms(2) by (simp add: delete_vector_def in_use_def fun_upd_idem)
qed

lemma in_use_iterates:
  "in_use live tsz m v h \<Longrightarrow> 0 < unat tsz \<Longrightarrow>
    for_each tsz v (vector_begin v) (vector_end tsz v) [] = Some (vector_list v)"
  by (auto simp: in_use_def intro: grown_iterates)

lemma in_use_cong: "in_use live tsz m v h \<Longrightarrow> live h' = live h \<Longrightarrow> in_use live tsz m v h'"
  unfolding in_use_def grown_ok_def by auto

text \<open>Clearing keeps the block.\<close>

lemma in_use_clear: "in_use live tsz m v h \<Longrightarrow> in_use live tsz m (vector_clear v) h"
  by (auto simp: in_use_def grown_ok_def vector_clear_def)

lemma in_use_nth:
  assumes "in_use live tsz m v h" "unat i < unat (v_size v)" "0 < unat tsz"
  shows "vector_nth tsz v i = Done (vector_list v ! unat i)"
proof -
  have g: "grown_ok live tsz v h" "v_data v \<noteq> 0" using assms(1,2) by (auto simp: in_use_def grown_ok_def)
  then have f: "unat (v_reservation v) * unat tsz < 2 ^ 64" "v_size v \<le> v_reservation v"
    by (simp_all add: grown_ok_def)
  have "unat i + 1 \<le> unat (v_reservation v)" using f(2) assms(2) by (simp add: word_le_nat_alt)
  from mult_le_mono1 [OF this, of "unat tsz"] show ?thesis
    using g(2) f(1) assms(2) by (simp add: vector_nth_def in_block_def unat_word_ariths vector_list_def)
qed

lemma testVector_passes:
  assumes H: "host_law H live room" and r: "103 \<le> room h"
  obtains h' where "testVector H junk1 junk2 h = Done (0, h')" "live h' = live h" "room h \<le> room h' + 103"
proof -
  let ?m = "live h"
  have z: "?m 0 = None" by (rule host_lawD(4) [OF H])
  have b: "0 < unat sizeof_bool" "0 < unat sizeof_int" by (simp_all add: sizeof_bool_def sizeof_int_def)
  have new: "in_use live sizeof_bool ?m (new_vector junk1) h" by (rule in_use_new [where m = ?m]) (simp_all add: z)
  have s0: "v_size (new_vector junk1) = 0" "vector_list (new_vector junk1) = []"
    by (simp_all add: new_vector_def vector_list_def)
  have f: "(2 * unat (v_size v) + 10) * unat sizeof_bool < 2 ^ 64" if "unat (v_size v) \<le> 2" for v :: "bool vector"
    using that by (simp add: sizeof_bool_def)
  have "0 < room h" "unat (v_size (new_vector junk1)) \<le> 2" using r s0 by simp_all
  from in_use_push [OF H new b(1) this(1) f [OF this(2)], of True] obtain a1 h1 where 1:
    "push_back (h_realloc H) sizeof_bool True (new_vector junk1) h = Done (a1, h1)"
    "vector_list a1 = vector_list (new_vector junk1) @ [True]"
    "in_use live sizeof_bool ?m a1 h1" "room h \<le> room h1 + 1" .
  have "0 < room h1" "unat (v_size a1) \<le> 2" using r 1(4) arg_cong [OF 1(2), of length] s0 by simp_all
  from in_use_push [OF H 1(3) b(1) this(1) f [OF this(2)], of False] obtain a2 h2 where 2:
    "push_back (h_realloc H) sizeof_bool False a1 h1 = Done (a2, h2)" "vector_list a2 = vector_list a1 @ [False]"
    "in_use live sizeof_bool ?m a2 h2" "room h1 \<le> room h2 + 1" .
  have "0 < room h2" "unat (v_size a2) \<le> 2"
    using r 1(4) 2(4) arg_cong [OF 2(2), of length] arg_cong [OF 1(2), of length] s0 by simp_all
  from in_use_push [OF H 2(3) b(1) this(1) f [OF this(2)], of True] obtain a3 h3 where 3:
    "push_back (h_realloc H) sizeof_bool True a2 h2 = Done (a3, h3)" "vector_list a3 = vector_list a2 @ [True]"
    "in_use live sizeof_bool ?m a3 h3" "room h2 \<le> room h3 + 1" .
  have l3: "vector_list a3 = [True, False, True]" using 1(2) 2(2) 3(2) s0(2) by simp
  have s3: "v_size a3 = 3" using arg_cong [OF l3, of length] by (simp add: word_unat_eq_iff)
  let ?a = "vector_clear a3"
  have ua: "in_use live sizeof_bool ?m ?a h3" by (rule in_use_clear [OF 3(3)])
  have zb: "live h3 0 = None" by (rule host_lawD(4) [OF H])
  have s4: "unat (v_size (new_vector junk2 :: int vector)) = 0" "vector_list (new_vector junk2 :: int vector) = []"
    by (simp_all add: new_vector_def vector_list_def)
  have "in_use live sizeof_int (live h3) (new_vector junk2 :: int vector) h3"
    by (rule in_use_new) (simp_all add: zb)
  moreover have "length [0 .. 99 :: int] \<le> room h3" using r 1(4) 2(4) 3(4) by simp
  moreover have "(2 * (unat (v_size (new_vector junk2 :: int vector)) + length [0 .. 99 :: int]) + 10) * unat sizeof_int < 2 ^ 64"
    by (simp add: s4 sizeof_int_def)
  ultimately obtain v h4 where 4:
    "push_all (h_realloc H) sizeof_int [0..99] (new_vector junk2) h3 = Done (v, h4)" "vector_list v = [0..99]"
    "in_use live sizeof_int (live h3) v h4" "room h3 \<le> room h4 + 100"
    using in_use_push_all [OF H b(2), of "live h3" "new_vector junk2" h3 "[0..99]"] s4(2) by auto
  have "unat (v_size v) = 100" using arg_cong [OF 4(2), of length] by simp
  then have s5: "v_size v = 100" by (simp add: word_unat_eq_iff)
  from in_use_delete [OF H in_use_clear [OF 4(3)]] obtain h5 where 5:
    "delete_vector (h_free H) (vector_clear v) h4 = Done h5" "live h5 = live h3" "room h4 \<le> room h5" .
  have "in_use live sizeof_bool ?m ?a h5" by (rule in_use_cong [OF ua 5(2)])
  from in_use_delete [OF H this] obtain h6 where 6:
    "delete_vector (h_free H) ?a h5 = Done h6" "live h6 = ?m" "room h5 \<le> room h6" .
  have "vector_nth sizeof_bool a3 0 = Done True" using in_use_nth [OF 3(3) _ b(1), of 0] s3 l3 by simp
  then have "testVector H junk1 junk2 h = Done (0, h6)"
    using 1(1) 2(1) 3(1) 4(1) 5(1) 6(1) s3 s5
      in_use_iterates [OF 3(3) b(1)] in_use_iterates [OF 4(3) b(2)] 4(2) count_up_list [of 0 99] s0(1) s4(1)
    by (simp add: testVector_def Let_def vector_empty_def) (simp add: vector_clear_def)
  then show ?thesis using that 6 1(4) 2(4) 3(4) 4(4) 5(3) by simp
qed

lemma testStringBase_passes:
  assumes H: "host_law H live room" and r: "2 \<le> room h"
  obtains h' where "testStringBase H h = Done h'" "live h' = live h" "room h \<le> room h' + 2"
proof -
  note law = host_lawD [OF H]
  have n: "NUL \<notin> set ''Hello''" by code_simp
  have l: "strlen ''Hello'' = 5" "length ''Hello'' = 5" using strlen_no_nul [OF n] by simp_all
  have "0 < room h" using r by simp
  from make_string_host [OF law(1) this n, of 5] obtain p h1 where
    1: "make_string_with (h_strdup H) (Some ''Hello'') 5 h = Done (\<lparr>s_ptr = p, s_text = ''Hello'', s_size = 5\<rparr>, h1)"
      "p \<noteq> 0" "live h p = None" "live h1 = (live h)(p \<mapsto> of_nat (length ''Hello'') + 1)" "room h \<le> room h1 + 1" .
  have "0 < room h1" using r 1(5) by simp
  from make_string_host [OF law(1) this n, of 5] obtain q h2 where
    2: "make_string_with (h_strdup H) (Some ''Hello'') 5 h1 = Done (\<lparr>s_ptr = q, s_text = ''Hello'', s_size = 5\<rparr>, h2)"
      "q \<noteq> 0" "live h1 q = None" "live h2 = (live h1)(q \<mapsto> of_nat (length ''Hello'') + 1)" "room h1 \<le> room h2 + 1" .
  from free_lawE [OF law(3), of h2 q] 2(4) obtain h3 where
    3: "h_free H q h2 = Done h3" "live h3 = (live h2)(q := None)" "room h2 \<le> room h3" by auto
  have l3: "live h3 = live h1" using 3(2) 2(3,4) by auto
  from free_lawE [OF law(3), of h3 p] l3 1(4) obtain h4 where
    4: "h_free H p h3 = Done h4" "live h4 = (live h3)(p := None)" "room h3 \<le> room h4" by auto
  have "live h4 = live h" using 4(2) l3 1(3,4) by auto
  moreover have "string_ok \<lparr>s_ptr = x, s_text = ''Hello'', s_size = 5\<rparr>" if "x \<noteq> 0" for x
    using that n by (simp add: string_ok_def)
  then have "testStringBase H h = Done h4"
    using 1(1,2) 2(1,2) 3(1) 4(1) l
    by (simp add: testStringBase_def string_of_cstr_with_def string_copy_with_def c_str_def assert_char_def
        string_nth_def char_at_def eq_string_ok)
  ultimately show ?thesis using that 1(5) 2(5) 3(3) 4(3) by simp
qed

lemma testVectorString_passes:
  assumes H: "host_law H live room" and r: "6 \<le> room h"
  obtains h' p q where "testVectorString H junk h = Done h'" "p \<noteq> q" "live h p = None" "live h q = None"
    "live h' = (live h)(p \<mapsto> 6, q \<mapsto> 6)"
proof -
  have z: "live h 0 = None" by (rule host_lawD(4) [OF H])
  have n: "NUL \<notin> set ''Hello''" "NUL \<notin> set ''World''" by code_simp+
  have l: "length ''Hello'' < 2 ^ 63" "length ''World'' < 2 ^ 63" by simp_all
  have f: "(2 * unat (v_size v) + 10) * unat sizeof_string < 2 ^ 64" if "unat (v_size v) \<le> 1" for v :: "str vector"
    using that by (simp add: sizeof_string_def)
  have v0: "v_data (new_vector junk) = 0" "vector_list (new_vector junk) = []" "unat (v_size (new_vector junk)) \<le> 1"
    by (simp_all add: new_vector_def vector_list_def)
  have "2 < room h" using r by simp
  from push_string_host [OF H grown_ok_new f [OF v0(3)] this n(1) l(1)] obtain v1 h1 e where
    1: "push_string_with (h_strdup H) (h_realloc H) (h_free H) (Some ''Hello'') (new_vector junk) h = Done (v1, h1)"
    "vector_list v1 = vector_list (new_vector junk) @ [e]" "string_ok e" "s_text e = ''Hello''"
    "grown_ok live sizeof_string v1 h1" "v_data v1 \<noteq> 0"
    "((live h)(v_data (new_vector junk) := None)) (v_data v1) = None" "s_ptr e \<noteq> v_data v1"
    "((live h)(v_data (new_vector junk) := None)) (s_ptr e) = None"
    "live h1 = (live h)(v_data (new_vector junk) := None, v_data v1 \<mapsto> v_reservation v1 * sizeof_string,
       s_ptr e \<mapsto> of_nat (length ''Hello'') + 1)" "room h \<le> room h1 + 3" .
  have s1: "unat (v_size v1) = 1" using arg_cong [OF 1(2), of length] v0(2) by simp
  then have "2 < room h1" "unat (v_size v1) \<le> 1" using r 1(11) by simp_all
  from push_string_host [OF H 1(5) f [OF this(2)] this(1) n(2) l(2)] obtain v2 h2 d where
    2: "push_string_with (h_strdup H) (h_realloc H) (h_free H) (Some ''World'') v1 h1 = Done (v2, h2)"
    "vector_list v2 = vector_list v1 @ [d]" "string_ok d" "s_text d = ''World''"
    "grown_ok live sizeof_string v2 h2" "v_data v2 \<noteq> 0" "((live h1)(v_data v1 := None)) (v_data v2) = None"
    "s_ptr d \<noteq> v_data v2" "((live h1)(v_data v1 := None)) (s_ptr d) = None"
    "live h2 = (live h1)(v_data v1 := None, v_data v2 \<mapsto> v_reservation v2 * sizeof_string,
       s_ptr d \<mapsto> of_nat (length ''World'') + 1)" .
  have l2: "vector_list v2 = [e, d]" using 1(2) 2(2) v0(2) by simp
  have s2: "v_size v2 = 2" using arg_cong [OF l2, of length] by (simp add: word_unat_eq_iff)
  have "live h2 (v_data v2) \<noteq> None" using 2(10) 2(8) by simp
  then obtain h3 where 3: "h_free H (v_data v2) h2 = Done h3" "live h3 = (live h2)(v_data v2 := None)"
    using free_lawE [OF host_lawD(3) [OF H]] by blast
  have m0: "(live h)(v_data (new_vector junk) := None) = live h" using z v0(1) by (simp add: fun_upd_idem)
  have a: "live h (v_data v1) = None" "live h (s_ptr e) = None" using 1(7,9) by (simp_all only: m0)
  have h1: "live h1 = (live h)(v_data v1 \<mapsto> v_reservation v1 * sizeof_string, s_ptr e \<mapsto> 6)"
    using 1(10) by (simp only: m0) simp
  have b: "v_data v2 \<noteq> s_ptr e" "live h (v_data v2) = None"
    using 2(7) a 1(8) unfolding h1 by (auto split: if_splits)
  have d: "s_ptr e \<noteq> s_ptr d" "live h (s_ptr d) = None"
    using 2(9) a 1(8) unfolding h1 by (auto split: if_splits)
  have live3: "live h3 = (live h)(s_ptr e \<mapsto> 6, s_ptr d \<mapsto> 6)"
  proof
    fix x show "live h3 x = ((live h)(s_ptr e \<mapsto> 6, s_ptr d \<mapsto> 6)) x"
      using a b d 1(8) 2(8) by (simp add: 3(2) 2(10) h1)
  qed
  have u: "in_use live sizeof_string ((live h2)(v_data v2 := None)) v2 h2"
    using 2(5,6,8,10) by (auto simp: in_use_def fun_eq_iff)
  have "0 < unat sizeof_string" by (simp add: sizeof_string_def)
  then have nth: "vector_nth sizeof_string v2 0 = Done e" "vector_nth sizeof_string v2 1 = Done d"
    using in_use_nth [OF u, of 0] in_use_nth [OF u, of 1] s2 l2 by simp_all
  have "testVectorString H junk h = Done h3"
    using 1(1) 2(1,6) 3(1) s2 nth eq_cstr_ok [OF 1(3) n(1)] eq_cstr_ok [OF 2(3) n(2)] 1(4) 2(4)
    by (simp add: testVectorString_def delete_vector_def Let_def)
  then show ?thesis using that a(2) d live3 by blast
qed


text \<open>A host: the allocator of fresh addresses.\<close>

definition bump_host :: "(u64 \<times> (u64 \<rightharpoonup> u64)) host" where
  "bump_host = \<lparr>h_strdup = (\<lambda>t. bump 0 (case t of None \<Rightarrow> 1 | Some s \<Rightarrow> of_nat (strlen s) + 1)),
     h_realloc = bump, h_free = (\<lambda>p (n, m). Done (n, m(p := None)))\<rparr>"

lemma bump_host_law: "host_law bump_host bump_live bump_room"
proof -
  have z: "bump_live h 0 = None" for h by (cases h) simp
  have "strdup_law (h_strdup bump_host) bump_live bump_room"
    unfolding strdup_law_def
  proof (intro allI impI)
    fix h :: "u64 \<times> (u64 \<rightharpoonup> u64)" and t assume "0 < bump_room h"
    with bump_law [unfolded realloc_law_def, rule_format, of 0 h "of_nat (strlen t) + 1"] z [of h]
    show "\<exists>q h'. h_strdup bump_host (Some t) h = Done (q, h') \<and> q \<noteq> 0 \<and> bump_live h q = None \<and>
        bump_live h' = (bump_live h)(q \<mapsto> of_nat (strlen t) + 1) \<and> bump_room h \<le> bump_room h' + 1"
      by (simp add: bump_host_def fun_upd_idem)
  qed
  moreover have "free_law (h_free bump_host) bump_live bump_room"
    unfolding free_law_def
  proof (intro allI impI)
    fix h :: "u64 \<times> (u64 \<rightharpoonup> u64)" and p assume "bump_live h p \<noteq> None"
    then show "\<exists>h'. h_free bump_host p h = Done h' \<and> bump_live h' = (bump_live h)(p := None) \<and> bump_room h \<le> bump_room h'"
      by (cases h) (auto simp: bump_host_def fun_upd_twist)
  qed
  ultimately show ?thesis using bump_law z by (simp add: host_law_def) (simp add: bump_host_def)
qed


end
