(* ===== verification/Kernel.thy ===== *)
theory Kernel
  imports Expected
begin

text \<open>
  The seL4 kernel as the root server sees it. The kernel is not part of the repository, so what it
  answers is a parameter: \<open>respond\<close> gives the error code of a call from the history of the calls
  made so far, which covers every kernel whose answers depend on what was asked before. The history
  is part of the model's state (\<open>calls\<close>), so that theorems can speak about what was asked of the
  kernel. The constant capabilities of the initial thread (\<open>seL4_CapInitThreadCNode\<close>,
  \<open>seL4_CapInitThreadVSpace\<close>, \<open>seL4_CapInitThreadTCB\<close>, \<open>seL4_CapIOPortControl\<close>) and the constant
  arguments (\<open>seL4_WordBits\<close>, attributes, offsets) are left out of the calls.
\<close>

text \<open>The error codes that \<open>seL4::errorStr\<close> lists; \<open>OtherError\<close> is any other value.\<close>

datatype seL4_Error =
    NoError | InvalidArgument | InvalidCapability | IllegalOperation | RangeError
  | AlignmentError | FailedLookup | TruncatedMessage | DeleteFirst | RevokeFirst
  | NotEnoughMemory | OtherError u64

fun errorStr :: "seL4_Error \<Rightarrow> string option" where
  "errorStr NoError = Some ''seL4_NoError''"
| "errorStr InvalidArgument = Some ''seL4_InvalidArgument''"
| "errorStr InvalidCapability = Some ''seL4_InvalidCapability''"
| "errorStr IllegalOperation = Some ''seL4_IllegalOperation''"
| "errorStr RangeError = Some ''seL4_RangeError''"
| "errorStr AlignmentError = Some ''seL4_AlignmentError''"
| "errorStr FailedLookup = Some ''seL4_FailedLookup''"
| "errorStr TruncatedMessage = Some ''seL4_TruncatedMessage''"
| "errorStr DeleteFirst = Some ''seL4_DeleteFirst''"
| "errorStr RevokeFirst = Some ''seL4_RevokeFirst''"
| "errorStr NotEnoughMemory = Some ''seL4_NotEnoughMemory''"
| "errorStr (OtherError w) = None"

datatype obj_type =
    TCBObject | EndpointObject | NotificationObject
  | X86_4K | X86_PageTableObject | X86_PageDirectoryObject | X86_PDPTObject

text \<open>The registers \<open>Thread::start\<close> sets; \<open>others\<close> stands for the rest of the context.\<close>

record user_context =
  rip :: u64
  rsp :: u64
  rbp :: u64
  rdi :: u64
  rsi :: u64
  rdx :: u64
  others :: "u64 list"

datatype kcall =
    Untyped_Retype CPtr obj_type CPtr
  | Page_Map CPtr u64 u64
  | Page_Unmap CPtr
  | PageTable_Map CPtr u64
  | PageDirectory_Map CPtr u64
  | PDPT_Map CPtr u64
  | TCB_SetSpace CPtr u64 u64 u64
  | TCB_SetTLSBase CPtr u64
  | TCB_SetIPCBuffer CPtr u64 CPtr
  | TCB_SetPriority CPtr u64
  | TCB_ReadRegisters CPtr
  | TCB_WriteRegisters CPtr user_context
  | TCB_Suspend CPtr
  | TCB_Resume CPtr
  | CNode_Mint CPtr CPtr u64
  | IOPortControl_Issue u64 u64 CPtr
  | DebugNameThread CPtr string

datatype lookup_level = NO_PT | NO_PD | NO_PDPT | OtherLevel

text \<open>
  The kernel and the boot information: the capability slots \<open>empty_start\<close> to \<open>empty_end\<close>, the
  untyped memory capabilities \<open>untyped_start\<close> to \<open>untyped_end\<close> with their device flag. \<open>maxPrio\<close>
  and \<open>readWrite\<close> are \<open>seL4_MaxPrio\<close> and the encoding of \<open>seL4_ReadWrite\<close>.
\<close>

record kernel =
  respond :: "kcall list \<Rightarrow> kcall \<Rightarrow> seL4_Error"
  lookupLevel :: "kcall list \<Rightarrow> lookup_level"
  registers :: "kcall list \<Rightarrow> CPtr \<Rightarrow> user_context"
  empty_start :: u64
  empty_end :: u64
  untyped_start :: u64
  untyped_end :: u64
  isDevice :: "u64 \<Rightarrow> bool"
  maxPrio :: u64
  readWrite :: u64

record machine =
  calls :: "kcall list"

definition invoke :: "kernel \<Rightarrow> kcall \<Rightarrow> 'r machine_scheme \<Rightarrow> seL4_Error \<times> 'r machine_scheme" where
  "invoke K c s = (respond K (calls s) c, s\<lparr>calls := calls s @ [c]\<rparr>)"

definition PAGE_SIZE :: u64 where "PAGE_SIZE = 4096"

lemma invoke_simps [simp]:
  "fst (invoke K c s) = respond K (calls s) c"
  "snd (invoke K c s) = s\<lparr>calls := calls s @ [c]\<rparr>"
  by (simp_all add: invoke_def)

end
