(* ===== verification/UntypedPool.thy ===== *)
theory UntypedPool
  imports Kernel
begin

text \<open>
  \<open>userland/InitialUntypedPool.cpp\<close>: capability slots handed out in order, objects made by retyping
  the first untyped memory that the kernel accepts.
\<close>

record pool_state = machine +
  emptySlotPos :: u64

definition getFreeSlot ::
    "kernel \<Rightarrow> 'r pool_state_scheme \<Rightarrow> (u64, seL4_Error) Expected \<times> 'r pool_state_scheme" where
  "getFreeSlot K s =
     (let give = (\<lambda>s. (success (emptySlotPos s) NoError, s\<lparr>emptySlotPos := emptySlotPos s + 1\<rparr>))
      in if emptySlotPos s = 0 then give (s\<lparr>emptySlotPos := empty_start K\<rparr>)
         else if emptySlotPos s > empty_end K then (unexpected NotEnoughMemory 0, s)
         else give s)"

text \<open>The loop over the untyped capabilities; the result says whether a retype succeeded.\<close>

fun retype_loop ::
    "kernel \<Rightarrow> obj_type \<Rightarrow> CPtr \<Rightarrow> CPtr list \<Rightarrow> 'r pool_state_scheme \<Rightarrow> bool \<times> 'r pool_state_scheme" where
  "retype_loop K ty cslot [] s = (False, s)"
| "retype_loop K ty cslot (u # us) s =
     (if isDevice K (u - untyped_start K) then retype_loop K ty cslot us s
      else (let (err, s) = invoke K (Untyped_Retype u ty cslot) s
            in if err = NoError then (True, s) else retype_loop K ty cslot us s))"

definition untypeds :: "kernel \<Rightarrow> CPtr list" where
  "untypeds K = map of_nat [unat (untyped_start K)..<unat (untyped_end K)]"

text \<open>The error the loop leaves is the initial one: the inner \<open>error\<close> shadows the outer.\<close>

definition allocObject ::
    "kernel \<Rightarrow> obj_type \<Rightarrow> 'r pool_state_scheme \<Rightarrow> (CPtr, seL4_Error) Expected \<times> 'r pool_state_scheme" where
  "allocObject K ty s =
     (let (slotOrErr, s) = getFreeSlot K s
      in if \<not> to_bool slotOrErr then (unexpected (exp_error slotOrErr) 0, s)
         else (let cslot = exp_value slotOrErr; err = NotEnoughMemory;
                   (found, s) = retype_loop K ty cslot (untypeds K) s
               in if found then (success cslot NoError, s)
                  else if err \<noteq> NoError then (unexpected err 0, s)
                  else (success cslot NoError, s)))"

definition releaseObject :: "CPtr \<Rightarrow> 'r pool_state_scheme \<Rightarrow> 'r pool_state_scheme" where
  "releaseObject obj s = s"

definition releaseSlot :: "u64 \<Rightarrow> 'r pool_state_scheme \<Rightarrow> 'r pool_state_scheme" where
  "releaseSlot p s = s"

section \<open>The slots handed out\<close>

fun getFreeSlots ::
    "kernel \<Rightarrow> nat \<Rightarrow> 'r pool_state_scheme \<Rightarrow> (u64, seL4_Error) Expected list \<times> 'r pool_state_scheme" where
  "getFreeSlots K 0 s = ([], s)"
| "getFreeSlots K (Suc n) s =
     (let (r, s) = getFreeSlot K s; (rs, s) = getFreeSlots K n s in (r # rs, s))"

lemma getFreeSlots_from:
  assumes "0 < emptySlotPos s" "unat (empty_end K) < 2 ^ 64 - 1"
    "unat (emptySlotPos s) \<le> unat (empty_end K) + 1"
  shows "fst (getFreeSlots K n s) =
    map (\<lambda>i. if unat (emptySlotPos s) + i \<le> unat (empty_end K) then success (emptySlotPos s + of_nat i) NoError
             else unexpected NotEnoughMemory 0) [0..<n]"
  using assms
proof (induction n arbitrary: s)
  case (Suc n)
  let ?p = "emptySlotPos s"
  show ?case
  proof (cases "?p > empty_end K")
    case True
    then have "getFreeSlot K s = (unexpected NotEnoughMemory 0, s)"
      using Suc.prems by (simp add: getFreeSlot_def Let_def)
    moreover have "\<not> unat ?p + i \<le> unat (empty_end K)" for i
      using True by (simp add: word_less_nat_alt)
    ultimately show ?thesis
      using Suc.IH [OF Suc.prems] by (simp add: Let_def split_beta map_upt_Suc del: upt_Suc)
  next
    case False
    let ?s = "s\<lparr>emptySlotPos := ?p + 1\<rparr>"
    have le: "unat ?p \<le> unat (empty_end K)" using False by (simp add: word_less_nat_alt)
    then have up: "unat (?p + 1) = unat ?p + 1"
      using Suc.prems(2) by (simp add: unat_word_ariths)
    then have "0 < ?p + 1" by (simp add: word_less_nat_alt)
    then have "fst (getFreeSlots K n ?s) = map (\<lambda>i. if unat (?p + 1) + i \<le> unat (empty_end K)
          then success (?p + 1 + of_nat i) NoError else unexpected NotEnoughMemory 0) [0..<n]"
      using Suc.IH [of ?s] Suc.prems(2) up le by simp
    moreover have "getFreeSlot K s = (success ?p NoError, ?s)"
      using False Suc.prems(1) by (auto simp: getFreeSlot_def Let_def)
    ultimately show ?thesis
      using le up
      by (simp add: Let_def split_beta map_upt_Suc ac_simps del: upt_Suc)
  qed
qed simp

text \<open>
  C24. The slots of a fresh pool: the first \<open>empty_end - empty_start + 1\<close> calls return
  \<open>empty_start\<close>, \<open>empty_start + 1\<close> and so on, so no slot is handed out twice, and every later call
  fails with \<open>NotEnoughMemory\<close>. The last slot handed out is \<open>empty_end\<close> itself, one past the slots
  the boot information gives as free.
\<close>

theorem getFreeSlots_all:
  assumes "0 < empty_start K" "empty_start K \<le> empty_end K" "unat (empty_end K) < 2 ^ 64 - 1"
    and "emptySlotPos s = 0"
  shows "fst (getFreeSlots K n s) =
    map (\<lambda>i. if i \<le> unat (empty_end K - empty_start K) then success (empty_start K + of_nat i) NoError
             else unexpected NotEnoughMemory 0) [0..<n]"
proof (cases n)
  case (Suc k)
  let ?s = "s\<lparr>emptySlotPos := empty_start K\<rparr>"
  have "getFreeSlot K s = getFreeSlot K ?s"
    using assms by (auto simp: getFreeSlot_def Let_def linorder_not_less)
  then have "getFreeSlots K n s = getFreeSlots K n ?s" using Suc by simp
  moreover have "unat (empty_start K) + i \<le> unat (empty_end K) \<longleftrightarrow> i \<le> unat (empty_end K - empty_start K)" for i
    using assms(2) by (simp add: unat_sub word_le_nat_alt le_diff_conv2 add.commute)
  ultimately show ?thesis
    using getFreeSlots_from [of ?s K n] assms(1-3) by (simp add: word_le_nat_alt)
qed simp

definition tiny_kernel :: kernel where
  "tiny_kernel =
     \<lparr>respond = (\<lambda>h c. case c of Untyped_Retype u ty slot \<Rightarrow> if u = 40 then NotEnoughMemory else NoError
                       | _ \<Rightarrow> NoError),
      lookupLevel = (\<lambda>_. NO_PT),
      registers = (\<lambda>_ _. \<lparr>rip = 0, rsp = 0, rbp = 0, rdi = 0, rsi = 0, rdx = 0, others = []\<rparr>),
      empty_start = 100, empty_end = 140, untyped_start = 40, untyped_end = 43,
      isDevice = (\<lambda>i. i = 1), maxPrio = 255, readWrite = 3\<rparr>"

theorem getFreeSlots_all_witness:
  "fst (getFreeSlots tiny_kernel 42 \<lparr>calls = [], emptySlotPos = 0\<rparr>) ! 40 = success 140 NoError \<and>
   fst (getFreeSlots tiny_kernel 42 \<lparr>calls = [], emptySlotPos = 0\<rparr>) ! 41 = unexpected NotEnoughMemory 0"
  using getFreeSlots_all [of tiny_kernel "\<lparr>calls = [], emptySlotPos = 0\<rparr>" 42]
  by (simp add: tiny_kernel_def)

section \<open>Allocation\<close>

text \<open>The retypes the loop may ask for.\<close>

definition retypes :: "kernel \<Rightarrow> obj_type \<Rightarrow> CPtr \<Rightarrow> CPtr list \<Rightarrow> kcall list" where
  "retypes K ty cslot us =
     map (\<lambda>u. Untyped_Retype u ty cslot) (filter (\<lambda>u. \<not> isDevice K (u - untyped_start K)) us)"

definition accepts :: "kernel \<Rightarrow> kcall list \<Rightarrow> kcall list \<Rightarrow> nat \<Rightarrow> bool" where
  "accepts K h cs i \<longleftrightarrow> respond K (h @ take i cs) (cs ! i) = NoError"

lemma find_upt_Suc:
  "find P [0..<Suc n] = (if P 0 then Some 0 else map_option Suc (find (\<lambda>i. P (Suc i)) [0..<n]))"
proof -
  have "find P (map Suc xs) = map_option Suc (find (\<lambda>i. P (Suc i)) xs)" for xs
    by (induction xs) auto
  then show ?thesis by (simp add: upt_conv_Cons map_Suc_upt [symmetric] del: upt_Suc)
qed

lemma retype_loop_find:
  "retype_loop K ty cslot us s =
    (let cs = retypes K ty cslot us
     in case find (accepts K (calls s) cs) [0..<length cs] of
          Some i \<Rightarrow> (True, s\<lparr>calls := calls s @ take (Suc i) cs\<rparr>)
        | None \<Rightarrow> (False, s\<lparr>calls := calls s @ cs\<rparr>))"
proof (induction us arbitrary: s)
  case Nil
  then show ?case by (simp add: retypes_def)
next
  case (Cons u us)
  show ?case
  proof (cases "isDevice K (u - untyped_start K)")
    case True
    then show ?thesis using Cons by (simp add: retypes_def)
  next
    case False
    let ?c = "Untyped_Retype u ty cslot" and ?cs = "retypes K ty cslot us"
    have cs: "retypes K ty cslot (u # us) = ?c # ?cs" using False by (simp add: retypes_def)
    have acc: "accepts K (calls s) (?c # ?cs) (Suc i) = accepts K (calls s @ [?c]) ?cs i" for i
      by (simp add: accepts_def)
    show ?thesis
      using False Cons.IH [of "s\<lparr>calls := calls s @ [?c]\<rparr>"]
      by (auto simp: cs acc invoke_def accepts_def [of K "calls s" "?c # ?cs" 0] Let_def find_upt_Suc
          simp del: upt_Suc split: option.splits)
  qed
qed

text \<open>
  C25. \<open>allocObject\<close> with a free slot: it asks the kernel to retype the non-device untyped
  capabilities in order and stops at the first that is accepted; then the result is the slot. When
  all are refused the result is \<open>NotEnoughMemory\<close>, whatever the kernel answered, and the slot stays
  taken.
\<close>

theorem allocObject_first_accepted:
  assumes "getFreeSlot K s = (success cslot e, s1)"
  shows "allocObject K ty s =
    (let cs = retypes K ty cslot (untypeds K)
     in case find (accepts K (calls s1) cs) [0..<length cs] of
          Some i \<Rightarrow> (success cslot NoError, s1\<lparr>calls := calls s1 @ take (Suc i) cs\<rparr>)
        | None \<Rightarrow> (unexpected NotEnoughMemory 0, s1\<lparr>calls := calls s1 @ cs\<rparr>))"
  using assms by (simp add: allocObject_def retype_loop_find Let_def split: option.splits)

theorem allocObject_first_accepted_witness:
  "allocObject tiny_kernel TCBObject \<lparr>calls = [], emptySlotPos = 0\<rparr> =
    (success 100 NoError,
     \<lparr>calls = [Untyped_Retype 40 TCBObject 100, Untyped_Retype 42 TCBObject 100], emptySlotPos = 101\<rparr>)"
proof -
  have "getFreeSlot tiny_kernel \<lparr>calls = [], emptySlotPos = 0\<rparr> =
      (success 100 NoError, \<lparr>calls = [], emptySlotPos = 101\<rparr>)"
    by (simp add: getFreeSlot_def tiny_kernel_def)
  from allocObject_first_accepted [OF this, of TCBObject] show ?thesis
    by (simp add: tiny_kernel_def retypes_def untypeds_def accepts_def upt_rec)
qed

end
