(* ===== verification/PageTable.thy ===== *)
theory PageTable
  imports UntypedPool
begin

text \<open>
  \<open>userland/PageTable.cpp\<close>: mapping and unmapping of 4K frames, with the allocation of a missing
  page table.
\<close>

record pt_state = pool_state +
  pdpt :: CPtr
  pd :: CPtr
  pt :: CPtr
  mappedPages :: u64

text \<open>\<open>VMSpace.hpp\<close>: a class with one member, which nothing uses yet.\<close>

record VMSpace =
  vspace :: CPtr

definition new_VMSpace :: VMSpace where
  "new_VMSpace = \<lparr>vspace = 0\<rparr>"

text \<open>\<open>getLevel\<close>; the default case asserts.\<close>

fun getLevel :: "lookup_level \<Rightarrow> int outcome" where
  "getLevel NO_PT = Done 0"
| "getLevel NO_PD = Done 1"
| "getLevel NO_PDPT = Done 2"
| "getLevel OtherLevel = Stuck"

definition count_page :: "'r pt_state_scheme \<Rightarrow> 'r pt_state_scheme" where
  "count_page s = s\<lparr>mappedPages := mappedPages s + 1\<rparr>"

text \<open>
  \<open>mapPage\<close>. The capability passed to \<open>seL4_X86_PageTable_Map\<close> is the \<open>Expected\<close> itself, which
  converts to \<open>bool\<close> and then to 0 or 1.
\<close>

definition mapPage ::
    "kernel \<Rightarrow> u64 \<Rightarrow> u64 \<Rightarrow> 'r pt_state_scheme \<Rightarrow> ((CPtr, seL4_Error) Expected \<times> 'r pt_state_scheme) outcome" where
  "mapPage K vaddr rights s =
     (let (frameOrErr, s) = allocObject K X86_4K s in
      and_then (assert_that (to_bool frameOrErr)) (\<lambda>_.
      let frame = exp_value frameOrErr;
          (err, s) = invoke K (Page_Map frame vaddr rights) s
      in if err = FailedLookup then
           and_then (getLevel (lookupLevel K (calls s))) (\<lambda>level.
           if level = 0 then
             (let (newPageTable, s) = allocObject K X86_PageTableObject s;
                  (err, s) = invoke K (PageTable_Map (bool_word (to_bool newPageTable)) vaddr) s
              in and_then (assert_that (err = NoError)) (\<lambda>_.
                 let (err, s) = invoke K (Page_Map frame vaddr rights) s
                 in Done (success frame NoError, count_page s)))
           else Stuck)
         else Done (success frame NoError, count_page s)))"

definition unmapPage :: "kernel \<Rightarrow> CPtr \<Rightarrow> 'r pt_state_scheme \<Rightarrow> seL4_Error \<times> 'r pt_state_scheme" where
  "unmapPage K pageCap s =
     (let (err, s) = invoke K (Page_Unmap pageCap) s
      in (err, if err = NoError then s\<lparr>mappedPages := mappedPages s - 1\<rparr> else s))"

text \<open>\<open>init\<close>: the values are read without a check, and the first error is overwritten.\<close>

definition init_page_table :: "kernel \<Rightarrow> u64 \<Rightarrow> 'r pt_state_scheme \<Rightarrow> 'r pt_state_scheme outcome" where
  "init_page_table K vaddr s =
     (let (pdptOrErr, s) = allocObject K X86_PDPTObject s;
          s = s\<lparr>pdpt := exp_value pdptOrErr\<rparr>;
          (pdOrErr, s) = allocObject K X86_PageDirectoryObject s;
          s = s\<lparr>pd := exp_value pdOrErr\<rparr>;
          (ptOrErr, s) = allocObject K X86_PageTableObject s;
          s = s\<lparr>pt := exp_value ptOrErr\<rparr>;
          (err, s) = invoke K (PDPT_Map (pdpt s) vaddr) s;
          (err, s) = invoke K (PageDirectory_Map (pd s) vaddr) s
      in and_then (assert_that (err = NoError)) (\<lambda>_.
         let (err, s) = invoke K (PageTable_Map (pt s) vaddr) s
         in and_then (assert_that (err = NoError)) (\<lambda>_. Done s)))"

section \<open>Lemmas\<close>

text \<open>Allocation changes nothing but the slot position and the history of calls, which grows.\<close>

definition pool_change :: "'r pool_state_scheme \<Rightarrow> 'r pool_state_scheme \<Rightarrow> bool" where
  "pool_change s s' \<longleftrightarrow>
     (\<exists>cs p. s' = s\<lparr>calls := calls s @ cs, emptySlotPos := p\<rparr> \<and>
        (\<forall>c \<in> set cs. \<exists>u ty slot. c = Untyped_Retype u ty slot))"

lemma pool_change_trans: "pool_change s s' \<Longrightarrow> pool_change s' s'' \<Longrightarrow> pool_change s s''"
  unfolding pool_change_def
proof (elim exE conjE)
  fix cs p ds q
  assume "s' = s\<lparr>calls := calls s @ cs, emptySlotPos := p\<rparr>"
    "s'' = s'\<lparr>calls := calls s' @ ds, emptySlotPos := q\<rparr>"
    "\<forall>c \<in> set cs. \<exists>u ty slot. c = Untyped_Retype u ty slot"
    "\<forall>c \<in> set ds. \<exists>u ty slot. c = Untyped_Retype u ty slot"
  then show "\<exists>cs p. s'' = s\<lparr>calls := calls s @ cs, emptySlotPos := p\<rparr> \<and>
      (\<forall>c \<in> set cs. \<exists>u ty slot. c = Untyped_Retype u ty slot)"
    by (intro exI [of _ "cs @ ds"] exI [of _ q]) auto
qed

lemma getFreeSlot_change:
  assumes "getFreeSlot K s = (r, s')"
  shows "pool_change s s'" "calls s' = calls s" "to_bool r \<Longrightarrow> r = success (exp_value r) NoError"
proof -
  have "s' = s\<lparr>emptySlotPos := emptySlotPos s'\<rparr>"
    using assms by (auto simp: getFreeSlot_def Let_def split: if_splits)
  then show "pool_change s s'"
    unfolding pool_change_def by (intro exI [of _ "[]"] exI [of _ "emptySlotPos s'"]) simp
qed (use assms in \<open>auto simp: getFreeSlot_def Let_def split: if_splits\<close>)

lemma retype_loop_change: "retype_loop K ty cslot us s = (b, s') \<Longrightarrow> pool_change s s'"
proof -
  assume r: "retype_loop K ty cslot us s = (b, s')"
  obtain k where "s' = s\<lparr>calls := calls s @ take k (retypes K ty cslot us)\<rparr>"
  proof (cases "find (accepts K (calls s) (retypes K ty cslot us)) [0..<length (retypes K ty cslot us)]")
    case None
    then show ?thesis using r that [of "length (retypes K ty cslot us)"]
      by (simp add: retype_loop_find Let_def)
  next
    case (Some i)
    then show ?thesis using r that [of "Suc i"] by (simp add: retype_loop_find Let_def)
  qed
  moreover have "\<forall>c \<in> set (take k (retypes K ty cslot us)). \<exists>u ty slot. c = Untyped_Retype u ty slot"
    by (auto simp: retypes_def dest!: in_set_takeD)
  ultimately show ?thesis
    unfolding pool_change_def by (intro exI [of _ "take k (retypes K ty cslot us)"] exI [of _ "emptySlotPos s"]) simp
qed

lemma allocObject_change:
  assumes "allocObject K ty s = (r, s')"
  shows "pool_change s s'" "to_bool r \<Longrightarrow> r = success (exp_value r) NoError"
proof -
  obtain r0 s1 where g: "getFreeSlot K s = (r0, s1)" by fastforce
  note g1 = getFreeSlot_change [OF g]
  show "pool_change s s'"
  proof (cases "to_bool r0")
    case False
    then show ?thesis using g1(1) assms g by (simp add: allocObject_def)
  next
    case True
    obtain b s2 where "retype_loop K ty (exp_value r0) (untypeds K) s1 = (b, s2)" by fastforce
    moreover from this have "s' = s2" using assms g True by (auto simp: allocObject_def Let_def split: if_splits)
    ultimately show ?thesis using g1(1) retype_loop_change pool_change_trans by blast
  qed
  show "to_bool r \<Longrightarrow> r = success (exp_value r) NoError"
    using assms by (auto simp: allocObject_def Let_def split: if_splits prod.splits)
qed


text \<open>\<open>mapPage\<close>, when it returns: always a success; the kernel's calls grow, one page is counted.\<close>

definition page_change :: "'r pt_state_scheme \<Rightarrow> 'r pt_state_scheme \<Rightarrow> bool" where
  "page_change s s' \<longleftrightarrow>
     (\<exists>cs p. s' = s\<lparr>calls := calls s @ cs, emptySlotPos := p, mappedPages := mappedPages s + 1\<rparr>)"

lemma pool_change_page:
  assumes "pool_change s s'"
  shows "\<exists>cs p. s' = s\<lparr>calls := calls s @ cs, emptySlotPos := p\<rparr>"
  using assms by (auto simp: pool_change_def)

lemma mapPage_returns:
  assumes "mapPage K vaddr rights s = Done (r, s')"
  shows "r = success (exp_value r) NoError" "page_change s s'"
    "Page_Map (exp_value r) vaddr rights \<in> set (calls s')"
proof -
  obtain x s1 where a: "allocObject K X86_4K s = (x, s1)" by fastforce
  from pool_change_page [OF allocObject_change(1) [OF a]] obtain cs p where
    s1: "s1 = s\<lparr>calls := calls s @ cs, emptySlotPos := p\<rparr>" by blast
  let ?c = "Page_Map (exp_value x) vaddr rights"
  have x: "to_bool x" using assms a by (auto simp: mapPage_def split: if_splits)
  have "r = success (exp_value x) NoError \<and> page_change s s' \<and> ?c \<in> set (calls s')"
  proof (cases "respond K (calls s1) ?c = FailedLookup")
    case False
    then show ?thesis
      using assms a x s1
      by (auto simp: mapPage_def invoke_def count_page_def page_change_def Let_def
          intro!: exI [of _ "cs @ [?c]"] exI [of _ p])
  next
    case True
    let ?s = "s1\<lparr>calls := calls s1 @ [?c]\<rparr>"
    obtain y s2 where b: "allocObject K X86_PageTableObject ?s = (y, s2)" by fastforce
    from pool_change_page [OF allocObject_change(1) [OF b]] obtain ds q where
      s2: "s2 = ?s\<lparr>calls := calls ?s @ ds, emptySlotPos := q\<rparr>" by blast
    let ?ts = "[PageTable_Map (bool_word (to_bool y)) vaddr, ?c]"
    have l: "lookupLevel K (calls ?s) = NO_PT"
      using assms a x True
      by (cases "lookupLevel K (calls ?s)") (auto simp: mapPage_def invoke_def Let_def)
    then have "r = success (exp_value x) NoError" "s' = count_page (s2\<lparr>calls := calls s2 @ ?ts\<rparr>)"
      using assms a x True b
      by (auto simp: mapPage_def invoke_def Let_def split: if_splits)
    then show ?thesis using s1 s2
      by (auto simp: count_page_def page_change_def
          intro!: exI [of _ "cs @ [?c] @ ds @ ?ts"] exI [of _ q])
  qed
  then show "r = success (exp_value r) NoError" "page_change s s'"
    "Page_Map (exp_value r) vaddr rights \<in> set (calls s')" by auto
qed

section \<open>Properties\<close>

text \<open>
  \<open>mapPage\<close> with a frame, when the kernel answers the mapping with anything but a missing
  table: it returns the frame as a success and counts the page, also when the kernel refused the
  mapping, so that no caller sees the refusal.
\<close>

theorem mapPage_drops_error:
  assumes "allocObject K X86_4K s = (success frame e, s1)"
    and "respond K (calls s1) (Page_Map frame vaddr rights) = err" "err \<noteq> FailedLookup"
  shows "mapPage K vaddr rights s =
    Done (success frame NoError,
      s1\<lparr>calls := calls s1 @ [Page_Map frame vaddr rights], mappedPages := mappedPages s1 + 1\<rparr>)"
  using assms by (simp add: mapPage_def invoke_def count_page_def Let_def)

definition pt0 :: pt_state where
  "pt0 = \<lparr>calls = [], emptySlotPos = 0, pdpt = 0, pd = 0, pt = 0, mappedPages = 0\<rparr>"

definition refusing_kernel :: "seL4_Error \<Rightarrow> kernel" where
  "refusing_kernel e =
     tiny_kernel\<lparr>respond := (\<lambda>h c. case c of Page_Map f v r \<Rightarrow> e
       | PageTable_Map cap v \<Rightarrow> if cap < 100 then InvalidCapability else NoError | _ \<Rightarrow> NoError)\<rparr>"

lemma alloc_refusing:
  "allocObject (refusing_kernel e) ty pt0 =
    (success 100 NoError, pt0\<lparr>calls := [Untyped_Retype 40 ty 100], emptySlotPos := 101\<rparr>)"
  by (simp add: allocObject_def getFreeSlot_def refusing_kernel_def tiny_kernel_def pt0_def
      untypeds_def invoke_def upt_rec Let_def)

theorem mapPage_drops_error_witness:
  "mapPage (refusing_kernel DeleteFirst) 0x8000001000 1 pt0 =
    Done (success 100 NoError,
      pt0\<lparr>calls := [Untyped_Retype 40 X86_4K 100, Page_Map 100 0x8000001000 1], emptySlotPos := 101,
          mappedPages := 1\<rparr>)"
  using mapPage_drops_error [where K = "refusing_kernel DeleteFirst" and vaddr = "0x8000001000"
      and rights = 1, OF alloc_refusing refl]
  by (simp add: refusing_kernel_def pt0_def)

text \<open>
  \<open>mapPage\<close> where a page table is missing: the new table's \<open>Expected\<close> is passed as the
  capability and arrives as 0 or 1, so with a kernel that refuses to map a table from these two
  capabilities (null and the initial thread's TCB) the function fails its assertion, and never maps
  a page whose table is missing.
\<close>

theorem mapPage_missing_table:
  assumes "allocObject K X86_4K s = (success frame e, s1)"
    and "respond K (calls s1) (Page_Map frame vaddr rights) = FailedLookup"
    and refuses: "\<And>h cap. cap < 2 \<Longrightarrow> respond K h (PageTable_Map cap vaddr) \<noteq> NoError"
  shows "mapPage K vaddr rights s = Stuck"
proof -
  let ?s = "s1\<lparr>calls := calls s1 @ [Page_Map frame vaddr rights]\<rparr>"
  have "bool_word b < 2" for b by (simp add: bool_word_def)
  then have "respond K h (PageTable_Map (bool_word b) vaddr) \<noteq> NoError" for h b
    by (rule refuses)
  then show ?thesis
    using assms(1,2)
    by (cases "lookupLevel K (calls ?s)")
      (auto simp: mapPage_def invoke_def Let_def split: prod.splits)
qed

theorem mapPage_missing_table_witness:
  "mapPage (refusing_kernel FailedLookup) 0x8000200000 1 pt0 = Stuck"
  by (rule mapPage_missing_table [OF alloc_refusing])
    (auto simp: refusing_kernel_def pt0_def tiny_kernel_def word_less_nat_alt)

end
