(* ===== verification/Thread.thy ===== *)
theory Thread
  imports Kernel
begin

text \<open>
  \<open>userland/Thread.hpp\<close> and \<open>userland/Thread.cpp\<close>: the thread object and the operations that ask the
  kernel to change the thread. The closure \<open>entryPoint\<close> is named by a word.
\<close>

datatype thread_state = Uninitialized | Started | Running | Paused | Finished

record thread =
  tcb :: CPtr
  entryPoint :: u64
  tcbStackAddr :: u64
  endpoint :: u64
  badge :: u64
  priority :: u64
  retValue :: u64
  tstate :: thread_state

definition new_Thread :: "CPtr \<Rightarrow> u64 \<Rightarrow> thread" where
  "new_Thread tcb_cap entry =
     \<lparr>tcb = tcb_cap, entryPoint = entry, tcbStackAddr = 0, endpoint = 0, badge = 0, priority = 0,
      retValue = 0, tstate = Uninitialized\<rparr>"

definition thread_eq :: "thread \<Rightarrow> thread \<Rightarrow> bool" where
  "thread_eq t u \<longleftrightarrow> badge t = badge u"

text \<open>
  The copy constructor starts with a new \<open>retValue\<close>, and the assignment keeps the one that is there:
  neither copies it.
\<close>

definition copy_Thread :: "thread \<Rightarrow> thread" where
  "copy_Thread other =
     \<lparr>tcb = tcb other, entryPoint = entryPoint other, tcbStackAddr = tcbStackAddr other,
      endpoint = endpoint other, badge = badge other, priority = priority other, retValue = 0,
      tstate = tstate other\<rparr>"

definition assign_Thread :: "thread \<Rightarrow> thread \<Rightarrow> thread" where
  "assign_Thread self rhs =
     self\<lparr>tcb := tcb rhs, entryPoint := entryPoint rhs, tcbStackAddr := tcbStackAddr rhs,
       endpoint := endpoint rhs, badge := badge rhs, priority := priority rhs, tstate := tstate rhs\<rparr>"

text \<open>\<open>seL4_GetUserData () == &t\<close>, for the static function and for the member.\<close>

definition calledFrom :: "u64 \<Rightarrow> u64 \<Rightarrow> bool" where
  "calledFrom userData self \<longleftrightarrow> userData = self"

definition calledFromMain :: "u64 \<Rightarrow> u64 \<Rightarrow> bool" where
  "calledFromMain userData mainThread \<longleftrightarrow> calledFrom userData mainThread"

type_synonym 'r thread_result = "seL4_Error \<times> thread \<times> 'r machine_scheme"

definition setPriority :: "kernel \<Rightarrow> u64 \<Rightarrow> thread \<Rightarrow> 'r machine_scheme \<Rightarrow> 'r thread_result" where
  "setPriority K prio t s =
     (let (err, s) = invoke K (TCB_SetPriority (tcb t) prio) s
      in (err, if err = NoError then t\<lparr>priority := prio\<rparr> else t, s))"

text \<open>The kernel keeps the name; the call has no result.\<close>

definition setName :: "string \<Rightarrow> thread \<Rightarrow> 'r machine_scheme \<Rightarrow> 'r machine_scheme" where
  "setName name t s = s\<lparr>calls := calls s @ [DebugNameThread (tcb t) name]\<rparr>"

text \<open>\<open>threadMain\<close> and \<open>self\<close> are the addresses of \<open>_threadMain\<close> and of the object.\<close>

definition start_context :: "u64 \<Rightarrow> u64 \<Rightarrow> thread \<Rightarrow> user_context \<Rightarrow> user_context" where
  "start_context threadMain self t c =
     c\<lparr>rip := threadMain, rsp := tcbStackAddr t + PAGE_SIZE, rbp := tcbStackAddr t + PAGE_SIZE,
       rdi := self, rsi := 0, rdx := 0\<rparr>"

definition start_thread ::
    "kernel \<Rightarrow> u64 \<Rightarrow> u64 \<Rightarrow> thread \<Rightarrow> 'r machine_scheme \<Rightarrow> 'r thread_result" where
  "start_thread K threadMain self t s =
     (let (_, s) = invoke K (TCB_ReadRegisters (tcb t)) s;
          context = start_context threadMain self t (registers K (calls s) (tcb t));
          (err, s) = invoke K (TCB_WriteRegisters (tcb t) context) s
      in (err, if err = NoError then t\<lparr>tstate := Started\<rparr> else t, s))"

definition suspend :: "kernel \<Rightarrow> thread \<Rightarrow> 'r machine_scheme \<Rightarrow> 'r thread_result" where
  "suspend K t s =
     (let (err, s) = invoke K (TCB_Suspend (tcb t)) s
      in (err, if err = NoError then t\<lparr>tstate := Paused\<rparr> else t, s))"

definition resume :: "kernel \<Rightarrow> thread \<Rightarrow> 'r machine_scheme \<Rightarrow> 'r thread_result" where
  "resume K t s =
     (let (err, s) = invoke K (TCB_Resume (tcb t)) s
      in (err, if err = NoError then t\<lparr>tstate := Running\<rparr> else t, s))"

text \<open>
  \<open>_threadMain\<close>, for an entry point \<open>entry\<close> that returns; the last component is the user data
  that the thread sets.
\<close>

definition threadMain ::
    "kernel \<Rightarrow> (thread \<Rightarrow> 'r machine_scheme \<Rightarrow> u64 \<times> thread \<times> 'r machine_scheme) \<Rightarrow> u64 \<Rightarrow>
     thread \<Rightarrow> 'r machine_scheme \<Rightarrow> thread \<times> 'r machine_scheme \<times> u64" where
  "threadMain K entry self t s =
     (let t = t\<lparr>tstate := Running\<rparr>;
          (ret, t, s) = entry t s;
          t = t\<lparr>retValue := ret, tstate := Finished\<rparr>;
          (_, t, s) = suspend K t s
      in (t, s, self))"

section \<open>The object and the kernel\<close>

datatype thread_op = Start u64 u64 | Suspend | Resume | SetPriority u64

fun do_thread_op :: "kernel \<Rightarrow> thread_op \<Rightarrow> thread \<Rightarrow> 'r machine_scheme \<Rightarrow> 'r thread_result" where
  "do_thread_op K (Start m self) t s = start_thread K m self t s"
| "do_thread_op K Suspend t s = suspend K t s"
| "do_thread_op K Resume t s = resume K t s"
| "do_thread_op K (SetPriority p) t s = setPriority K p t s"

fun thread_ops :: "kernel \<Rightarrow> thread_op list \<Rightarrow> thread \<Rightarrow> 'r machine_scheme \<Rightarrow> thread \<times> 'r machine_scheme" where
  "thread_ops K [] t s = (t, s)"
| "thread_ops K (x # xs) t s = (let (_, t, s) = do_thread_op K x t s in thread_ops K xs t s)"

text \<open>The calls of \<open>cs\<close> that the kernel accepts, made after the history \<open>h\<close>.\<close>

fun accepted :: "kernel \<Rightarrow> kcall list \<Rightarrow> kcall list \<Rightarrow> kcall list" where
  "accepted K h [] = []"
| "accepted K h (c # cs) =
     (if respond K h c = NoError then c # accepted K (h @ [c]) cs else accepted K (h @ [c]) cs)"

fun state_after :: "thread_state \<Rightarrow> kcall \<Rightarrow> thread_state" where
  "state_after st (TCB_WriteRegisters c ctx) = Started"
| "state_after st (TCB_Suspend c) = Paused"
| "state_after st (TCB_Resume c) = Running"
| "state_after st c = st"

fun prio_after :: "u64 \<Rightarrow> kcall \<Rightarrow> u64" where
  "prio_after p (TCB_SetPriority c q) = q"
| "prio_after p c = p"

fun tcb_of_call :: "kcall \<Rightarrow> CPtr" where
  "tcb_of_call (TCB_SetPriority c q) = c"
| "tcb_of_call (TCB_WriteRegisters c ctx) = c"
| "tcb_of_call (TCB_ReadRegisters c) = c"
| "tcb_of_call (TCB_Suspend c) = c"
| "tcb_of_call (TCB_Resume c) = c"
| "tcb_of_call _ = 0"

lemma accepted_append: "accepted K h (cs @ ds) = accepted K h cs @ accepted K (h @ cs) ds"
  by (induction cs arbitrary: h) auto

lemma thread_op_tracks:
  assumes "do_thread_op K x t s = (e, t', s')"
  shows "\<exists>cs. calls s' = calls s @ cs \<and> (\<forall>c \<in> set cs. tcb_of_call c = tcb t) \<and>
    t' = t\<lparr>tstate := foldl state_after (tstate t) (accepted K (calls s) cs),
           priority := foldl prio_after (priority t) (accepted K (calls s) cs)\<rparr>"
proof (cases x)
  case (Start m self)
  let ?r = "TCB_ReadRegisters (tcb t)"
  let ?w = "TCB_WriteRegisters (tcb t) (start_context m self t (registers K (calls s @ [?r]) (tcb t)))"
  show ?thesis using assms Start
    by (intro exI [of _ "[?r, ?w]"]) (auto simp: start_thread_def invoke_def Let_def)
next
  case Suspend
  with assms show ?thesis
    by (intro exI [of _ "[TCB_Suspend (tcb t)]"]) (auto simp: suspend_def invoke_def)
next
  case Resume
  with assms show ?thesis
    by (intro exI [of _ "[TCB_Resume (tcb t)]"]) (auto simp: resume_def invoke_def)
next
  case (SetPriority p)
  with assms show ?thesis
    by (intro exI [of _ "[TCB_SetPriority (tcb t) p]"]) (auto simp: setPriority_def invoke_def)
qed

text \<open>
  C28. The thread object follows the kernel: after any sequence of starts, suspensions,
  resumptions and priority changes, its state and priority are those of the last calls that the
  kernel accepted, every call was made on the thread's own capability, and no other field changed.
\<close>

theorem thread_tracks_kernel:
  assumes "thread_ops K xs t s = (t', s')"
  shows "\<exists>cs. calls s' = calls s @ cs \<and> (\<forall>c \<in> set cs. tcb_of_call c = tcb t) \<and>
    t' = t\<lparr>tstate := foldl state_after (tstate t) (accepted K (calls s) cs),
           priority := foldl prio_after (priority t) (accepted K (calls s) cs)\<rparr>"
  using assms
proof (induction xs arbitrary: t s)
  case Nil
  then show ?case by (intro exI [of _ "[]"]) simp
next
  case (Cons x xs)
  obtain e t1 s1 where x: "do_thread_op K x t s = (e, t1, s1)" by (rule prod_cases3)
  from thread_op_tracks [OF x] obtain cs where
    cs: "calls s1 = calls s @ cs" "\<forall>c \<in> set cs. tcb_of_call c = tcb t"
      "t1 = t\<lparr>tstate := foldl state_after (tstate t) (accepted K (calls s) cs),
           priority := foldl prio_after (priority t) (accepted K (calls s) cs)\<rparr>" by blast
  have "thread_ops K xs t1 s1 = (t', s')" using Cons.prems x by simp
  from Cons.IH [OF this] obtain ds where
    "calls s' = calls s1 @ ds" "\<forall>c \<in> set ds. tcb_of_call c = tcb t1"
      "t' = t1\<lparr>tstate := foldl state_after (tstate t1) (accepted K (calls s1) ds),
           priority := foldl prio_after (priority t1) (accepted K (calls s1) ds)\<rparr>" by blast
  then show ?case using cs by (intro exI [of _ "cs @ ds"]) (auto simp: accepted_append)
qed

definition demo_kernel :: kernel where
  "demo_kernel =
     \<lparr>respond = (\<lambda>h c. case c of TCB_SetPriority t p \<Rightarrow> if p > 255 then RangeError else NoError
                       | _ \<Rightarrow> NoError),
      lookupLevel = (\<lambda>_. NO_PT),
      registers = (\<lambda>_ _. \<lparr>rip = 0, rsp = 0, rbp = 0, rdi = 0, rsi = 0, rdx = 0, others = []\<rparr>),
      empty_start = 100, empty_end = 140, untyped_start = 40, untyped_end = 43,
      isDevice = (\<lambda>i. i = 1), maxPrio = 255, readWrite = 3\<rparr>"

theorem thread_tracks_kernel_witness:
  "\<exists>cs. calls (snd (thread_ops demo_kernel [SetPriority 300, SetPriority 7, Resume] (new_Thread 9 0) \<lparr>calls = []\<rparr>)) = cs \<and>
    length cs = 3 \<and>
    fst (thread_ops demo_kernel [SetPriority 300, SetPriority 7, Resume] (new_Thread 9 0) \<lparr>calls = []\<rparr>) =
      (new_Thread 9 0)\<lparr>tstate := Running, priority := 7\<rparr>"
proof -
  let ?xs = "[SetPriority 300, SetPriority 7, Resume]"
  let ?cs = "[TCB_SetPriority 9 300, TCB_SetPriority 9 7, TCB_Resume 9]"
  have c: "calls (snd (thread_ops demo_kernel ?xs (new_Thread 9 0) \<lparr>calls = []\<rparr>)) = ?cs"
    by (simp add: setPriority_def resume_def invoke_def demo_kernel_def new_Thread_def)
  obtain t' s' where r: "thread_ops demo_kernel ?xs (new_Thread 9 0) \<lparr>calls = []\<rparr> = (t', s')"
    by fastforce
  from thread_tracks_kernel [OF r] c r show ?thesis
    by (auto simp: demo_kernel_def new_Thread_def)
qed

end
