(* ===== verification/ObjectFactory.thy ===== *)
theory ObjectFactory
  imports PageTable Thread Kmalloc_Props
begin

text \<open>
  \<open>userland/ObjectFactory.cpp\<close>. The state adds the next free virtual address, the kernel heap and
  the \<open>Thread\<close> objects by address to the page table's state. \<open>new Thread\<close> takes \<open>sizeof (Thread)\<close>
  bytes from \<open>kmalloc\<close>, and the shared pointer a control block; both sizes belong to the compiler
  and its library and are parameters. The constructor that \<open>new\<close> runs, and the library's, store
  through the pointer without a check, so that a null from \<open>kmalloc\<close> is a fault.
\<close>

record layout =
  sizeof_Thread :: u64
  sizeof_ControlBlock :: u64

record factory_state = pt_state +
  currentVirtualAddress :: u64
  heap :: kheap
  objs :: "u64 \<Rightarrow> thread"

definition operator_new :: "u64 \<Rightarrow> kheap \<Rightarrow> (u64 \<times> kheap) outcome" where
  "operator_new sz s = and_then (kmalloc sz s) (\<lambda>(r, s). Done (r, s))"

definition operator_delete :: "u64 \<Rightarrow> kheap \<Rightarrow> kheap outcome" where
  "operator_delete p s = kfree p s"

definition heap_new :: "u64 \<Rightarrow> 'r factory_state_scheme \<Rightarrow> (u64 \<times> 'r factory_state_scheme) outcome" where
  "heap_new sz s =
     and_then (operator_new sz (heap s)) (\<lambda>(p, h).
     and_then (assert_that (p \<noteq> 0)) (\<lambda>_. Done (p, s\<lparr>heap := h\<rparr>)))"

definition update_obj :: "u64 \<Rightarrow> (thread \<Rightarrow> thread) \<Rightarrow> 'r factory_state_scheme \<Rightarrow> 'r factory_state_scheme" where
  "update_obj p f s = s\<lparr>objs := (objs s)(p := f (objs s p))\<rparr>"

definition alloc_thread ::
    "layout \<Rightarrow> CPtr \<Rightarrow> u64 \<Rightarrow> 'r factory_state_scheme \<Rightarrow> (u64 \<times> 'r factory_state_scheme) outcome" where
  "alloc_thread L tcb_cap entry s =
     and_then (heap_new (sizeof_Thread L) s) (\<lambda>(p, s).
     Done (p, update_obj p (\<lambda>_. new_Thread tcb_cap entry) s))"

text \<open>\<open>std::shared_ptr<Thread> (thread)\<close>.\<close>

definition make_shared_ptr ::
    "layout \<Rightarrow> u64 \<Rightarrow> 'r factory_state_scheme \<Rightarrow> (u64 \<times> 'r factory_state_scheme) outcome" where
  "make_shared_ptr L p s =
     and_then (heap_new (sizeof_ControlBlock L) s) (\<lambda>(_, s). Done (p, s))"

type_synonym thread_or_error = "(u64, seL4_Error) Expected"

text \<open>The error exits: release the TCB, unmap the pages mapped so far, return the error.\<close>

definition give_up ::
    "kernel \<Rightarrow> seL4_Error \<Rightarrow> CPtr \<Rightarrow> CPtr list \<Rightarrow> 'r factory_state_scheme \<Rightarrow>
     (thread_or_error \<times> 'r factory_state_scheme) outcome" where
  "give_up K err tcb_cap pages s =
     Done (unexpected err 0, foldl (\<lambda>s p. snd (unmapPage K p s)) (releaseObject tcb_cap s) pages)"

text \<open>From \<open>err = seL4_TCB_SetTLSBase\<close> to the end of the function.\<close>

definition configure_thread ::
    "kernel \<Rightarrow> layout \<Rightarrow> CPtr \<Rightarrow> u64 \<Rightarrow> CPtr \<Rightarrow> CPtr list \<Rightarrow> u64 \<Rightarrow> u64 \<Rightarrow> u64 \<Rightarrow>
     'r factory_state_scheme \<Rightarrow> (thread_or_error \<times> 'r factory_state_scheme) outcome" where
  "configure_thread K L tcb_cap thread apiEndpoint pages ipcPage tlsAddr tcbIPC s =
     (let (err, s) = invoke K (TCB_SetTLSBase (tcb (objs s thread)) tlsAddr) s in
      if err \<noteq> NoError then give_up K err tcb_cap pages s else
      let (err, s) = invoke K (TCB_SetIPCBuffer (tcb (objs s thread)) tcbIPC ipcPage) s in
      if err \<noteq> NoError then give_up K err tcb_cap pages s else
      let prio = maxPrio K;
          (err, t, s) = setPriority K prio (objs s thread) s;
          s = update_obj thread (\<lambda>_. t) s in
      if err \<noteq> NoError then give_up K err tcb_cap pages s else
      and_then (assert_that (priority (objs s thread) = prio)) (\<lambda>_.
      let (slotOrErr, s) = getFreeSlot K s in
      and_then (assert_that (to_bool slotOrErr)) (\<lambda>_.
      if \<not> to_bool slotOrErr then give_up K (exp_error slotOrErr) tcb_cap pages s else
      let slot = exp_value slotOrErr;
          (err, s) = invoke K (CNode_Mint slot apiEndpoint (badge (objs s thread))) s in
      if err \<noteq> NoError then
        and_then (give_up K err tcb_cap pages s) (\<lambda>(r, s). Done (r, releaseSlot slot s))
      else
        let s = update_obj thread (\<lambda>t. t\<lparr>endpoint := slot\<rparr>) s in
        and_then (make_shared_ptr L thread s) (\<lambda>(p, s). Done (success p NoError, s)))))"

text \<open>The three pages (stack, TLS, IPC buffer), then the configuration.\<close>

definition next_address :: "'r factory_state_scheme \<Rightarrow> 'r factory_state_scheme" where
  "next_address s = s\<lparr>currentVirtualAddress := currentVirtualAddress s + PAGE_SIZE\<rparr>"

definition map_thread_pages ::
    "kernel \<Rightarrow> layout \<Rightarrow> CPtr \<Rightarrow> u64 \<Rightarrow> CPtr \<Rightarrow> 'r factory_state_scheme \<Rightarrow>
     (thread_or_error \<times> 'r factory_state_scheme) outcome" where
  "map_thread_pages K L tcb_cap thread apiEndpoint s =
     (let s = update_obj thread (\<lambda>t. t\<lparr>tcbStackAddr := currentVirtualAddress s\<rparr>) s in
      and_then (mapPage K (currentVirtualAddress s) (readWrite K) s) (\<lambda>(stackOrErr, s).
      if \<not> to_bool stackOrErr then give_up K (exp_error stackOrErr) tcb_cap [] s else
      let s = next_address s; tlsAddr = currentVirtualAddress s in
      and_then (mapPage K (currentVirtualAddress s) (readWrite K) s) (\<lambda>(tlsOrErr, s).
      if \<not> to_bool tlsOrErr then give_up K (exp_error tlsOrErr) tcb_cap [exp_value stackOrErr] s else
      let s = next_address s; tcbIPC = currentVirtualAddress s in
      and_then (mapPage K (currentVirtualAddress s) (readWrite K) s) (\<lambda>(ipcOrErr, s).
      if \<not> to_bool ipcOrErr then
        give_up K (exp_error ipcOrErr) tcb_cap [exp_value stackOrErr, exp_value tlsOrErr] s
      else
        let s = next_address s in
        configure_thread K L tcb_cap thread apiEndpoint
          [exp_value stackOrErr, exp_value tlsOrErr, exp_value ipcOrErr] (exp_value ipcOrErr)
          tlsAddr tcbIPC s))))"

definition createThread ::
    "kernel \<Rightarrow> layout \<Rightarrow> u64 \<Rightarrow> u64 \<Rightarrow> CPtr \<Rightarrow> 'r factory_state_scheme \<Rightarrow>
     (thread_or_error \<times> 'r factory_state_scheme) outcome" where
  "createThread K L tcbBadge entry apiEndpoint s =
     (let (tcbOrErr, s) = allocObject K TCBObject s in
      if \<not> to_bool tcbOrErr then Done (unexpected (exp_error tcbOrErr) 0, s) else
      and_then (assert_that (to_bool tcbOrErr)) (\<lambda>_.
      and_then (alloc_thread L (exp_value tcbOrErr) entry s) (\<lambda>(thread, s).
      if thread = 0 then Done (unexpected NotEnoughMemory 0, s) else
      let s = update_obj thread (\<lambda>t. t\<lparr>badge := tcbBadge\<rparr>) s;
          (err, s) = invoke K (TCB_SetSpace (tcb (objs s thread)) 0 0 0) s in
      if err \<noteq> NoError then give_up K err (exp_value tcbOrErr) [] s
      else map_thread_pages K L (exp_value tcbOrErr) thread apiEndpoint s)))"

definition createEndpoint ::
    "kernel \<Rightarrow> 'r factory_state_scheme \<Rightarrow> (CPtr, seL4_Error) Expected \<times> 'r factory_state_scheme" where
  "createEndpoint K s = allocObject K EndpointObject s"

definition createNotification ::
    "kernel \<Rightarrow> 'r factory_state_scheme \<Rightarrow> (CPtr, seL4_Error) Expected \<times> 'r factory_state_scheme" where
  "createNotification K s = allocObject K NotificationObject s"


section \<open>Lemmas\<close>

lemma heap_new_Done:
  assumes "heap_new sz s = Done (p, s')"
  shows "kmalloc sz (heap s) = Done (p, heap s')" "p \<noteq> 0" "\<exists>h. s' = s\<lparr>heap := h\<rparr>"
  using assms by (auto simp: heap_new_def operator_new_def and_then_Done_iff split: if_splits)

lemma give_up_Done:
  assumes "give_up K err tcb_cap pages s = Done (r, s')"
  shows "r = unexpected err 0"
    "heap s' = heap s \<and> currentVirtualAddress s' = currentVirtualAddress s \<and> objs s' = objs s \<and>
      factory_state.more s' = factory_state.more s"
proof -
  have "heap (foldl (\<lambda>s p. snd (unmapPage K p s)) s pages) = heap s \<and>
      currentVirtualAddress (foldl (\<lambda>s p. snd (unmapPage K p s)) s pages) = currentVirtualAddress s \<and>
      objs (foldl (\<lambda>s p. snd (unmapPage K p s)) s pages) = objs s \<and>
      factory_state.more (foldl (\<lambda>s p. snd (unmapPage K p s)) s pages) = factory_state.more s" for s :: "'a factory_state_scheme"
    by (induction pages arbitrary: s) (auto simp: unmapPage_def invoke_def)
  then show "r = unexpected err 0"
    "heap s' = heap s \<and> currentVirtualAddress s' = currentVirtualAddress s \<and> objs s' = objs s \<and>
      factory_state.more s' = factory_state.more s"
    using assms by (auto simp: give_up_def releaseObject_def)
qed

lemma getFreeSlot_frame:
  "getFreeSlot K s = (r, s') \<Longrightarrow> \<exists>q. s' = s\<lparr>emptySlotPos := q\<rparr>"
  by (intro exI [of _ "emptySlotPos s'"]) (auto simp: getFreeSlot_def Let_def split: if_splits)

lemma success_neq_unexpected [simp]: "success v e \<noteq> unexpected e' v'" "unexpected e' v' \<noteq> success v e"
  by (simp_all add: success_def unexpected_def)

text \<open>A successful configuration.\<close>

lemma configure_thread_success:
  assumes "configure_thread K L tcb_cap th ep pages ipc tls buf s = Done (success p e, s')"
  obtains cs q h slot c where "p = th" "kmalloc (sizeof_ControlBlock L) (heap s) = Done (c, h)"
    "s' = s\<lparr>calls := calls s @ cs @ [CNode_Mint slot ep (badge (objs s th))], emptySlotPos := q, heap := h,
            objs := (objs s)(th := (objs s th)\<lparr>priority := maxPrio K, endpoint := slot\<rparr>)\<rparr>"
    "respond K (calls s @ cs) (CNode_Mint slot ep (badge (objs s th))) = NoError"
proof -
  let ?t = "objs s th"
  let ?c1 = "TCB_SetTLSBase (tcb ?t) tls" and ?c2 = "TCB_SetIPCBuffer (tcb ?t) buf ipc"
    and ?c3 = "TCB_SetPriority (tcb ?t) (maxPrio K)"
  let ?s3 = "s\<lparr>calls := calls s @ [?c1, ?c2, ?c3], objs := (objs s)(th := ?t\<lparr>priority := maxPrio K\<rparr>)\<rparr>"
  have ne: "give_up K err tcb_cap pages u \<noteq> Done (success p e, w)" for err u w
    by (auto simp: give_up_def)
  obtain sl s4 where g: "getFreeSlot K ?s3 = (sl, s4)" by fastforce
  let ?m = "CNode_Mint (exp_value sl) ep (badge ?t)"
  from getFreeSlot_frame [OF g] obtain q where s4: "s4 = ?s3\<lparr>emptySlotPos := q\<rparr>" by blast
  have o4: "objs s4 = (objs s)(th := ?t\<lparr>priority := maxPrio K\<rparr>)" by (simp add: s4)
  have "make_shared_ptr L th (update_obj th (\<lambda>t. t\<lparr>endpoint := exp_value sl\<rparr>)
      (s4\<lparr>calls := calls s4 @ [?m]\<rparr>)) = Done (p, s') \<and> respond K (calls s4) ?m = NoError"
    using assms g ne o4
    by (auto simp: configure_thread_def invoke_def setPriority_def update_obj_def Let_def
        and_then_Done_iff split: if_splits prod.splits)
  moreover have "heap s4 = heap s" by (simp add: s4)
  ultimately obtain h c where "p = th" "respond K (calls s4) ?m = NoError"
    "kmalloc (sizeof_ControlBlock L) (heap s) = Done (c, h)"
    "s' = (update_obj th (\<lambda>t. t\<lparr>endpoint := exp_value sl\<rparr>) (s4\<lparr>calls := calls s4 @ [?m]\<rparr>))\<lparr>heap := h\<rparr>"
    by (auto simp: make_shared_ptr_def heap_new_def operator_new_def and_then_Done_iff update_obj_def
        split: if_splits)
  with s4 show ?thesis
    by (intro that [where cs = "[?c1, ?c2, ?c3]" and q = q and h = h and slot = "exp_value sl" and c = c])
      (auto simp: update_obj_def)
qed

lemma configure_thread_failure:
  assumes "configure_thread K L tcb_cap th ep pages ipc tls buf s = Done (unexpected err v, s')"
  shows "heap s' = heap s \<and> currentVirtualAddress s' = currentVirtualAddress s \<and>
    (\<forall>q. q \<noteq> th \<longrightarrow> objs s' q = objs s q) \<and> factory_state.more s' = factory_state.more s"
proof -
  let ?t = "objs s th"
  let ?c1 = "TCB_SetTLSBase (tcb ?t) tls" and ?c2 = "TCB_SetIPCBuffer (tcb ?t) buf ipc"
    and ?c3 = "TCB_SetPriority (tcb ?t) (maxPrio K)"
  let ?s3 = "s\<lparr>calls := calls s @ [?c1, ?c2, ?c3], objs := (objs s)(th := ?t\<lparr>priority := maxPrio K\<rparr>)\<rparr>"
  obtain sl s4 where g: "getFreeSlot K ?s3 = (sl, s4)" by fastforce
  from getFreeSlot_frame [OF g] have s4: "heap s4 = heap s" "currentVirtualAddress s4 = currentVirtualAddress s"
    "objs s4 = objs ?s3" "factory_state.more s4 = factory_state.more s"
    by auto
  show ?thesis
    using assms g s4
    by (auto simp: configure_thread_def invoke_def setPriority_def update_obj_def Let_def releaseSlot_def
        and_then_Done_iff split: if_splits prod.splits dest!: give_up_Done(2))
qed

text \<open>Mapping a page leaves the heap, the objects and the next address alone.\<close>

lemma mapPage_frame:
  assumes "mapPage K a rights s = Done (r, s')"
  shows "to_bool r" "\<exists>cs p. s' = s\<lparr>calls := calls s @ cs, emptySlotPos := p, mappedPages := mappedPages s + 1\<rparr>"
proof -
  show "to_bool r" by (subst mapPage_returns(1) [OF assms]) simp
qed (use mapPage_returns(2) [OF assms] in \<open>simp add: page_change_def\<close>)


text \<open>The pages of a thread: three mappings at consecutive addresses, then the configuration.\<close>

lemma map_thread_pages_steps:
  assumes "map_thread_pages K L tcb_cap th ep s = Done (r, s')"
  obtains S cs q pages ipc f1 f2 f3 where
    "configure_thread K L tcb_cap th ep pages ipc (currentVirtualAddress s + PAGE_SIZE)
       (currentVirtualAddress s + PAGE_SIZE + PAGE_SIZE) S = Done (r, s')"
    "S = s\<lparr>calls := calls s @ cs, emptySlotPos := q, mappedPages := mappedPages s + 1 + 1 + 1,
          currentVirtualAddress := currentVirtualAddress s + PAGE_SIZE + PAGE_SIZE + PAGE_SIZE,
          objs := (objs s)(th := (objs s th)\<lparr>tcbStackAddr := currentVirtualAddress s\<rparr>)\<rparr>"
    "Page_Map f1 (currentVirtualAddress s) (readWrite K) \<in> set (calls s @ cs)"
    "Page_Map f2 (currentVirtualAddress s + PAGE_SIZE) (readWrite K) \<in> set (calls s @ cs)"
    "Page_Map f3 (currentVirtualAddress s + PAGE_SIZE + PAGE_SIZE) (readWrite K) \<in> set (calls s @ cs)"
proof -
  let ?a = "currentVirtualAddress s" and ?rw = "readWrite K"
  let ?s0 = "update_obj th (\<lambda>t. t\<lparr>tcbStackAddr := ?a\<rparr>) s"
  from assms obtain r1 s1 where m1: "mapPage K ?a ?rw ?s0 = Done (r1, s1)"
    by (auto simp: map_thread_pages_def update_obj_def Let_def and_then_Done_iff)
  from mapPage_frame [OF m1] obtain cs1 q1 where s1: "to_bool r1"
    "s1 = ?s0\<lparr>calls := calls ?s0 @ cs1, emptySlotPos := q1, mappedPages := mappedPages ?s0 + 1\<rparr>" by blast
  from assms m1 s1 obtain r2 s2 where m2: "mapPage K (?a + PAGE_SIZE) ?rw (next_address s1) = Done (r2, s2)"
    by (auto simp: map_thread_pages_def update_obj_def next_address_def Let_def and_then_Done_iff)
  from mapPage_frame [OF m2] obtain cs2 q2 where s2: "to_bool r2"
    "s2 = (next_address s1)\<lparr>calls := calls (next_address s1) @ cs2, emptySlotPos := q2,
       mappedPages := mappedPages (next_address s1) + 1\<rparr>" by blast
  from assms m1 s1 m2 s2 obtain r3 s3 where
    m3: "mapPage K (?a + PAGE_SIZE + PAGE_SIZE) ?rw (next_address s2) = Done (r3, s3)"
    by (auto simp: map_thread_pages_def update_obj_def next_address_def Let_def and_then_Done_iff)
  from mapPage_frame [OF m3] obtain cs3 q3 where s3: "to_bool r3"
    "s3 = (next_address s2)\<lparr>calls := calls (next_address s2) @ cs3, emptySlotPos := q3,
       mappedPages := mappedPages (next_address s2) + 1\<rparr>" by blast
  show ?thesis
  proof (rule that [where S = "next_address s3" and cs = "cs1 @ cs2 @ cs3" and q = q3])
    show "configure_thread K L tcb_cap th ep [exp_value r1, exp_value r2, exp_value r3] (exp_value r3)
       (?a + PAGE_SIZE) (?a + PAGE_SIZE + PAGE_SIZE) (next_address s3) = Done (r, s')"
      using assms m1 s1 m2 s2 m3 s3
      by (simp add: map_thread_pages_def update_obj_def next_address_def Let_def)
    show "next_address s3 = s\<lparr>calls := calls s @ cs1 @ cs2 @ cs3, emptySlotPos := q3,
          mappedPages := mappedPages s + 1 + 1 + 1,
          currentVirtualAddress := ?a + PAGE_SIZE + PAGE_SIZE + PAGE_SIZE,
          objs := (objs s)(th := (objs s th)\<lparr>tcbStackAddr := ?a\<rparr>)\<rparr>"
      by (rule factory_state.equality) (simp_all add: s1(2) s2(2) s3(2) next_address_def update_obj_def)
    show "Page_Map (exp_value r1) ?a ?rw \<in> set (calls s @ cs1 @ cs2 @ cs3)"
      using mapPage_returns(3) [OF m1] s1 by (auto simp: update_obj_def)
    show "Page_Map (exp_value r2) (?a + PAGE_SIZE) ?rw \<in> set (calls s @ cs1 @ cs2 @ cs3)"
      using mapPage_returns(3) [OF m2] s1 s2 by (auto simp: update_obj_def next_address_def)
    show "Page_Map (exp_value r3) (?a + PAGE_SIZE + PAGE_SIZE) ?rw \<in> set (calls s @ cs1 @ cs2 @ cs3)"
      using mapPage_returns(3) [OF m3] s1 s2 s3 by (auto simp: update_obj_def next_address_def)
  qed
qed


lemma createThread_steps:
  assumes "allocObject K TCBObject s = (success tcb_cap e0, s1)"
    and "createThread K L b entry ep s = Done (r, s')"
  obtains p h s2 where "kmalloc (sizeof_Thread L) (heap s) = Done (p, h)" "p \<noteq> 0"
    "s2 = s1\<lparr>calls := calls s1 @ [TCB_SetSpace tcb_cap 0 0 0], heap := h,
       objs := (objs s)(p := (new_Thread tcb_cap entry)\<lparr>badge := b\<rparr>)\<rparr>"
    "give_up K (respond K (calls s1) (TCB_SetSpace tcb_cap 0 0 0)) tcb_cap [] s2 = Done (r, s') \<or>
     map_thread_pages K L tcb_cap p ep s2 = Done (r, s')"
proof -
  from pool_change_page [OF allocObject_change(1) [OF assms(1)]]
  have s1: "heap s1 = heap s" "objs s1 = objs s" by auto
  let ?f = "\<lambda>p. (new_Thread tcb_cap entry)\<lparr>badge := b\<rparr>"
  obtain p h where k: "kmalloc (sizeof_Thread L) (heap s) = Done (p, h)" "p \<noteq> 0"
    using assms by (auto simp: createThread_def alloc_thread_def heap_new_def operator_new_def
        and_then_Done_iff s1 split: if_splits)
  let ?u = "(update_obj p (\<lambda>t. t\<lparr>badge := b\<rparr>)
          (update_obj p (\<lambda>_. new_Thread tcb_cap entry) (s1\<lparr>heap := h\<rparr>)))
        \<lparr>calls := calls s1 @ [TCB_SetSpace tcb_cap 0 0 0]\<rparr>"
  show ?thesis
  proof (rule that [OF k])
    show "?u = s1\<lparr>calls := calls s1 @ [TCB_SetSpace tcb_cap 0 0 0], heap := h, objs := (objs s)(p := ?f p)\<rparr>"
      by (rule factory_state.equality) (simp_all add: update_obj_def s1)
    have "calls (update_obj p g t) = calls t" "objs (update_obj p g t) p = g (objs t p)"
      for g and t :: "'a factory_state_scheme"
      by (simp_all add: update_obj_def)
    moreover have "tcb ((new_Thread tcb_cap entry)\<lparr>badge := b\<rparr>) = tcb_cap" by (simp add: new_Thread_def)
    ultimately show "give_up K (respond K (calls s1) (TCB_SetSpace tcb_cap 0 0 0)) tcb_cap [] ?u = Done (r, s') \<or>
       map_thread_pages K L tcb_cap p ep ?u = Done (r, s')"
      using assms k by (simp add: createThread_def alloc_thread_def heap_new_def operator_new_def
          invoke_def s1 Let_def split: if_splits)
  qed
qed

text \<open>Everything \<open>createThread\<close> does to the heap and the objects, whatever it returns.\<close>

lemma createThread_effect:
  assumes "createThread K L b entry ep s = Done (r, s')"
  shows "factory_state.more s' = factory_state.more s \<and>
    ((heap s' = heap s \<and> objs s' = objs s \<and> \<not> to_bool r) \<or>
     (\<exists>p h. kmalloc (sizeof_Thread L) (heap s) = Done (p, h) \<and> p \<noteq> 0 \<and>
        (\<forall>q. q \<noteq> p \<longrightarrow> objs s' q = objs s q) \<and>
        ((\<not> to_bool r \<and> heap s' = h) \<or>
         (to_bool r \<and> exp_value r = p \<and> badge (objs s' p) = b \<and>
          (\<exists>c. kmalloc (sizeof_ControlBlock L) h = Done (c, heap s'))))))"
proof -
  obtain x s1 where a: "allocObject K TCBObject s = (x, s1)" by fastforce
  obtain cs0 q0 where s1: "s1 = s\<lparr>calls := calls s @ cs0, emptySlotPos := q0\<rparr>"
    using pool_change_page [OF allocObject_change(1) [OF a]] by blast
  show ?thesis
  proof (cases "to_bool x")
    case False
    then show ?thesis using assms a s1 by (auto simp: createThread_def)
  next
    case True
    with allocObject_change(2) [OF a] a have a': "allocObject K TCBObject s = (success (exp_value x) NoError, s1)"
      by simp
    from createThread_steps [OF a' assms] obtain p h s2 where
      k: "kmalloc (sizeof_Thread L) (heap s) = Done (p, h)" "p \<noteq> 0"
      and s2: "s2 = s1\<lparr>calls := calls s1 @ [TCB_SetSpace (exp_value x) 0 0 0], heap := h,
         objs := (objs s)(p := (new_Thread (exp_value x) entry)\<lparr>badge := b\<rparr>)\<rparr>"
      and d: "give_up K (respond K (calls s1) (TCB_SetSpace (exp_value x) 0 0 0)) (exp_value x) [] s2 = Done (r, s') \<or>
       map_thread_pages K L (exp_value x) p ep s2 = Done (r, s')" .
    from d show ?thesis
    proof
      assume g: "give_up K (respond K (calls s1) (TCB_SetSpace (exp_value x) 0 0 0)) (exp_value x) [] s2 = Done (r, s')"
      from give_up_Done [OF g] k show ?thesis by (auto simp: s2 s1)
    next
      assume "map_thread_pages K L (exp_value x) p ep s2 = Done (r, s')"
      from map_thread_pages_steps [OF this] obtain S cs q pages ipc f1 f2 f3 where
        c: "configure_thread K L (exp_value x) p ep pages ipc (currentVirtualAddress s2 + PAGE_SIZE)
           (currentVirtualAddress s2 + PAGE_SIZE + PAGE_SIZE) S = Done (r, s')"
        and S: "S = s2\<lparr>calls := calls s2 @ cs, emptySlotPos := q, mappedPages := mappedPages s2 + 1 + 1 + 1,
            currentVirtualAddress := currentVirtualAddress s2 + PAGE_SIZE + PAGE_SIZE + PAGE_SIZE,
            objs := (objs s2)(p := (objs s2 p)\<lparr>tcbStackAddr := currentVirtualAddress s2\<rparr>)\<rparr>" .
      have frame: "heap S = h" "factory_state.more S = factory_state.more s" "badge (objs S p) = b"
        "\<And>q. q \<noteq> p \<Longrightarrow> objs S q = objs s q"
        by (simp_all add: S s2 s1 new_Thread_def)
      show ?thesis
      proof (cases r rule: Expected_cases)
        case (1 v e)
        from configure_thread_success [OF c [unfolded 1]] obtain ds q' h' slot c' where
          "v = p" "kmalloc (sizeof_ControlBlock L) (heap S) = Done (c', h')"
          "s' = S\<lparr>calls := calls S @ ds @ [CNode_Mint slot ep (badge (objs S p))], emptySlotPos := q', heap := h',
             objs := (objs S)(p := (objs S p)\<lparr>priority := maxPrio K, endpoint := slot\<rparr>)\<rparr>" .
        then show ?thesis using 1 k frame by auto
      next
        case (2 e v)
        from configure_thread_failure [OF c [unfolded 2]] show ?thesis using 2 k frame by auto
      qed
    qed
  qed
qed

section \<open>Properties\<close>

text \<open>
  C27. A thread that \<open>createThread\<close> returns carries the given badge and entry point, has the
  maximal priority, is not started, has its stack at the address that was next, and its endpoint is
  a slot for which the kernel accepted the minting of the API endpoint with that badge; the three
  pages were mapped at the three consecutive addresses, which are then behind the next address.
\<close>

theorem createThread_success:
  assumes "createThread K L b entry ep s = Done (success p e, s')"
  shows "let t = objs s' p; a = currentVirtualAddress s in
    badge t = b \<and> entryPoint t = entry \<and> tstate t = Uninitialized \<and> priority t = maxPrio K \<and>
    tcbStackAddr t = a \<and>
    (\<exists>h. calls s' = h @ [CNode_Mint (endpoint t) ep b] \<and>
         respond K h (CNode_Mint (endpoint t) ep b) = NoError) \<and>
    (\<exists>f1 f2 f3. {Page_Map f1 a (readWrite K), Page_Map f2 (a + PAGE_SIZE) (readWrite K),
       Page_Map f3 (a + PAGE_SIZE + PAGE_SIZE) (readWrite K)} \<subseteq> set (calls s')) \<and>
    currentVirtualAddress s' = a + PAGE_SIZE + PAGE_SIZE + PAGE_SIZE \<and>
    mappedPages s' = mappedPages s + 3"
proof -
  obtain x s1 where a: "allocObject K TCBObject s = (x, s1)" by fastforce
  have "to_bool x" using assms a by (auto simp: createThread_def split: if_splits)
  with allocObject_change(2) [OF a] a have a': "allocObject K TCBObject s = (success (exp_value x) NoError, s1)"
    by simp
  obtain cs0 q0 where s1: "s1 = s\<lparr>calls := calls s @ cs0, emptySlotPos := q0\<rparr>"
    using pool_change_page [OF allocObject_change(1) [OF a]] by blast
  from createThread_steps [OF a' assms] obtain p' h s2 where
    k: "kmalloc (sizeof_Thread L) (heap s) = Done (p', h)" "p' \<noteq> 0"
    and s2: "s2 = s1\<lparr>calls := calls s1 @ [TCB_SetSpace (exp_value x) 0 0 0], heap := h,
       objs := (objs s)(p' := (new_Thread (exp_value x) entry)\<lparr>badge := b\<rparr>)\<rparr>"
    and d: "give_up K (respond K (calls s1) (TCB_SetSpace (exp_value x) 0 0 0)) (exp_value x) [] s2 = Done (success p e, s') \<or>
     map_thread_pages K L (exp_value x) p' ep s2 = Done (success p e, s')" .
  from d have "map_thread_pages K L (exp_value x) p' ep s2 = Done (success p e, s')"
    by (simp add: give_up_def)
  from map_thread_pages_steps [OF this] obtain S cs q pages ipc f1 f2 f3 where
    c: "configure_thread K L (exp_value x) p' ep pages ipc (currentVirtualAddress s2 + PAGE_SIZE)
       (currentVirtualAddress s2 + PAGE_SIZE + PAGE_SIZE) S = Done (success p e, s')"
    and S: "S = s2\<lparr>calls := calls s2 @ cs, emptySlotPos := q, mappedPages := mappedPages s2 + 1 + 1 + 1,
          currentVirtualAddress := currentVirtualAddress s2 + PAGE_SIZE + PAGE_SIZE + PAGE_SIZE,
          objs := (objs s2)(p' := (objs s2 p')\<lparr>tcbStackAddr := currentVirtualAddress s2\<rparr>)\<rparr>"
    and f: "Page_Map f1 (currentVirtualAddress s2) (readWrite K) \<in> set (calls s2 @ cs)"
      "Page_Map f2 (currentVirtualAddress s2 + PAGE_SIZE) (readWrite K) \<in> set (calls s2 @ cs)"
      "Page_Map f3 (currentVirtualAddress s2 + PAGE_SIZE + PAGE_SIZE) (readWrite K) \<in> set (calls s2 @ cs)" .
  from configure_thread_success [OF c] obtain ds q' h' slot c' where p: "p = p'"
    and "kmalloc (sizeof_ControlBlock L) (heap S) = Done (c', h')"
    and s': "s' = S\<lparr>calls := calls S @ ds @ [CNode_Mint slot ep (badge (objs S p'))], emptySlotPos := q', heap := h',
       objs := (objs S)(p' := (objs S p')\<lparr>priority := maxPrio K, endpoint := slot\<rparr>)\<rparr>"
    and m: "respond K (calls S @ ds) (CNode_Mint slot ep (badge (objs S p'))) = NoError" .
  have "calls s' = (calls S @ ds) @ [CNode_Mint slot ep b]" "calls S = calls s2 @ cs"
    using s' S s2 by (simp_all add: new_Thread_def)
  then show ?thesis
    using f m unfolding Let_def p
    by (intro conjI exI [of _ "calls S @ ds"] exI [of _ f1] exI [of _ f2] exI [of _ f3])
      (auto simp: s' S s2 s1 new_Thread_def)
qed

text \<open>A small machine: the heap of four chunks holds one thread and one control block.\<close>

definition factory0 :: factory_state where
  "factory0 = \<lparr>calls = [], emptySlotPos = 0, pdpt = 0, pd = 0, pt = 0, mappedPages = 0,
     currentVirtualAddress = 0x800000B000, heap = small_pool, objs = (\<lambda>_. new_Thread 0 0)\<rparr>"

definition layout0 :: layout where
  "layout0 = \<lparr>sizeof_Thread = 20, sizeof_ControlBlock = 20\<rparr>"

lemma small_pool_twice:
  obtains h p h' where "kmalloc 20 small_pool = Done (4128, h)" "kmalloc 20 h = Done (p, h')" "p \<noteq> 0"
proof -
  obtain h where h: "kmalloc 20 small_pool = Done (4128, h)" "heap_ready h [2, 3] [(0, 2, 20)]"
    "pool h = 4096"
    using small_pool_taken by blast
  have c: "chunk_count 20 = Some 2"
    using chunk_count_ends [of 20] by (simp add: chunks_for_def info_size_def)
  have "first_fit 2 0 (hd [2, 3]) [2, 3] = Some 2" by (simp add: numeral_eq_Suc)
  from kmalloc_fit [OF h(2) c this] obtain h' where "kmalloc 20 h = Done (data_addr h (CPool 2), h')"
    by blast
  moreover have "data_addr h (CPool 2) \<noteq> 0" by (simp add: h(3) chunk_size_def info_size_def)
  ultimately show ?thesis using that h(1) by blast
qed

theorem createThread_success_witness:
  "\<exists>s'. createThread demo_kernel layout0 5 77 9 factory0 = Done (success 4128 NoError, s') \<and>
    badge (objs s' 4128) = 5 \<and> tcbStackAddr (objs s' 4128) = 0x800000B000 \<and>
    priority (objs s' 4128) = 255 \<and> currentVirtualAddress s' = 0x800000E000"
proof -
  obtain h p h' where "kmalloc 20 small_pool = Done (4128, h)" "kmalloc 20 h = Done (p, h')" "p \<noteq> 0"
    by (rule small_pool_twice)
  then have "\<exists>s'. createThread demo_kernel layout0 5 77 9 factory0 = Done (success 4128 NoError, s')"
    by (simp add: createThread_def map_thread_pages_def configure_thread_def mapPage_def count_page_def
        allocObject_def getFreeSlot_def untypeds_def upt_rec invoke_def demo_kernel_def factory0_def
        layout0_def alloc_thread_def heap_new_def operator_new_def make_shared_ptr_def update_obj_def
        next_address_def setPriority_def new_Thread_def Let_def)
  then obtain s' where s': "createThread demo_kernel layout0 5 77 9 factory0 = Done (success 4128 NoError, s')"
    by blast
  from createThread_success [OF s'] s' show ?thesis
    by (auto simp: Let_def factory0_def PAGE_SIZE_def demo_kernel_def)
qed




end
