(* ===== verification/RootServer.thy ===== *)
theory RootServer
  imports ObjectFactory Shell
begin

text \<open>
  The root server of \<open>userland/RootServer.cpp\<close>: start-up, the thread table, and the loop that receives
  a message, finds its sender and serves the system call. The state extends the object factory's
  with the table, the endpoint, the badge counter, the shell and the bytes of the reserved pages.
  Printing and \<open>seL4_DebugDumpScheduler\<close> have no effect on the state.
\<close>

section \<open>State\<close>

definition ReservedPages :: nat where "ReservedPages = 10"
definition AddressTables :: u64 where "AddressTables = 0x8000000000"
definition ReservedVaddr :: u64 where "ReservedVaddr = 0x8000001000"

record root_state = factory_state +
  threads :: "u64 vector"
  rs_shell :: shell
  com1port :: CPtr
  apiEndpoint :: CPtr
  tcbBadgeCounter :: u64
  ram :: "u64 \<Rightarrow> u8"

text \<open>\<open>sizeof (std::shared_ptr<Thread>)\<close>: two pointers.\<close>

definition sizeof_shared_ptr :: u64 where "sizeof_shared_ptr = 16"

section \<open>The thread table\<close>

text \<open>
  \<open>push_back\<close> assigns to a place of the new block, and the assignment of a \<open>shared_ptr\<close> releases what
  was there before; the model takes the unused places of the block to hold null pointers.
\<close>

definition table_add ::
    "(u64 \<Rightarrow> u64 \<Rightarrow> u64 \<Rightarrow> u64 \<Rightarrow> kheap \<Rightarrow> kheap) \<Rightarrow> u64 \<Rightarrow> root_state \<Rightarrow> root_state outcome" where
  "table_add copy t s =
     and_then (push_back (krealloc copy) sizeof_shared_ptr t (threads s) (heap s)) (\<lambda>(v, h).
     Done (s\<lparr>threads := v, heap := h\<rparr>))"

text \<open>The first thread with the badge, 0 for \<open>nullptr\<close>.\<close>

definition table_get :: "u64 \<Rightarrow> root_state \<Rightarrow> u64" where
  "table_get b s =
     (case find (\<lambda>t. badge (objs s t) = b) (vector_list (threads s)) of Some t \<Rightarrow> t | None \<Rightarrow> 0)"

section \<open>Start-up\<close>

definition new_RootServer :: "kernel \<Rightarrow> root_state \<Rightarrow> root_state outcome" where
  "new_RootServer K s =
     init_page_table K AddressTables
       (s\<lparr>currentVirtualAddress := ReservedVaddr + of_nat ReservedPages * PAGE_SIZE\<rparr>)"

text \<open>
  The three loops of \<open>reservePages\<close>: map, clear, check and clear again. The last one does not move on
  from the first page.
\<close>

fun map_pages :: "kernel \<Rightarrow> nat \<Rightarrow> u64 \<Rightarrow> root_state \<Rightarrow> root_state outcome" where
  "map_pages K 0 vaddr s = Done s"
| "map_pages K (Suc n) vaddr s =
     and_then (mapPage K vaddr (readWrite K) s) (\<lambda>(capOrError, s).
     and_then (assert_that (to_bool capOrError)) (\<lambda>_. map_pages K n (vaddr + PAGE_SIZE) s))"

definition page_bytes :: "u64 \<Rightarrow> u64 list" where
  "page_bytes vaddr = map (\<lambda>j. vaddr + of_nat j) [0..<unat PAGE_SIZE]"

fun clear_pages :: "nat \<Rightarrow> u64 \<Rightarrow> (u64 \<Rightarrow> u8) \<Rightarrow> u64 \<Rightarrow> u8" where
  "clear_pages 0 vaddr r = r"
| "clear_pages (Suc n) vaddr r =
     clear_pages n (vaddr + PAGE_SIZE) (foldl (\<lambda>r a. r(a := 0)) r (page_bytes vaddr))"

fun check_bytes :: "u64 list \<Rightarrow> (u64 \<Rightarrow> u8) \<Rightarrow> (u64 \<Rightarrow> u8) outcome" where
  "check_bytes [] r = Done r"
| "check_bytes (a # as) r = and_then (assert_that (r a = 0)) (\<lambda>_. check_bytes as (r(a := 0)))"

fun check_pages :: "nat \<Rightarrow> u64 \<Rightarrow> (u64 \<Rightarrow> u8) \<Rightarrow> (u64 \<Rightarrow> u8) outcome" where
  "check_pages 0 vaddr r = Done r"
| "check_pages (Suc n) vaddr r =
     and_then (check_bytes (page_bytes vaddr) r) (check_pages n vaddr)"

definition reservePages :: "kernel \<Rightarrow> root_state \<Rightarrow> root_state outcome" where
  "reservePages K s =
     and_then (map_pages K ReservedPages ReservedVaddr s) (\<lambda>s.
     and_then (check_pages ReservedPages ReservedVaddr (clear_pages ReservedPages ReservedVaddr (ram s))) (\<lambda>r.
     Done (s\<lparr>ram := r\<rparr>)))"

text \<open>\<open>mainThread\<close> is the address of \<open>Thread::main\<close>, which becomes the user data first.\<close>

definition earlyInit :: "kernel \<Rightarrow> u64 \<Rightarrow> root_state \<Rightarrow> root_state outcome" where
  "earlyInit K mainThread s =
     (let userData = mainThread in
      and_then (assert_that (calledFromMain userData mainThread)) (\<lambda>_.
      and_then (reservePages K s) (\<lambda>s.
      let (kmallocNotif, s) = createNotification K s in
      and_then (setMemoryPool ReservedVaddr (of_nat ReservedPages * PAGE_SIZE) (exp_value kmallocNotif) (heap s)) (\<lambda>h.
      Done (s\<lparr>heap := h\<rparr>)))))"

definition lateInit :: "kernel \<Rightarrow> root_state \<Rightarrow> root_state outcome" where
  "lateInit K s =
     (let (apiEpOrErr, s) = createEndpoint K s in
      and_then (assert_that (to_bool apiEpOrErr)) (\<lambda>_.
      let s = s\<lparr>apiEndpoint := exp_value apiEpOrErr\<rparr>;
          (com1SlotOrErr, s) = getFreeSlot K s in
      and_then (assert_that (to_bool com1SlotOrErr)) (\<lambda>_.
      let (err, s) = invoke K (IOPortControl_Issue 0x3F8 (0x3F8 + 7) (exp_value com1SlotOrErr)) s in
      and_then (assert_that (err = NoError)) (\<lambda>_.
      let (com1IRQSlotOrErr, s) = getFreeSlot K s in
      and_then (assert_that (to_bool com1IRQSlotOrErr)) (\<lambda>_.
      let s = s\<lparr>com1port := exp_value com1SlotOrErr\<rparr> in
      and_then (shell_init (rs_shell s) (heap s)) (\<lambda>(sh, h).
      Done (s\<lparr>rs_shell := sh, heap := h\<rparr>)))))))"

definition root_createThread ::
    "kernel \<Rightarrow> layout \<Rightarrow> (u64 \<Rightarrow> u64 \<Rightarrow> u64 \<Rightarrow> u64 \<Rightarrow> kheap \<Rightarrow> kheap) \<Rightarrow> u64 \<Rightarrow> root_state \<Rightarrow>
     (thread_or_error \<times> root_state) outcome" where
  "root_createThread K L copy entry s =
     (let b = tcbBadgeCounter s; s = s\<lparr>tcbBadgeCounter := b + 1\<rparr> in
      and_then (createThread K L b entry (apiEndpoint s) s) (\<lambda>(ret, s).
      if to_bool ret then and_then (table_add copy (exp_value ret) s) (\<lambda>s. Done (ret, s))
      else Done (ret, s)))"

section \<open>Serving system calls\<close>

text \<open>An operation of \<open>Thread\<close> on the object at \<open>t\<close>; the error it returns is dropped.\<close>

definition on_thread ::
    "(thread \<Rightarrow> root_state \<Rightarrow> seL4_Error \<times> thread \<times> root_state) \<Rightarrow> u64 \<Rightarrow> root_state \<Rightarrow> root_state" where
  "on_thread f t s = (let (_, th, s) = f (objs s t) s in update_obj t (\<lambda>_. th) s)"

definition thread_request :: "kernel \<Rightarrow> u64 \<Rightarrow> u64 \<Rightarrow> u64 \<Rightarrow> root_state \<Rightarrow> root_state" where
  "thread_request K op arg1 arg2 s =
     (let t = table_get arg1 s
      in if op = Op_Suspend then (if t \<noteq> 0 then on_thread (suspend K) t s else s)
         else if op = Op_Resume then (if t \<noteq> 0 then on_thread (resume K) t s else s)
         else if op = Op_SetPriority then (if t \<noteq> 0 then on_thread (setPriority K arg2) t s else s)
         else s)"

text \<open>The reply, if one is sent: the message and the registers.\<close>

type_synonym reply = "(msg_info \<times> mregs) option"

definition processSyscall ::
    "kernel \<Rightarrow> msg_info \<Rightarrow> mregs \<Rightarrow> root_state \<Rightarrow> (reply \<times> root_state) outcome" where
  "processSyscall K info mr s =
     and_then (assert_that (msg_length info > 0)) (\<lambda>_.
     let syscallID = mr 0;
         answer = (\<lambda>v s. Done (Some (info, mr(1 := v)), s))
     in if syscallID = ID_Debug then Done (None, s)
        else if syscallID = ID_KMalloc then
          (let p = decode_kmalloc info mr in
           if to_bool p then
             (case exp_value p of
                KMallocRequest sz \<Rightarrow> and_then (kmalloc sz (heap s)) (\<lambda>(ret, h). answer ret (s\<lparr>heap := h\<rparr>))
              | _ \<Rightarrow> Stuck)
           else Done (None, s))
        else if syscallID = ID_KFree then
          (let p = decode_kfree info mr in
           if to_bool p then
             (case exp_value p of
                KFreeRequest ptr \<Rightarrow> and_then (kfree ptr (heap s)) (\<lambda>h. answer 0 (s\<lparr>heap := h\<rparr>))
              | _ \<Rightarrow> Stuck)
           else Done (None, s))
        else if syscallID = ID_Thread then
          (let p = decode_thread info mr in
           if to_bool p then
             (case exp_value p of
                ThreadRequest op arg1 arg2 \<Rightarrow> answer 0 (thread_request K op arg1 arg2 s)
              | _ \<Rightarrow> Stuck)
           else Done (None, s))
        else if syscallID = ID_MMap then
          (let p = decode_mmap info mr in if to_bool p then answer 12345 s else Done (None, s))
        else Done (None, s))"

datatype fault = NullFault | CapFault | UnknownSyscall | UserException | VMFault | OtherFault

text \<open>One turn of the loop, for the message received; \<open>fault_of\<close> reads the kernel's label.\<close>

definition root_step ::
    "kernel \<Rightarrow> (u64 \<Rightarrow> fault) \<Rightarrow> u64 \<Rightarrow> msg_info \<Rightarrow> mregs \<Rightarrow> root_state \<Rightarrow> (reply \<times> root_state) outcome" where
  "root_step K fault_of sender info mr s =
     (let caller = table_get sender s in
      and_then (assert_that (caller \<noteq> 0)) (\<lambda>_.
      if fault_of (msg_label info) = NullFault then processSyscall K info mr s
      else Done (None, s)))"


section \<open>The run loop\<close>

text \<open>
  A thread made by \<open>run\<close>: it is named and started when it was created. \<open>tm\<close> is the address of
  \<open>_threadMain\<close>; the entry points of the console thread and of the test thread are named 1 and 2.
\<close>

definition start_created ::
    "kernel \<Rightarrow> layout \<Rightarrow> (u64 \<Rightarrow> u64 \<Rightarrow> u64 \<Rightarrow> u64 \<Rightarrow> kheap \<Rightarrow> kheap) \<Rightarrow> u64 \<Rightarrow> u64 \<Rightarrow> string \<Rightarrow> root_state \<Rightarrow>
     root_state outcome" where
  "start_created K L copy tm entry name s =
     and_then (root_createThread K L copy entry s) (\<lambda>(th, s).
     if to_bool th then
       (let s = setName name (objs s (exp_value th)) s
        in Done (on_thread (start_thread K tm (exp_value th)) (exp_value th) s))
     else Done s)"

definition run_start ::
    "kernel \<Rightarrow> layout \<Rightarrow> (u64 \<Rightarrow> u64 \<Rightarrow> u64 \<Rightarrow> u64 \<Rightarrow> kheap \<Rightarrow> kheap) \<Rightarrow> u64 \<Rightarrow> root_state \<Rightarrow>
     root_state outcome" where
  "run_start K L copy tm s =
     and_then (start_created K L copy tm 1 ''Com1'' s) (start_created K L copy tm 2 ''Test thread'')"

text \<open>The endless loop, for the messages received so far: the replies and the state.\<close>

type_synonym message = "u64 \<times> msg_info \<times> mregs"

fun run_loop ::
    "kernel \<Rightarrow> (u64 \<Rightarrow> fault) \<Rightarrow> message list \<Rightarrow> root_state \<Rightarrow> (reply list \<times> root_state) outcome" where
  "run_loop K fault_of [] s = Done ([], s)"
| "run_loop K fault_of ((sender, info, mr) # ms) s =
     and_then (root_step K fault_of sender info mr s) (\<lambda>(r, s).
     and_then (run_loop K fault_of ms s) (\<lambda>(rs, s). Done (r # rs, s)))"

definition run ::
    "kernel \<Rightarrow> layout \<Rightarrow> (u64 \<Rightarrow> u64 \<Rightarrow> u64 \<Rightarrow> u64 \<Rightarrow> kheap \<Rightarrow> kheap) \<Rightarrow> u64 \<Rightarrow> (u64 \<Rightarrow> fault) \<Rightarrow> message list \<Rightarrow>
     root_state \<Rightarrow> (reply list \<times> root_state) outcome" where
  "run K L copy tm fault_of ms s = and_then (run_start K L copy tm s) (run_loop K fault_of ms)"

text \<open>The console thread's loop body, for the byte read from the port.\<close>

definition com1_step :: "'x shell_env \<Rightarrow> u8 \<Rightarrow> shell \<Rightarrow> 'x world \<Rightarrow> (shell \<times> 'x world) outcome" where
  "com1_step E d sh w = (if d \<noteq> 0 then onChar E (char_of (unat d)) sh w else Done (sh, w))"

text \<open>The endless loop of the console thread, for the bytes read so far.\<close>

fun com1_loop :: "'x shell_env \<Rightarrow> u8 list \<Rightarrow> shell \<Rightarrow> 'x world \<Rightarrow> (shell \<times> 'x world) outcome" where
  "com1_loop E [] sh w = Done (sh, w)"
| "com1_loop E (d # ds) sh w = and_then (com1_step E d sh w) (\<lambda>(sh, w). com1_loop E ds sh w)"

end
