(* ===== verification/Root_Props.thy ===== *)
theory Root_Props
  imports RootServer
begin

text \<open>
  The properties of the root server: the state start-up leaves, the thread table with its badges,
  and system calls from a client's registers to the reply it decodes.
\<close>

section \<open>Start-up\<close>

lemma allocObject_frame:
  fixes s :: "'r pt_state_scheme"
  assumes "allocObject K ty s = (r, s')"
  shows "mappedPages s' = mappedPages s" "pt_state.more s' = pt_state.more s"
    "\<exists>cs. calls s' = calls s @ cs"
  using pool_change_page [OF allocObject_change(1) [OF assms]] by auto

lemma init_page_table_frame:
  assumes "init_page_table K vaddr s = Done s'"
  shows "mappedPages s' = mappedPages s" "pt_state.more s' = pt_state.more s"
proof -
  obtain r1 s1 where 1: "allocObject K X86_PDPTObject s = (r1, s1)" by fastforce
  obtain r2 s2 where 2: "allocObject K X86_PageDirectoryObject (s1\<lparr>pdpt := exp_value r1\<rparr>) = (r2, s2)"
    by fastforce
  obtain r3 s3 where 3: "allocObject K X86_PageTableObject (s2\<lparr>pd := exp_value r2\<rparr>) = (r3, s3)"
    by fastforce
  have "mappedPages s' = mappedPages s3 \<and> pt_state.more s' = pt_state.more s3"
    using assms 1 2 3 by (auto simp: init_page_table_def invoke_def Let_def split: if_splits)
  then show "mappedPages s' = mappedPages s" "pt_state.more s' = pt_state.more s"
    using allocObject_frame [OF 1] allocObject_frame [OF 2] allocObject_frame [OF 3] by simp_all
qed

lemma map_pages_effect:
  assumes "map_pages K n vaddr s = Done s'"
  shows "mappedPages s' = mappedPages s + of_nat n" "pt_state.more s' = pt_state.more s"
    "set (calls s) \<subseteq> set (calls s')"
    "\<forall>i < n. \<exists>f. Page_Map f (vaddr + of_nat i * PAGE_SIZE) (readWrite K) \<in> set (calls s')"
proof -
  have "mappedPages s' = mappedPages s + of_nat n \<and> pt_state.more s' = pt_state.more s \<and>
    set (calls s) \<subseteq> set (calls s') \<and>
    (\<forall>i < n. \<exists>f. Page_Map f (vaddr + of_nat i * PAGE_SIZE) (readWrite K) \<in> set (calls s'))"
    using assms
  proof (induction n arbitrary: vaddr s)
    case (Suc n)
    from Suc.prems obtain r s1 where m: "mapPage K vaddr (readWrite K) s = Done (r, s1)"
      and rest: "map_pages K n (vaddr + PAGE_SIZE) s1 = Done s'"
      by (auto simp: and_then_Done_iff split: if_splits)
    from mapPage_frame(2) [OF m] obtain cs q where
      s1: "s1 = s\<lparr>calls := calls s @ cs, emptySlotPos := q, mappedPages := mappedPages s + 1\<rparr>" by blast
    note IH = Suc.IH [OF rest]
    have "\<exists>f. Page_Map f (vaddr + of_nat i * PAGE_SIZE) (readWrite K) \<in> set (calls s')" if "i < Suc n" for i
    proof (cases i)
      case 0
      then show ?thesis using mapPage_returns(3) [OF m] IH by auto
    next
      case (Suc j)
      then have "\<exists>f. Page_Map f (vaddr + PAGE_SIZE + of_nat j * PAGE_SIZE) (readWrite K) \<in> set (calls s')"
        using IH that by simp
      then show ?thesis using Suc by (simp add: algebra_simps)
    qed
    then show ?case using IH s1 by (auto simp: algebra_simps)
  qed simp
  then show "mappedPages s' = mappedPages s + of_nat n" "pt_state.more s' = pt_state.more s"
    "set (calls s) \<subseteq> set (calls s')"
    "\<forall>i < n. \<exists>f. Page_Map f (vaddr + of_nat i * PAGE_SIZE) (readWrite K) \<in> set (calls s')" by auto
qed

text \<open>The fields behind the page table's are untouched when \<open>pt_state.more\<close> is.\<close>

lemma root_more:
  fixes s s' :: root_state
  assumes "pt_state.more s' = pt_state.more s"
  shows "heap s' = heap s" "currentVirtualAddress s' = currentVirtualAddress s" "objs s' = objs s"
    "factory_state.more s' = factory_state.more s"
  using assms by (cases s, cases s', simp)+

lemma root_tail:
  fixes s s' :: root_state
  assumes "factory_state.more s' = factory_state.more s"
  shows "threads s' = threads s" "tcbBadgeCounter s' = tcbBadgeCounter s" "ram s' = ram s"
  using assms by (cases s, cases s', simp)+

text \<open>The check of the cleared pages passes.\<close>

lemma zero_bytes: "foldl (\<lambda>r a. r(a := 0)) r as x = (if x \<in> set as then 0 else r x)"
  by (induction as arbitrary: r) auto

lemma clear_pages_zero:
  "r x = 0 \<or> (\<exists>i < n. x \<in> set (page_bytes (vaddr + of_nat i * PAGE_SIZE))) \<Longrightarrow> clear_pages n vaddr r x = 0"
proof (induction n arbitrary: vaddr r)
  case (Suc n)
  show ?case
  proof (cases "foldl (\<lambda>r a. r(a := 0)) r (page_bytes vaddr) x = 0")
    case True
    then show ?thesis using Suc.IH by simp
  next
    case False
    with Suc.prems obtain i where "i < Suc n" "x \<in> set (page_bytes (vaddr + of_nat i * PAGE_SIZE))"
      "x \<notin> set (page_bytes vaddr)" by (auto simp: zero_bytes split: if_splits)
    then obtain j where "j < n" "x \<in> set (page_bytes (vaddr + PAGE_SIZE + of_nat j * PAGE_SIZE))"
      by (cases i) (auto simp: algebra_simps)
    then show ?thesis using Suc.IH by auto
  qed
qed simp

lemma clear_pages_elsewhere:
  "\<forall>i < n. x \<notin> set (page_bytes (vaddr + of_nat i * PAGE_SIZE)) \<Longrightarrow> clear_pages n vaddr r x = r x"
proof (induction n arbitrary: vaddr r)
  case (Suc n)
  then have "\<forall>i < n. x \<notin> set (page_bytes (vaddr + PAGE_SIZE + of_nat i * PAGE_SIZE))"
    by (auto simp: algebra_simps dest: spec [of _ "Suc _"])
  moreover have "x \<notin> set (page_bytes vaddr)" using Suc.prems by force
  ultimately show ?case using Suc.IH by (simp add: zero_bytes)
qed simp

lemma check_bytes_zero: "\<forall>a \<in> set as. r a = 0 \<Longrightarrow> check_bytes as r = Done r"
proof (induction as arbitrary: r)
  case (Cons a as)
  then have "r(a := 0) = r" by auto
  with Cons show ?case by simp
qed simp

lemma check_pages_zero: "\<forall>x \<in> set (page_bytes vaddr). r x = 0 \<Longrightarrow> check_pages n vaddr r = Done r"
  by (induction n) (simp_all add: check_bytes_zero)

lemma check_cleared:
  "0 < n \<Longrightarrow> check_pages m vaddr (clear_pages n vaddr r) = Done (clear_pages n vaddr r)"
  by (intro check_pages_zero ballI clear_pages_zero) force

text \<open>\<open>reservePages\<close> as a whole: its check can not fail, and it leaves the ten pages cleared.\<close>

lemma reservePages_clears:
  assumes "reservePages K s = Done s'"
  shows "map_pages K ReservedPages ReservedVaddr s = Done (s'\<lparr>ram := ram s\<rparr>)"
    "ram s' = clear_pages ReservedPages ReservedVaddr (ram s)"
    "ram s' x = (if \<exists>i < ReservedPages. x \<in> set (page_bytes (ReservedVaddr + of_nat i * PAGE_SIZE)) then 0 else ram s x)"
proof -
  obtain sa where m: "map_pages K ReservedPages ReservedVaddr s = Done sa"
    using assms by (auto simp: reservePages_def and_then_Done_iff)
  have r: "ram sa = ram s"
    using root_tail(3) [OF root_more(4) [OF map_pages_effect(2) [OF m]]] .
  have "s' = sa\<lparr>ram := clear_pages ReservedPages ReservedVaddr (ram sa)\<rparr>"
    using assms m by (simp add: reservePages_def check_cleared ReservedPages_def)
  then show "map_pages K ReservedPages ReservedVaddr s = Done (s'\<lparr>ram := ram s\<rparr>)"
    and c: "ram s' = clear_pages ReservedPages ReservedVaddr (ram s)" using m r by simp_all
  show "ram s' x = (if \<exists>i < ReservedPages. x \<in> set (page_bytes (ReservedVaddr + of_nat i * PAGE_SIZE)) then 0 else ram s x)"
    unfolding c by (auto intro: clear_pages_zero clear_pages_elsewhere)
qed

lemma root_boot_effect:
  assumes "new_RootServer K s0 = Done s1" "earlyInit K mainThread s1 = Done s2"
    and "heap s0 = kheap_static" "mappedPages s0 = 0"
  shows "threads s2 = threads s0 \<and> tcbBadgeCounter s2 = tcbBadgeCounter s0 \<and> heap_ready (heap s2) [0..<1280] [] \<and> pool (heap s2) = ReservedVaddr \<and> mappedPages s2 = 10 \<and>
    currentVirtualAddress s2 = ReservedVaddr + 10 * PAGE_SIZE \<and>
    (\<forall>i < 10. \<exists>f. Page_Map f (ReservedVaddr + of_nat i * PAGE_SIZE) (readWrite K) \<in> set (calls s2))"
proof -
  note i = init_page_table_frame [OF assms(1) [unfolded new_RootServer_def]]
  have s1: "heap s1 = kheap_static" "mappedPages s1 = 0"
    "currentVirtualAddress s1 = ReservedVaddr + 10 * PAGE_SIZE" "threads s1 = threads s0"
    "tcbBadgeCounter s1 = tcbBadgeCounter s0"
    using i(1) root_more [OF i(2)] root_tail [OF root_more(4) [OF i(2)]] assms(3,4) by (simp_all add: ReservedPages_def)
  from assms(2) obtain sa where
    m: "map_pages K ReservedPages ReservedVaddr s1 = Done sa"
    by (auto simp: earlyInit_def calledFromMain_def calledFrom_def reservePages_def and_then_Done_iff Let_def)
  from assms(2) m obtain r where
    e: "(let (n, s) = createNotification K (sa\<lparr>ram := r\<rparr>) in
      and_then (setMemoryPool ReservedVaddr (of_nat ReservedPages * PAGE_SIZE) (exp_value n) (heap s)) (\<lambda>h.
      Done (s\<lparr>heap := h\<rparr>))) = Done s2"
    by (auto simp: earlyInit_def calledFromMain_def calledFrom_def reservePages_def and_then_Done_iff)
  obtain n sb where n: "allocObject K NotificationObject (sa\<lparr>ram := r\<rparr>) = (n, sb)" by fastforce
  note me = map_pages_effect [OF m] and ms = root_more [OF map_pages_effect(2) [OF m]]
  note ne = allocObject_frame [OF n] and ns = root_more [OF allocObject_frame(2) [OF n]]
  have hb: "heap sb = kheap_static" using ns(1) ms(1) s1(1) by simp
  obtain h where h: "setMemoryPool ReservedVaddr (of_nat ReservedPages * PAGE_SIZE) (exp_value n) kheap_static = Done h"
    "heap_ready h [0..<unat (of_nat ReservedPages * PAGE_SIZE) div 32] []" "pool h = ReservedVaddr"
    using setMemoryPool_heap [of ReservedVaddr "of_nat ReservedPages * PAGE_SIZE" "exp_value n"]
    by (auto simp: ReservedVaddr_def ReservedPages_def PAGE_SIZE_def)
  have "s2 = sb\<lparr>heap := h\<rparr>" using e n hb h(1) by (simp add: createNotification_def)
  moreover from this have "set (calls sa) \<subseteq> set (calls s2)" using ne(3) by auto
  then have "\<forall>i < 10. \<exists>f. Page_Map f (ReservedVaddr + of_nat i * PAGE_SIZE) (readWrite K) \<in> set (calls s2)"
    using me(4) unfolding ReservedPages_def by blast
  ultimately show ?thesis
    using h me(1) ne(1) ns(2) ms(2) root_tail [OF ns(4)] root_tail [OF ms(4)] s1 by (simp add: ReservedPages_def PAGE_SIZE_def)
qed


definition root0 :: root_state where
  "root0 = \<lparr>calls = [], emptySlotPos = 0, pdpt = 0, pd = 0, pt = 0, mappedPages = 0,
     currentVirtualAddress = 0, heap = kheap_static, objs = (\<lambda>_. new_Thread 0 0),
     threads = new_vector (\<lambda>_. 0),
     rs_shell = \<lparr>buffer = [], bufferIndex = 0, lastRet = 0,
       history = new_vector (\<lambda>_. \<lparr>s_ptr = 0, s_text = [], s_size = 0\<rparr>)\<rparr>,
     com1port = 0, apiEndpoint = 0, tcbBadgeCounter = 1, ram = (\<lambda>_. 0xFF)\<rparr>"

lemma demo_mapPage:
  assumes "0 < emptySlotPos s" "emptySlotPos s \<le> 140"
  obtains r s' where "mapPage demo_kernel v p s = Done (r, s')" "to_bool r"
    "emptySlotPos s' = emptySlotPos s + 1"
proof -
  have "emptySlotPos s \<noteq> 0" "\<not> 140 < emptySlotPos s" using assms by auto
  then show ?thesis
    using that
    by (simp add: mapPage_def count_page_def allocObject_def getFreeSlot_def untypeds_def upt_rec
        invoke_def demo_kernel_def Let_def)
qed

lemma demo_map_pages:
  assumes "0 < emptySlotPos s" "unat (emptySlotPos s) + n \<le> 141"
  shows "\<exists>s'. map_pages demo_kernel n v s = Done s' \<and> emptySlotPos s' = emptySlotPos s + of_nat n"
  using assms
proof (induction n arbitrary: s v)
  case (Suc n)
  then have "emptySlotPos s \<le> 140" by (simp add: word_le_nat_alt)
  with Suc.prems(1) obtain r s1 where
    m: "mapPage demo_kernel v (readWrite demo_kernel) s = Done (r, s1)" "to_bool r"
      "emptySlotPos s1 = emptySlotPos s + 1" by (rule demo_mapPage)
  have u: "unat (emptySlotPos s + 1) = unat (emptySlotPos s) + 1"
    using Suc.prems(2) by (simp add: unat_word_ariths)
  have "0 < emptySlotPos s1" "unat (emptySlotPos s1) + n \<le> 141"
    using m(3) u Suc.prems(2) by (simp_all add: word_less_nat_alt)
  from Suc.IH [OF this] m show ?case by (simp add: add.assoc)
qed simp

lemma root0_boots:
  "\<exists>s1 s2. new_RootServer demo_kernel root0 = Done s1 \<and> earlyInit demo_kernel 4242 s1 = Done s2 \<and>
    emptySlotPos s2 = 114"
proof -
  have "\<exists>s1. new_RootServer demo_kernel root0 = Done s1 \<and> emptySlotPos s1 = 103"
    by (simp add: new_RootServer_def init_page_table_def allocObject_def getFreeSlot_def untypeds_def
        upt_rec invoke_def demo_kernel_def root0_def Let_def)
  then obtain s1 where s1: "new_RootServer demo_kernel root0 = Done s1" "emptySlotPos s1 = 103" by blast
  obtain sa where m: "map_pages demo_kernel ReservedPages ReservedVaddr s1 = Done sa" "emptySlotPos sa = 113"
    using demo_map_pages [of s1 ReservedPages] s1(2) by (auto simp: ReservedPages_def)
  obtain r where r: "check_pages ReservedPages ReservedVaddr
      (clear_pages ReservedPages ReservedVaddr (ram sa)) = Done r"
    using check_cleared by (simp add: ReservedPages_def)
  obtain n sb where n: "createNotification demo_kernel (sa\<lparr>ram := r\<rparr>) = (n, sb)" by fastforce
  then have p: "emptySlotPos sb = 114"
    using m(2) by (auto simp: createNotification_def allocObject_def getFreeSlot_def untypeds_def upt_rec
        invoke_def demo_kernel_def Let_def)
  have "heap s1 = kheap_static"
    using root_more(1) [OF init_page_table_frame(2) [OF s1(1) [unfolded new_RootServer_def]]]
    by (simp add: root0_def)
  then have "heap sb = kheap_static"
    using root_more(1) [OF map_pages_effect(2) [OF m(1)]]
      root_more(1) [OF allocObject_frame(2) [OF n [unfolded createNotification_def]]] by simp
  moreover obtain h where "setMemoryPool ReservedVaddr (of_nat ReservedPages * PAGE_SIZE) (exp_value n) kheap_static = Done h"
    using setMemoryPool_heap [of ReservedVaddr "of_nat ReservedPages * PAGE_SIZE" "exp_value n"]
    by (auto simp: ReservedVaddr_def ReservedPages_def PAGE_SIZE_def)
  ultimately have "\<exists>s2. earlyInit demo_kernel 4242 s1 = Done s2 \<and> emptySlotPos s2 = 114"
    using m(1) r n p by (simp add: earlyInit_def calledFromMain_def calledFrom_def reservePages_def Let_def)
  with s1(1) show ?thesis by blast
qed



section \<open>The thread table\<close>

lemma locked_new_addr:
  assumes "locked_inv s (b # bs)" "c \<in> set bs"
  shows "block_addr s b \<noteq> block_addr s c"
proof
  assume eq: "block_addr s b = block_addr s c"
  obtain t n z u m y where b: "b = (t, n, z)" and c: "c = (u, m, y)" by (cases b, cases c)
  obtain i where i: "i < length bs" "bs ! i = c" using assms(2) by (auto simp: in_set_conv_nth)
  have apart: "set (block_chunks b) \<inter> set (block_chunks c) = {}"
    using locked.apart [OF assms(1), of 0 "Suc i"] i by simp
  from assms(1) obtain fs where r: "heap_ready s fs (b # bs)" by (auto simp: locked_inv_def)
  then have ok: "pool_ok s" and inv: "heap_inv s fs (b # bs)"
    by (auto simp: heap_ready_def intro: heap_state_initialized)
  have mem: "(t, n, z) \<in> set (b # bs)" "(u, m, y) \<in> set (b # bs)" using b c assms(2) by simp_all
  note tb = heap_inv_block_bounds [OF inv mem(1)] and uc = heap_inv_block_bounds [OF inv mem(2)]
  have "t = u"
    using data_addr_inj [OF ok tb(3) uc(3)] eq unfolding b c by (simp only: block_addr.simps)
  then show False using apart tb(1) uc(1) by (auto simp: b c)
qed

text \<open>An allocation keeps the live blocks and returns null or a new address.\<close>

lemma kmalloc_keeps:
  assumes "locked_inv h bs" "countable_size z" "kmalloc z h = Done (p, h')"
  obtains bs' where "locked_inv h' bs'" "set bs \<subseteq> set bs'" "block_addr h' = block_addr h"
    "p \<noteq> 0 \<Longrightarrow> p \<in> block_addr h ` set bs' \<and> p \<notin> block_addr h ` set bs"
proof -
  from locked.alloc_law [OF assms(1,2)] show ?thesis
  proof (elim disjE exE conjE)
    fix s' assume "kmalloc z h = Done (0, s')" "locked_inv s' bs" "block_addr s' = block_addr h"
    then show ?thesis using that [of bs] assms(3) by auto
  next
    fix s' b assume a: "kmalloc z h = Done (block_addr h b, s')" "locked_inv s' (b # bs)"
      "block_addr s' = block_addr h"
    then have "\<forall>c \<in> set bs. block_addr h b \<noteq> block_addr h c"
      using locked_new_addr [OF a(2)] by metis
    then show ?thesis using that [of "b # bs"] a assms(3) by auto
  qed
qed

definition vector_ok :: "'a vector \<Rightarrow> kheap \<Rightarrow> block list \<Rightarrow> u64 \<Rightarrow> bool" where
  "vector_ok v h bs tsz \<longleftrightarrow>
     v_data v = 0 \<and> v_size v = 0 \<and> v_reservation v = 0 \<or>
     (\<exists>b \<in> set bs. v_data v = block_addr h b \<and> block_size b = 10 * tsz) \<and> v_data v \<noteq> 0 \<and>
       v_reservation v = 10 \<and> unat (v_size v) \<le> 10"

lemma vector_ok_mono:
  "vector_ok v h bs tsz \<Longrightarrow> set bs \<subseteq> set bs' \<Longrightarrow> block_addr h' = block_addr h \<Longrightarrow> vector_ok v h' bs' tsz"
  unfolding vector_ok_def by auto

text \<open>A push that returns appends, and leaves a vector of the same kind.\<close>

lemma push_back_returns:
  assumes "locked_inv h bs" "vector_ok v h bs tsz" "0 < unat tsz" "10 * unat tsz < 2 ^ 62"
    and p: "push_back (krealloc copy) tsz x v h = Done (v', h')"
  obtains bs' where "locked_inv h' bs'" "set bs \<subseteq> set bs'" "block_addr h' = block_addr h"
    "vector_ok v' h' bs' tsz" "vector_list v' = vector_list v @ [x]"
    "v_data v' = v_data v \<or> v_data v' \<notin> block_addr h ` set bs"
  using assms(2) unfolding vector_ok_def
proof (elim disjE conjE)
  assume z: "v_data v = 0" "v_size v = 0" "v_reservation v = 0"
  then have v: "v = new_vector (v_elems v)" by (simp add: new_vector_def)
  have c: "countable_size (10 * tsz)"
    by (rule countable_small) (use assms(4) in \<open>simp add: unat_word_ariths\<close>)
  have "10 * unat tsz < 2 ^ 64" using assms(4) by simp
  have "push_back (krealloc copy) tsz x (new_vector (v_elems v)) h = Done (v', h')"
    using p by (subst v [symmetric])
  then obtain b where
    b: "locked_inv h' (b # bs)" "block_size b = 10 * tsz" "v_data v' = block_addr h' b"
      "block_addr h' b \<noteq> 0" "v_reservation v' = 10" "v_size v' = 1" "vector_list v' = [x]"
      "block_addr h' = block_addr h"
    using on_heap.first_push [OF assms(1) c assms(3) \<open>10 * unat tsz < 2 ^ 64\<close>, of copy x "v_elems v"]
    by (elim disjE exE conjE) (simp_all del: block_addr.simps)
  then have "vector_ok v' h' (b # bs) tsz" by (auto simp: vector_ok_def)
  moreover have "vector_list v = []" using z by (simp add: vector_list_def)
  moreover have "v_data v' \<notin> block_addr h ` set bs"
    using locked_new_addr [OF b(1)] b(3,8) by (metis imageE)
  ultimately show thesis using b by (intro that [of "b # bs"]) auto
next
  assume a: "\<exists>b \<in> set bs. v_data v = block_addr h b \<and> block_size b = 10 * tsz" "v_data v \<noteq> 0"
    "v_reservation v = 10" "unat (v_size v) \<le> 10"
  from a(1) obtain b where b: "b \<in> set bs" "v_data v = block_addr h b" "block_size b = 10 * tsz" by blast
  have ne: "unat (v_size v) \<noteq> 10"
    using push_eleventh [OF assms(1) b(1,3) assms(4) b(2) a(3), of copy x] p by auto
  then have less: "v_size v < 10" using a(4) by (simp add: word_less_nat_alt)
  have "10 * unat tsz < 2 ^ 64" using assms(4) by simp
  from push_within [OF a(2,3) less this, of "krealloc copy" x h] p have
    v': "h' = h" "v' = v\<lparr>v_elems := (v_elems v)(unat (v_size v) := x), v_size := v_size v + 1\<rparr>" by auto
  have up: "unat (v_size v + 1) = unat (v_size v) + 1" using a(4) by (simp add: unat_word_ariths)
  have "vector_list v' = vector_list v @ [x]" by (simp add: v' vector_list_def up)
  moreover have "vector_ok v' h bs tsz" using a b ne up by (auto simp: vector_ok_def v')
  ultimately show thesis using assms(1) v' by (intro that [of bs]) auto
qed

definition table_list :: "root_state \<Rightarrow> u64 list" where
  "table_list s = vector_list (threads s)"

text \<open>The objects at the addresses \<open>A\<close> are live, and so is the table's memory.\<close>

definition heap_holds :: "u64 set \<Rightarrow> root_state \<Rightarrow> bool" where
  "heap_holds A s \<longleftrightarrow>
     (\<exists>bs. locked_inv (heap s) bs \<and> A \<subseteq> block_addr (heap s) ` set bs \<and>
        vector_ok (threads s) (heap s) bs sizeof_shared_ptr)"

text \<open>
  The table's threads are live, distinct objects with distinct badges below the counter.
\<close>

definition table_inv :: "root_state \<Rightarrow> bool" where
  "table_inv s \<longleftrightarrow> heap_holds (set (table_list s)) s \<and>
     distinct (map (\<lambda>t. badge (objs s t)) (table_list s)) \<and>
     (\<forall>t \<in> set (table_list s). t \<noteq> 0 \<and> badge (objs s t) < tcbBadgeCounter s)"

lemma table_get_unique:
  assumes "distinct (map (\<lambda>t. badge (objs s t)) (table_list s))" "t \<in> set (table_list s)"
  shows "table_get (badge (objs s t)) s = t"
proof -
  let ?P = "\<lambda>u. badge (objs s u) = badge (objs s t)"
  have "List.find ?P xs = Some t" if "distinct (map (\<lambda>t. badge (objs s t)) xs)" "t \<in> set xs" for xs
    using that by (induction xs) force+
  from this [OF assms] show ?thesis by (simp add: table_get_def table_list_def)
qed

lemma kmalloc_keeps_table:
  assumes "heap_holds A s" "countable_size z" "kmalloc z (heap s) = Done (p, h)"
  shows "heap_holds (A \<union> ({p} - {0})) (s\<lparr>heap := h\<rparr>)"
    "p \<noteq> 0 \<Longrightarrow> p \<notin> A \<and> p \<noteq> v_data (threads s)"
proof -
  from assms(1) obtain bs where a: "locked_inv (heap s) bs" "A \<subseteq> block_addr (heap s) ` set bs"
    "vector_ok (threads s) (heap s) bs sizeof_shared_ptr" by (auto simp: heap_holds_def)
  from kmalloc_keeps [OF a(1) assms(2,3)] obtain bs' where
    b: "locked_inv h bs'" "set bs \<subseteq> set bs'" "block_addr h = block_addr (heap s)"
      "p \<noteq> 0 \<Longrightarrow> p \<in> block_addr (heap s) ` set bs' \<and> p \<notin> block_addr (heap s) ` set bs" by blast
  have "vector_ok (threads s) h bs' sizeof_shared_ptr" using vector_ok_mono [OF a(3) b(2,3)] .
  moreover have "A \<union> ({p} - {0}) \<subseteq> block_addr h ` set bs'"
    using a(2) b(2,4) unfolding b(3) by blast
  ultimately show "heap_holds (A \<union> ({p} - {0})) (s\<lparr>heap := h\<rparr>)"
    using b(1) by (auto simp: heap_holds_def simp del: block_addr.simps)
  have "v_data (threads s) \<in> insert 0 (block_addr (heap s) ` set bs)"
    using a(3) by (auto simp: vector_ok_def simp del: block_addr.simps)
  then show "p \<noteq> 0 \<Longrightarrow> p \<notin> A \<and> p \<noteq> v_data (threads s)" using b(4) a(2) by blast
qed

lemma not_last_less: "b \<noteq> - 1 \<Longrightarrow> b < b + (1 :: u64)"
proof -
  assume b: "b \<noteq> - 1"
  have "b + 1 \<noteq> 0" using b by (metis add_eq_0_iff add.commute)
  moreover have b': "unat b < 2 ^ LENGTH(64)" by (rule unsigned_less)
  ultimately have "unat b + 1 < 2 ^ 64"
    by (cases "unat b + 1 = 2 ^ 64") (auto simp: word_unat_eq_iff unat_word_ariths)
  then show "b < b + 1" by (simp add: word_less_nat_alt unat_word_ariths)
qed

text \<open>The table after a step that left the old threads alone and appended at most one.\<close>

lemma table_inv_step:
  assumes inv: "table_inv s" and wrap: "tcbBadgeCounter s \<noteq> - 1"
    and heap: "heap_holds (set (table_list s')) s'"
    and same: "\<forall>t \<in> set (table_list s). objs s' t = objs s t"
    and new: "table_list s' = table_list s \<or>
      table_list s' = table_list s @ [p] \<and> p \<noteq> 0 \<and> badge (objs s' p) = tcbBadgeCounter s"
    and up: "tcbBadgeCounter s' = tcbBadgeCounter s + 1"
  shows "table_inv s'"
proof -
  from inv have d: "distinct (map (\<lambda>t. badge (objs s t)) (table_list s))"
    "\<forall>t \<in> set (table_list s). t \<noteq> 0 \<and> badge (objs s t) < tcbBadgeCounter s" by (auto simp: table_inv_def)
  note less = not_last_less [OF wrap]
  from same have "map (\<lambda>t. badge (objs s' t)) (table_list s) = map (\<lambda>t. badge (objs s t)) (table_list s)" by simp
  then have "distinct (map (\<lambda>t. badge (objs s' t)) (table_list s))" using d(1) by (simp only:)
  moreover have "tcbBadgeCounter s \<notin> (\<lambda>t. badge (objs s' t)) ` set (table_list s)"
    using d(2) same by fastforce
  ultimately have "distinct (map (\<lambda>t. badge (objs s' t)) (table_list s'))" using new by auto
  moreover have "\<forall>t \<in> set (table_list s). t \<noteq> 0 \<and> badge (objs s' t) < tcbBadgeCounter s + 1"
    using d(2) same less_trans [OF _ less] by simp
  then have "\<forall>t \<in> set (table_list s'). t \<noteq> 0 \<and> badge (objs s' t) < tcbBadgeCounter s + 1"
    using new less by auto
  ultimately show ?thesis unfolding table_inv_def up using heap by blast
qed

text \<open>The heap and the table after a successful creation.\<close>

lemma table_add_keeps:
  assumes "heap_holds A s" and add: "table_add copy p s = Done s'"
  shows "heap_holds A s'" "table_list s' = table_list s @ [p]" "objs s' = objs s"
    "tcbBadgeCounter s' = tcbBadgeCounter s"
    "v_data (threads s') = v_data (threads s) \<or> v_data (threads s') \<notin> A"
proof -
  from assms(1) obtain bs where a: "locked_inv (heap s) bs" "A \<subseteq> block_addr (heap s) ` set bs"
    "vector_ok (threads s) (heap s) bs sizeof_shared_ptr" by (auto simp: heap_holds_def)
  from add obtain v hp where pb: "push_back (krealloc copy) sizeof_shared_ptr p (threads s) (heap s) = Done (v, hp)"
    and s': "s' = s\<lparr>threads := v, heap := hp\<rparr>"
    by (auto simp: table_add_def and_then_Done_iff)
  have sp: "0 < unat sizeof_shared_ptr" "10 * unat sizeof_shared_ptr < 2 ^ 62"
    by (simp_all add: sizeof_shared_ptr_def)
  from push_back_returns [OF a(1,3) sp pb] obtain bs3 where
    b: "locked_inv hp bs3" "set bs \<subseteq> set bs3" "block_addr hp = block_addr (heap s)"
      "vector_ok v hp bs3 sizeof_shared_ptr" "vector_list v = vector_list (threads s) @ [p]"
      "v_data v = v_data (threads s) \<or> v_data v \<notin> block_addr (heap s) ` set bs" .
  show "table_list s' = table_list s @ [p]" using b(5) by (simp add: table_list_def s')
  have "A \<subseteq> block_addr hp ` set bs3" using a(2) b(2) unfolding b(3) by blast
  then show "heap_holds A s'"
    unfolding heap_holds_def using b(1,4) by (intro exI [of _ bs3]) (simp add: s' del: block_addr.simps)
  show "v_data (threads s') = v_data (threads s) \<or> v_data (threads s') \<notin> A"
    using b(6) a(2) by (auto simp: s' simp del: block_addr.simps)
qed (use add in \<open>auto simp: table_add_def and_then_Done_iff\<close>)

text \<open>What \<open>RootServer::createThread\<close> does, for any set of live objects that the table is in.\<close>

lemma root_createThread_effect:
  assumes inv: "heap_holds A s" and sizes: "countable_size (sizeof_Thread L)" "countable_size (sizeof_ControlBlock L)"
    and c: "root_createThread K L copy entry s = Done (r, s')"
  shows "tcbBadgeCounter s' = tcbBadgeCounter s + 1 \<and> (\<forall>t \<in> A. objs s' t = objs s t) \<and>
    (v_data (threads s') = v_data (threads s) \<or> v_data (threads s') \<notin> A) \<and>
    (if to_bool r then exp_value r \<noteq> 0 \<and> exp_value r \<notin> A \<and> heap_holds (insert (exp_value r) A) s' \<and>
       table_list s' = table_list s @ [exp_value r] \<and> badge (objs s' (exp_value r)) = tcbBadgeCounter s
     else heap_holds A s' \<and> table_list s' = table_list s)"
proof -
  let ?b = "tcbBadgeCounter s"
  obtain s1 where s1: "createThread K L ?b entry (apiEndpoint s) (s\<lparr>tcbBadgeCounter := ?b + 1\<rparr>) = Done (r, s1)"
    and t: "if to_bool r then table_add copy (exp_value r) s1 = Done s' else s' = s1"
    using c by (auto simp: root_createThread_def and_then_Done_iff Let_def split: if_splits)
  from createThread_effect [OF s1] have m: "factory_state.more s1 = factory_state.more (s\<lparr>tcbBadgeCounter := ?b + 1\<rparr>)"
    and e: "(heap s1 = heap s \<and> objs s1 = objs s \<and> \<not> to_bool r) \<or>
     (\<exists>p h. kmalloc (sizeof_Thread L) (heap s) = Done (p, h) \<and> p \<noteq> 0 \<and> (\<forall>q. q \<noteq> p \<longrightarrow> objs s1 q = objs s q) \<and>
        ((\<not> to_bool r \<and> heap s1 = h) \<or>
         (to_bool r \<and> exp_value r = p \<and> badge (objs s1 p) = ?b \<and>
          (\<exists>c. kmalloc (sizeof_ControlBlock L) h = Done (c, heap s1)))))" by simp_all
  from root_tail [OF m] have th: "threads s1 = threads s" "tcbBadgeCounter s1 = ?b + 1" by simp_all
  then have l1: "table_list s1 = table_list s" by (simp add: table_list_def)
  have holds: "heap_holds B (s\<lparr>heap := heap s1\<rparr>) = heap_holds B s1" for B
    by (simp add: heap_holds_def th(1) del: block_addr.simps)
  note keep1 = kmalloc_keeps_table [OF inv sizes(1)]
  have o: "\<forall>t \<in> A. objs s1 t = objs s t" using e keep1(2) by metis
  show ?thesis
  proof (cases "to_bool r")
    case False
    have "heap_holds A s1"
    proof (cases "heap s1 = heap s")
      case True
      then show ?thesis using inv holds [of A] by simp
    next
      case False
      with e \<open>\<not> to_bool r\<close> obtain p where "kmalloc (sizeof_Thread L) (heap s) = Done (p, heap s1)" by blast
      from keep1(1) [OF this] show ?thesis unfolding holds by (auto simp: heap_holds_def simp del: block_addr.simps)
    qed
    then show ?thesis using False t o th l1 by simp
  next
    case True
    with e obtain h q where k: "kmalloc (sizeof_Thread L) (heap s) = Done (exp_value r, h)"
        "exp_value r \<noteq> 0" "kmalloc (sizeof_ControlBlock L) h = Done (q, heap s1)"
      and p: "badge (objs s1 (exp_value r)) = ?b" by blast
    from keep1(1) [OF k(1)] k(2) have "heap_holds (insert (exp_value r) A) (s\<lparr>heap := h\<rparr>)" by simp
    from kmalloc_keeps_table(1) [OF this sizes(2)] k(3) holds
    have "heap_holds (insert (exp_value r) A \<union> ({q} - {0})) s1" by simp
    then have "heap_holds (insert (exp_value r) A) s1"
      by (auto simp: heap_holds_def simp del: block_addr.simps)
    from table_add_keeps [OF this, of copy "exp_value r" s'] t True show ?thesis
      using o th l1 p k(2) keep1(2) [OF k(1,2)] by auto
  qed
qed

lemma table_inv_createThread:
  assumes inv: "table_inv s" and sizes: "countable_size (sizeof_Thread L)" "countable_size (sizeof_ControlBlock L)"
    and wrap: "tcbBadgeCounter s \<noteq> - 1" and c: "root_createThread K L copy entry s = Done (r, s')"
  shows "table_inv s' \<and> tcbBadgeCounter s' = tcbBadgeCounter s + 1 \<and>
    (\<forall>t \<in> set (table_list s). objs s' t = objs s t) \<and>
    (if to_bool r then table_list s' = table_list s @ [exp_value r] \<and>
       table_get (tcbBadgeCounter s) s' = exp_value r
     else table_list s' = table_list s)"
proof -
  from inv have "heap_holds (set (table_list s)) s" by (simp add: table_inv_def)
  note e = root_createThread_effect [OF this sizes c]
  have inv': "table_inv s'"
    by (rule table_inv_step [OF inv wrap, where p = "exp_value r"]) (use e in \<open>auto split: if_splits\<close>)
  have "table_get (badge (objs s' (exp_value r))) s' = exp_value r" if "to_bool r"
    by (rule table_get_unique) (use inv' e that in \<open>simp_all add: table_inv_def\<close>)
  then show ?thesis using inv' e by auto
qed


definition root_pool16 :: root_state where
  "root_pool16 = root0\<lparr>heap := pool16, currentVirtualAddress := 0x800000B000, apiEndpoint := 9\<rparr>"

lemma root_pool16_inv: "table_inv root_pool16"
proof -
  have "locked_inv pool16 []" using pool16_ready by (auto simp: locked_inv_def)
  then show ?thesis
    by (auto simp: table_inv_def heap_holds_def table_list_def vector_list_def vector_ok_def root_pool16_def root0_def
        new_vector_def intro!: exI [of _ "[]"])
qed

lemma pool16_thrice:
  obtains h1 h2 h3 p v where "kmalloc 20 pool16 = Done (4128, h1)" "kmalloc 20 h1 = Done (p, h2)" "p \<noteq> 0"
    "kmalloc 160 h2 = Done (v, h3)" "v \<noteq> 0"
proof -
  have c: "chunks_for 20 = 2" "chunks_for 160 = 6" by (simp_all add: chunks_for_def info_size_def)
  have z: "countable_size 20" "countable_size 160" by (rule countable_small, simp)+
  obtain h1 where h1: "kmalloc 20 pool16 = Done (data_addr pool16 (CPool 0), h1)" "heap_ready h1 [2..<16] [(0, 2, 20)]"
      "pool h1 = pool pool16" by (rule kmalloc_front [OF pool16_ready z(1) c(1), where u = 2]) simp_all
  obtain h2 where h2: "kmalloc 20 h1 = Done (data_addr h1 (CPool 2), h2)"
      "heap_ready h2 [4..<16] [(2, 2, 20), (0, 2, 20)]" "pool h2 = pool h1"
    by (rule kmalloc_front [OF h1(2) z(1) c(1), where u = 4]) simp_all
  obtain h3 where h3: "kmalloc 160 h2 = Done (data_addr h2 (CPool 4), h3)"
    by (rule kmalloc_front [OF h2(2) z(2) c(2), where u = 10]) simp_all
  have p: "pool pool16 = 4096" by (simp add: pool16_def small_pool_def)
  have "data_addr pool16 (CPool 0) = 4128" "data_addr h1 (CPool 2) \<noteq> 0" "data_addr h2 (CPool 4) \<noteq> 0"
    by (simp_all add: h1(3) h2(3) p chunk_size_def info_size_def)
  then show ?thesis using that h1(1) h2(1) h3 by metis
qed

lemmas spawn_defs = root_createThread_def createThread_def map_thread_pages_def configure_thread_def
    mapPage_def count_page_def allocObject_def getFreeSlot_def untypeds_def upt_rec invoke_def
    demo_kernel_def layout0_def alloc_thread_def heap_new_def operator_new_def make_shared_ptr_def
    update_obj_def next_address_def setPriority_def new_Thread_def table_add_def push_back_def
    doRealloc_def new_vector_def krealloc_null sizeof_shared_ptr_def in_block_def Let_def

lemma demo_creates:
  assumes "kmalloc 20 (heap s) = Done (p, h1)" "kmalloc 20 h1 = Done (q, h2)" "kmalloc 160 h2 = Done (v, h3)"
    and "p \<noteq> 0" "q \<noteq> 0" "v \<noteq> 0" "threads s = new_vector junk" "emptySlotPos s = 0 \<or> emptySlotPos s = 117"
  shows "\<exists>s'. root_createThread demo_kernel layout0 copy 77 s = Done (success p NoError, s')"
  using assms(8)
proof
  assume "emptySlotPos s = 0"
  then show ?thesis using assms(1-7) by (simp add: spawn_defs)
next
  assume "emptySlotPos s = 117"
  then show ?thesis using assms(1-7) by (simp add: spawn_defs)
qed

lemma root_creates:
  "\<exists>s'. root_createThread demo_kernel layout0 copy 77 root_pool16 = Done (success 4128 NoError, s')"
proof -
  obtain h1 h2 h3 p v where "kmalloc 20 pool16 = Done (4128, h1)" "kmalloc 20 h1 = Done (p, h2)" "p \<noteq> 0"
    "kmalloc 160 h2 = Done (v, h3)" "v \<noteq> 0" by (rule pool16_thrice)
  then show ?thesis
    by (intro demo_creates [where q = p and v = v and ?h1.0 = h1 and ?h2.0 = h2 and ?h3.0 = h3])
      (simp_all add: root_pool16_def root0_def)
qed

lemma root_pool16_first:
  "countable_size (sizeof_Thread layout0)" "countable_size (sizeof_ControlBlock layout0)"
  "tcbBadgeCounter root_pool16 = 1" "tcbBadgeCounter root_pool16 \<noteq> - 1" "table_list root_pool16 = []"
proof -
  have "countable_size 20" by (rule countable_small) simp
  then show "countable_size (sizeof_Thread layout0)" "countable_size (sizeof_ControlBlock layout0)"
    by (simp_all add: layout0_def)
qed (simp_all add: root_pool16_def root0_def table_list_def vector_list_def new_vector_def)

lemma root_spawned:
  obtains s' where "root_createThread demo_kernel layout0 copy 77 root_pool16 = Done (success 4128 NoError, s')"
    "table_inv s'" "tcbBadgeCounter s' = 2" "table_list s' = [4128]" "table_get 1 s' = 4128"
proof -
  obtain s' where s': "root_createThread demo_kernel layout0 copy 77 root_pool16 =
      Done (success 4128 NoError, s')" using root_creates by blast
  from table_inv_createThread [OF root_pool16_inv root_pool16_first(1,2,4) s'] that s' show ?thesis
    by (simp add: root_pool16_first)
qed


end
