(* ===== verification/PageTest.thy ===== *)
theory PageTest
  imports Root_Props
begin

text \<open>
  \<open>RootServer::testPt\<close>: 1024 pages mapped after the reserved ones, a number stored at the start of each
  and read back, once at once and once at the end. An access faults unless the kernel accepted a
  writable mapping of the page, which \<open>mapPage\<close> does not tell its caller (\<open>mapPage_drops_error\<close>).
\<close>

section \<open>Pages and words\<close>

text \<open>The frames and rights of the pages, after the calls that the kernel accepted.\<close>

fun page_effect :: "(u64 \<Rightarrow> (CPtr \<times> u64) option) \<Rightarrow> kcall \<Rightarrow> u64 \<Rightarrow> (CPtr \<times> u64) option" where
  "page_effect m (Page_Map f v r) = m(v \<mapsto> (f, r))"
| "page_effect m (Page_Unmap f) = (\<lambda>v. if map_option fst (m v) = Some f then None else m v)"
| "page_effect m c = m"

definition page_map :: "kernel \<Rightarrow> kcall list \<Rightarrow> u64 \<Rightarrow> (CPtr \<times> u64) option" where
  "page_map K cs = foldl page_effect (\<lambda>_. None) (accepted K [] cs)"

definition writable :: "kernel \<Rightarrow> u64 \<Rightarrow> root_state \<Rightarrow> bool" where
  "writable K v s \<longleftrightarrow> map_option snd (page_map K (calls s) v) = Some (readWrite K)"

text \<open>A \<open>size_t\<close> in memory, the low byte first.\<close>

fun put_bytes :: "nat \<Rightarrow> u64 \<Rightarrow> u64 \<Rightarrow> (u64 \<Rightarrow> u8) \<Rightarrow> u64 \<Rightarrow> u8" where
  "put_bytes 0 a w r = r"
| "put_bytes (Suc n) a w r = put_bytes n (a + 1) (drop_bit 8 w) (r(a := ucast w))"

fun get_bytes :: "nat \<Rightarrow> u64 \<Rightarrow> (u64 \<Rightarrow> u8) \<Rightarrow> u64" where
  "get_bytes 0 a r = 0"
| "get_bytes (Suc n) a r = ucast (r a) + 256 * get_bytes n (a + 1) r"

text \<open>\<open>*test = w\<close> and \<open>*test\<close> for a \<open>test\<close> at the start of a page.\<close>

definition store_size :: "kernel \<Rightarrow> u64 \<Rightarrow> u64 \<Rightarrow> root_state \<Rightarrow> root_state outcome" where
  "store_size K a w s =
     and_then (assert_that (writable K a s)) (\<lambda>_. Done (s\<lparr>ram := put_bytes 8 a w (ram s)\<rparr>))"

definition load_size :: "kernel \<Rightarrow> u64 \<Rightarrow> root_state \<Rightarrow> u64 outcome" where
  "load_size K a s = and_then (assert_that (writable K a s)) (\<lambda>_. Done (get_bytes 8 a (ram s)))"

section \<open>The test\<close>

datatype test_message =
    MissingStructure
  | MappingError seL4_Error u64
  | PageOk u64 u64
  | AfterTest u64
  | AfterTestOk

definition sizeToTest :: nat where "sizeToTest = 1024"

text \<open>The two loops over \<open>i\<close>, with \<open>n\<close> rounds to go.\<close>

fun test_fill ::
    "kernel \<Rightarrow> nat \<Rightarrow> u64 \<Rightarrow> u64 \<Rightarrow> test_message list \<Rightarrow> root_state \<Rightarrow> (u64 \<times> test_message list \<times> root_state) outcome"
where
  "test_fill K 0 i vaddr out s = Done (vaddr, out, s)"
| "test_fill K (Suc n) i vaddr out s =
     and_then (mapPage K vaddr (readWrite K) s) (\<lambda>(capOrError, s).
     let out = out @ (if exp_error capOrError = FailedLookup then [MissingStructure]
                      else if exp_error capOrError \<noteq> NoError then [MappingError (exp_error capOrError) i]
                      else []) in
     and_then (store_size K vaddr i s) (\<lambda>s.
     and_then (load_size K vaddr s) (\<lambda>w.
     and_then (assert_that (w = i)) (\<lambda>_.
     test_fill K n (i + 1) (vaddr + 4096)
       (out @ (if i mod 100 = 0 then [PageOk i (of_nat sizeToTest)] else [])) s))))"

fun test_check :: "kernel \<Rightarrow> nat \<Rightarrow> u64 \<Rightarrow> u64 \<Rightarrow> root_state \<Rightarrow> unit outcome" where
  "test_check K 0 i vaddr s = Done ()"
| "test_check K (Suc n) i vaddr s =
     and_then (load_size K vaddr s) (\<lambda>w.
     and_then (assert_that (w = i)) (\<lambda>_. test_check K n (i + 1) (vaddr + 4096) s))"

definition testPt :: "kernel \<Rightarrow> root_state \<Rightarrow> (test_message list \<times> root_state) outcome" where
  "testPt K s =
     (let vaddr = ReservedVaddr + of_nat ReservedPages * PAGE_SIZE in
      and_then (test_fill K sizeToTest 0 vaddr [] s) (\<lambda>(end_addr, out, s).
      and_then (test_check K sizeToTest 0 vaddr s) (\<lambda>_.
      Done (out @ [AfterTest end_addr, AfterTestOk], s))))"

section \<open>Words in memory\<close>

lemma put_bytes_other:
  "(\<And>j. j < n \<Longrightarrow> b \<noteq> a + of_nat j) \<Longrightarrow> put_bytes n a w r b = r b"
proof (induction n arbitrary: a w r)
  case (Suc n)
  have "b \<noteq> a" using Suc.prems [of 0] by simp
  moreover have "b \<noteq> a + 1 + of_nat j" if "j < n" for j
    using Suc.prems [of "Suc j"] that by (simp add: add.assoc)
  ultimately show ?case using Suc.IH [of "a + 1"] by simp
qed simp

lemma get_bytes_cong:
  "(\<And>j. j < n \<Longrightarrow> r (a + of_nat j) = r' (a + of_nat j)) \<Longrightarrow> get_bytes n a r = get_bytes n a r'"
proof (induction n arbitrary: a)
  case (Suc n)
  have "r (a + 1 + of_nat j) = r' (a + 1 + of_nat j)" if "j < n" for j
    using Suc.prems [of "Suc j"] that by (simp add: add.assoc)
  then show ?case using Suc.IH [of "a + 1"] Suc.prems [of 0] by simp
qed simp

lemma word_byte_split: "ucast (ucast w :: u8) + 256 * drop_bit 8 w = (w :: u64)"
proof -
  have "(ucast (ucast w :: u8) :: u64) = take_bit 8 w"
    by (rule bit_word_eqI) (auto simp: bit_simps)
  then have "(ucast (ucast w :: u8) :: u64) = w mod 256" by (simp add: take_bit_eq_mod)
  moreover have "drop_bit 8 w = w div 256" by (simp add: drop_bit_eq_div)
  ultimately show ?thesis by (simp add: mult.commute mod_mult_div_eq)
qed

lemma get_put_bytes:
  "n \<le> 8 \<Longrightarrow> get_bytes n a (put_bytes n a w r) = take_bit (8 * n) w"
proof (induction n arbitrary: a w r)
  case (Suc n)
  have "put_bytes n (a + 1) (drop_bit 8 w) (r(a := ucast w)) a = ucast w"
  proof (subst put_bytes_other)
    show "a \<noteq> a + 1 + of_nat j" if "j < n" for j
    proof
      assume "a = a + 1 + of_nat j"
      then have "of_nat (Suc j) = (0 :: u64)" by (simp add: add.assoc)
      then have "unat (of_nat (Suc j) :: u64) = 0" by (simp only: unat_0)
      then show False using that Suc.prems by (simp add: unat_of_nat take_bit_eq_mod del: of_nat_Suc)
    qed
  qed simp
  then have "get_bytes (Suc n) a (put_bytes (Suc n) a w r) =
      ucast (ucast w :: u8) + 256 * take_bit (8 * n) (drop_bit 8 w)" using Suc by simp
  also have "\<dots> = take_bit (8 * Suc n) w"
  proof -
    have "take_bit (8 * Suc n) w = ucast (ucast (take_bit (8 * Suc n) w) :: u8) + 256 * drop_bit 8 (take_bit (8 * Suc n) w)"
      by (simp only: word_byte_split)
    moreover have "drop_bit 8 (take_bit (8 * Suc n) w) = take_bit (8 * n) (drop_bit 8 w)"
      by (simp add: drop_bit_take_bit)
    moreover have "(ucast (take_bit (8 * Suc n) w) :: u8) = ucast w"
      by (rule bit_word_eqI) (auto simp: bit_simps)
    ultimately show ?thesis by simp
  qed
  finally show ?case .
qed simp

lemma get_put_size: "get_bytes 8 a (put_bytes 8 a w r) = w"
proof -
  have "take_bit 64 w = w" by (rule bit_word_eqI) (auto simp: bit_simps)
  then show ?thesis using get_put_bytes [of 8 a w r] by simp
qed

section \<open>Pages stay mapped\<close>

text \<open>Calls that take no writable page away.\<close>

fun keeps_pages :: "kernel \<Rightarrow> kcall \<Rightarrow> bool" where
  "keeps_pages K (Page_Map f v r) \<longleftrightarrow> r = readWrite K"
| "keeps_pages K (Page_Unmap f) \<longleftrightarrow> False"
| "keeps_pages K c \<longleftrightarrow> True"

lemma page_effect_keeps:
  "keeps_pages K c \<Longrightarrow> map_option snd (m v) = Some (readWrite K) \<Longrightarrow>
   map_option snd (page_effect m c v) = Some (readWrite K)"
  by (cases c) auto

lemma accepted_subset: "set (accepted K h cs) \<subseteq> set cs"
  by (induction cs arbitrary: h) auto

lemma writable_keeps:
  assumes "calls s' = calls s @ cs" "\<forall>c \<in> set cs. keeps_pages K c" "writable K v s"
  shows "writable K v s'"
proof -
  have "map_option snd (foldl page_effect m ds v) = Some (readWrite K)"
    if "\<forall>c \<in> set ds. keeps_pages K c" "map_option snd (m v) = Some (readWrite K)" for m ds
    using that by (induction ds arbitrary: m) (simp_all add: page_effect_keeps del: map_option_eq_Some)
  moreover have "\<forall>c \<in> set (accepted K ([] @ calls s) cs). keeps_pages K c"
    using assms(2) accepted_subset by blast
  ultimately show ?thesis
    using assms(1,3) by (simp add: writable_def page_map_def accepted_append)
qed

lemma retypes_keep: "pool_change s s' \<Longrightarrow>
    \<exists>cs p. s' = s\<lparr>calls := calls s @ cs, emptySlotPos := p\<rparr> \<and> (\<forall>c \<in> set cs. keeps_pages K c)"
  unfolding pool_change_def by (metis keeps_pages.simps(3))

lemma mapPage_keeps:
  assumes "mapPage K vaddr (readWrite K) s = Done (r, s')"
  shows "\<exists>cs q. s' = s\<lparr>calls := calls s @ cs, emptySlotPos := q, mappedPages := mappedPages s + 1\<rparr> \<and>
    (\<forall>c \<in> set cs. keeps_pages K c)"
proof -
  obtain x s1 where a: "allocObject K X86_4K s = (x, s1)" by fastforce
  from retypes_keep [OF allocObject_change(1) [OF a]] obtain cs p where
    s1: "s1 = s\<lparr>calls := calls s @ cs, emptySlotPos := p\<rparr>" "\<forall>c \<in> set cs. keeps_pages K c" by blast
  let ?c = "Page_Map (exp_value x) vaddr (readWrite K)"
  have x: "to_bool x" using assms a by (auto simp: mapPage_def split: if_splits)
  show ?thesis
  proof (cases "respond K (calls s1) ?c = FailedLookup")
    case False
    then show ?thesis
      using assms a x s1
      by (auto simp: mapPage_def invoke_def count_page_def Let_def
          intro!: exI [of _ "cs @ [?c]"] exI [of _ p])
  next
    case True
    let ?s = "s1\<lparr>calls := calls s1 @ [?c]\<rparr>"
    obtain y s2 where b: "allocObject K X86_PageTableObject ?s = (y, s2)" by fastforce
    from retypes_keep [OF allocObject_change(1) [OF b]] obtain ds q where
      s2: "s2 = ?s\<lparr>calls := calls ?s @ ds, emptySlotPos := q\<rparr>" "\<forall>c \<in> set ds. keeps_pages K c" by blast
    let ?ts = "[PageTable_Map (bool_word (to_bool y)) vaddr, ?c]"
    have l: "lookupLevel K (calls ?s) = NO_PT"
      using assms a x True
      by (cases "lookupLevel K (calls ?s)") (auto simp: mapPage_def invoke_def Let_def)
    then have "s' = count_page (s2\<lparr>calls := calls s2 @ ?ts\<rparr>)"
      using assms a x True b by (auto simp: mapPage_def invoke_def Let_def split: if_splits)
    then show ?thesis using s1 s2
      by (auto simp: count_page_def intro!: exI [of _ "cs @ [?c] @ ds @ ?ts"] exI [of _ q])
  qed
qed

section \<open>What the test leaves\<close>

definition page_at :: "u64 \<Rightarrow> nat \<Rightarrow> u64" where
  "page_at vaddr i = vaddr + of_nat i * 4096"

lemma page_at_simps [simp]: "page_at v 0 = v" "page_at (v + 4096) i = page_at v (Suc i)"
  by (simp_all add: page_at_def algebra_simps)

lemma page_at_apart:
  assumes "page_at v i + of_nat k = page_at v j + of_nat l" "i \<le> 1024" "j \<le> 1024" "k < 8" "l < 8"
  shows "i = j"
proof -
  define x y where "x = i * 4096 + k" and "y = j * 4096 + l"
  have "(of_nat x :: u64) = of_nat y"
    using assms(1) by (simp add: page_at_def x_def y_def)
  then have "unat (of_nat x :: u64) = unat (of_nat y :: u64)" by simp
  moreover have "x < 2 ^ 64" "y < 2 ^ 64" using assms by (simp_all add: x_def y_def)
  ultimately have "x = y" by (simp add: unat_of_nat take_bit_eq_mod)
  then have "x div 4096 = y div 4096" by simp
  then show ?thesis using assms(4,5) by (simp add: x_def y_def)
qed

definition progress :: "u64 \<Rightarrow> nat \<Rightarrow> test_message list" where
  "progress i n = concat (map (\<lambda>j. if (i + of_nat j) mod 100 = 0
     then [PageOk (i + of_nat j) (of_nat sizeToTest)] else []) [0..<n])"

lemma progress_Suc:
  "progress i (Suc n) = (if i mod 100 = 0 then [PageOk i (of_nat sizeToTest)] else []) @ progress (i + 1) n"
  by (simp add: progress_def map_upt_Suc add.assoc cong: if_cong del: upt_Suc)

text \<open>The state after \<open>n\<close> rounds that started with page \<open>vaddr\<close> and number \<open>i\<close>.\<close>

definition filled :: "kernel \<Rightarrow> nat \<Rightarrow> u64 \<Rightarrow> u64 \<Rightarrow> root_state \<Rightarrow> root_state \<Rightarrow> bool" where
  "filled K n i vaddr s s' \<longleftrightarrow>
     (\<exists>cs q r. s' = s\<lparr>calls := calls s @ cs, emptySlotPos := q, mappedPages := mappedPages s + of_nat n, ram := r\<rparr> \<and>
        (\<forall>c \<in> set cs. keeps_pages K c) \<and>
        (\<forall>a. (\<forall>j < n. \<forall>k < 8. a \<noteq> page_at vaddr j + of_nat k) \<longrightarrow> r a = ram s a)) \<and>
     (\<forall>j < n. writable K (page_at vaddr j) s' \<and> get_bytes 8 (page_at vaddr j) (ram s') = i + of_nat j)"

lemma test_fill_filled:
  assumes "test_fill K n i vaddr out s = Done (e, out', s')" "n \<le> 1024"
  shows "e = page_at vaddr n \<and> out' = out @ progress i n \<and> filled K n i vaddr s s'"
  using assms
proof (induction n arbitrary: i vaddr out s)
  case 0
  then show ?case by (auto simp: filled_def progress_def intro!: exI [of _ "[]"] exI [of _ "emptySlotPos s"] exI [of _ "ram s"])
next
  case (Suc n)
  from Suc.prems(1) obtain r s1 where m: "mapPage K vaddr (readWrite K) s = Done (r, s1)"
    by (auto simp: and_then_Done_iff simp del: page_at_simps)
  have r: "exp_error r = NoError" by (subst mapPage_returns(1) [OF m]) simp
  define s2 where "s2 = s1\<lparr>ram := put_bytes 8 vaddr i (ram s1)\<rparr>"
  have w: "writable K vaddr s1"
    and rest: "test_fill K n (i + 1) (vaddr + 4096)
      (out @ (if i mod 100 = 0 then [PageOk i (of_nat sizeToTest)] else [])) s2 = Done (e, out', s')"
    using Suc.prems(1) m r
    by (auto simp: and_then_Done_iff store_size_def load_size_def s2_def Let_def assert_that_def split: if_splits)
  from Suc.IH [OF rest] Suc.prems(2) have IH: "e = page_at (vaddr + 4096) n"
    "out' = out @ progress i (Suc n)" "filled K n (i + 1) (vaddr + 4096) s2 s'"
    by (simp_all add: progress_Suc)
  from mapPage_keeps [OF m] obtain cs q where s1: "\<forall>c \<in> set cs. keeps_pages K c"
    "s1 = s\<lparr>calls := calls s @ cs, emptySlotPos := q, mappedPages := mappedPages s + 1\<rparr>" by blast
  from IH(3) obtain ds q' r' where s': "\<forall>c \<in> set ds. keeps_pages K c"
    "s' = s2\<lparr>calls := calls s2 @ ds, emptySlotPos := q', mappedPages := mappedPages s2 + of_nat n, ram := r'\<rparr>"
    and same: "\<And>a. (\<forall>j < n. \<forall>k < 8. a \<noteq> page_at vaddr (Suc j) + of_nat k) \<Longrightarrow> r' a = ram s2 a"
    and vals: "\<And>j. j < n \<Longrightarrow> writable K (page_at vaddr (Suc j)) s' \<and>
      get_bytes 8 (page_at vaddr (Suc j)) (ram s') = i + 1 + of_nat j"
    unfolding filled_def by auto
  have first: "get_bytes 8 vaddr r' = i"
  proof -
    have "r' (vaddr + of_nat k) = ram s2 (vaddr + of_nat k)" if "k < 8" for k
    proof (rule same, intro allI impI notI)
      fix j l assume "j < n" "l < (8 :: nat)" "vaddr + of_nat k = page_at vaddr (Suc j) + of_nat l"
      then show False using page_at_apart [of vaddr 0 k "Suc j" l] that Suc.prems(2) by simp
    qed
    then have "get_bytes 8 vaddr r' = get_bytes 8 vaddr (put_bytes 8 vaddr i (ram s1))"
      unfolding s2_def by (intro get_bytes_cong) simp
    then show ?thesis by (simp add: get_put_size)
  qed
  have "writable K vaddr s'"
    using s'(1,2) w by (intro writable_keeps [of s' s1 ds]) (simp_all add: s2_def)
  then have "writable K (page_at vaddr j) s' \<and> get_bytes 8 (page_at vaddr j) (ram s') = i + of_nat j"
    if "j < Suc n" for j
    using vals [of "j - 1"] first s'(2) that by (cases j) auto
  moreover have "r' a = ram s a" if "\<forall>j < Suc n. \<forall>k < 8. a \<noteq> page_at vaddr j + of_nat k" for a
  proof -
    have "\<forall>j < n. \<forall>k < 8. a \<noteq> page_at vaddr (Suc j) + of_nat k" using that by blast
    then have "r' a = ram s2 a" by (rule same)
    also have "\<dots> = ram s a"
    proof -
      have "a \<noteq> vaddr + of_nat k" if "k < 8" for k
        using \<open>\<forall>j < Suc n. \<forall>k < 8. a \<noteq> page_at vaddr j + of_nat k\<close> that by force
      then show ?thesis using s1(2) by (simp add: s2_def put_bytes_other)
    qed
    finally show ?thesis .
  qed
  ultimately have "filled K (Suc n) i vaddr s s'"
    unfolding filled_def using s1 s'(1,2)
    by (intro conjI exI [of _ "cs @ ds"] exI [of _ q'] exI [of _ r']) (auto simp: s2_def)
  then show ?case using IH by simp
qed

lemma test_check_passes:
  "(\<And>j. j < n \<Longrightarrow> writable K (page_at vaddr j) s \<and> get_bytes 8 (page_at vaddr j) (ram s) = i + of_nat j) \<Longrightarrow>
   test_check K n i vaddr s = Done ()"
proof (induction n arbitrary: i vaddr)
  case (Suc n)
  have "test_check K n (i + 1) (vaddr + 4096) s = Done ()"
    using Suc.prems [of "Suc j" for j] by (intro Suc.IH) (simp add: add.assoc)
  then show ?case using Suc.prems [of 0] by (simp add: load_size_def)
qed simp

section \<open>When the test passes\<close>

text \<open>
  A kernel with \<open>n\<close> free slots and memory for \<open>n\<close> frames, whose paging structures are there, and which
  answers the mapping of a page with \<open>answer\<close>.
\<close>

definition grants :: "kernel \<Rightarrow> (u64 \<Rightarrow> seL4_Error) \<Rightarrow> nat \<Rightarrow> root_state \<Rightarrow> bool" where
  "grants K answer n s \<longleftrightarrow>
     0 < emptySlotPos s \<and> unat (emptySlotPos s) + n \<le> unat (empty_end K) + 1 \<and>
     unat (empty_end K) < 2 ^ 64 - 1 \<and> (\<exists>u \<in> set (untypeds K). \<not> isDevice K (u - untyped_start K)) \<and>
     (\<forall>h u ty slot. respond K h (Untyped_Retype u ty slot) = NoError) \<and>
     (\<forall>h f v r. respond K h (Page_Map f v r) = answer v \<and> answer v \<noteq> FailedLookup)"

lemma retype_first:
  assumes "\<exists>u \<in> set us. \<not> isDevice K (u - untyped_start K)"
    and "\<And>h u ty slot. respond K h (Untyped_Retype u ty slot) = NoError"
  shows "\<exists>u. retype_loop K ty slot us s = (True, s\<lparr>calls := calls s @ [Untyped_Retype u ty slot]\<rparr>)"
  using assms by (induction us) (auto simp: invoke_def Let_def)

lemma grants_alloc:
  assumes "grants K answer (Suc n) s"
  obtains u where "allocObject K ty s = (success (emptySlotPos s) NoError,
    s\<lparr>calls := calls s @ [Untyped_Retype u ty (emptySlotPos s)], emptySlotPos := emptySlotPos s + 1\<rparr>)"
proof -
  let ?s = "s\<lparr>emptySlotPos := emptySlotPos s + 1\<rparr>"
  have "0 < emptySlotPos s" "\<not> emptySlotPos s > empty_end K"
    using assms by (auto simp: grants_def word_less_nat_alt)
  then have "getFreeSlot K s = (success (emptySlotPos s) NoError, ?s)"
    by (auto simp: getFreeSlot_def Let_def)
  moreover obtain u where "retype_loop K ty (emptySlotPos s) (untypeds K) ?s =
      (True, ?s\<lparr>calls := calls ?s @ [Untyped_Retype u ty (emptySlotPos s)]\<rparr>)"
    using retype_first [of "untypeds K" K ty "emptySlotPos s" ?s] assms unfolding grants_def by blast
  ultimately have "allocObject K ty s = (success (emptySlotPos s) NoError,
      s\<lparr>calls := calls s @ [Untyped_Retype u ty (emptySlotPos s)], emptySlotPos := emptySlotPos s + 1\<rparr>)"
    by (simp add: allocObject_def Let_def)
  then show ?thesis by (rule that)
qed

lemma grants_mapPage:
  assumes "grants K answer (Suc n) s"
  obtains u where "mapPage K v p s = Done (success (emptySlotPos s) NoError,
    s\<lparr>calls := calls s @ [Untyped_Retype u X86_4K (emptySlotPos s), Page_Map (emptySlotPos s) v p],
      emptySlotPos := emptySlotPos s + 1, mappedPages := mappedPages s + 1\<rparr>)"
proof -
  from grants_alloc [OF assms, of X86_4K] obtain u where
    "allocObject K X86_4K s = (success (emptySlotPos s) NoError,
      s\<lparr>calls := calls s @ [Untyped_Retype u X86_4K (emptySlotPos s)], emptySlotPos := emptySlotPos s + 1\<rparr>)" .
  moreover have "respond K h (Page_Map f v p) \<noteq> FailedLookup" for h f
    using assms by (simp add: grants_def)
  ultimately show ?thesis
    using that [of u] by (simp add: mapPage_def invoke_def count_page_def Let_def)
qed

lemma grants_next:
  assumes "grants K answer (Suc n) s" "emptySlotPos s' = emptySlotPos s + 1"
  shows "grants K answer n s'"
proof -
  have "unat (emptySlotPos s + 1) = unat (emptySlotPos s) + 1"
    using assms(1) by (auto simp: grants_def unat_word_ariths)
  then show ?thesis using assms by (auto simp: grants_def word_less_nat_alt)
qed

lemma page_map_mapped:
  assumes "grants K answer n s"
  shows "page_map K (cs @ [Untyped_Retype u ty slot, Page_Map f v p]) =
    (if answer v = NoError then (page_map K cs)(v \<mapsto> (f, p)) else page_map K cs)"
  using assms by (simp add: page_map_def accepted_append grants_def)

lemma test_fill_iff:
  assumes "grants K answer n s" "n \<le> 1024" "\<And>j. j < n \<Longrightarrow> page_map K (calls s) (page_at vaddr j) = None"
  shows "if \<forall>j < n. answer (page_at vaddr j) = NoError
    then \<exists>r. test_fill K n i vaddr out s = Done r else test_fill K n i vaddr out s = Stuck"
  using assms
proof (induction n arbitrary: i vaddr out s)
  case (Suc n)
  from grants_mapPage [OF Suc.prems(1), of vaddr "readWrite K"] obtain u where
    m: "mapPage K vaddr (readWrite K) s = Done (success (emptySlotPos s) NoError,
      s\<lparr>calls := calls s @ [Untyped_Retype u X86_4K (emptySlotPos s), Page_Map (emptySlotPos s) vaddr (readWrite K)],
        emptySlotPos := emptySlotPos s + 1, mappedPages := mappedPages s + 1\<rparr>)" .
  define s1 where "s1 = s\<lparr>calls := calls s @ [Untyped_Retype u X86_4K (emptySlotPos s), Page_Map (emptySlotPos s) vaddr (readWrite K)],
        emptySlotPos := emptySlotPos s + 1, mappedPages := mappedPages s + 1\<rparr>"
  define s2 where "s2 = s1\<lparr>ram := put_bytes 8 vaddr i (ram s1)\<rparr>"
  have pm: "page_map K (calls s1) = (if answer vaddr = NoError
      then (page_map K (calls s))(vaddr \<mapsto> (emptySlotPos s, readWrite K)) else page_map K (calls s))"
    using page_map_mapped [OF Suc.prems(1)] by (simp add: s1_def)
  then have w: "writable K vaddr s1 \<longleftrightarrow> answer vaddr = NoError"
    using Suc.prems(3) [of 0] by (simp add: writable_def)
  have get: "get_bytes 8 vaddr (put_bytes 8 vaddr i (ram s1)) = i"
    by (rule get_put_size)
  have step: "test_fill K (Suc n) i vaddr out s = (if answer vaddr = NoError
      then test_fill K n (i + 1) (vaddr + 4096)
        (out @ (if i mod 100 = 0 then [PageOk i (of_nat sizeToTest)] else [])) s2 else Stuck)"
    using w get by (simp add: m s1_def [symmetric] s2_def store_size_def load_size_def writable_def Let_def)
  show ?case
  proof (cases "answer vaddr = NoError")
    case True
    have "page_map K (calls s2) (page_at (vaddr + 4096) j) = None" if "j < n" for j
    proof -
      have "page_at vaddr (Suc j) \<noteq> vaddr"
        using page_at_apart [of vaddr "Suc j" 0 0 0] that Suc.prems(2) by auto
      then show ?thesis using pm that Suc.prems(3) [of "Suc j"] True by (simp add: s2_def)
    qed
    moreover have "grants K answer n s2"
      using Suc.prems(1) by (rule grants_next) (simp add: s2_def s1_def)
    ultimately have IH: "if \<forall>j < n. answer (page_at (vaddr + 4096) j) = NoError
        then \<exists>r. test_fill K n (i + 1) (vaddr + 4096)
          (out @ (if i mod 100 = 0 then [PageOk i (of_nat sizeToTest)] else [])) s2 = Done r
        else test_fill K n (i + 1) (vaddr + 4096)
          (out @ (if i mod 100 = 0 then [PageOk i (of_nat sizeToTest)] else [])) s2 = Stuck"
      using Suc.prems(2) by (intro Suc.IH) simp_all
    have all: "(\<forall>j < Suc n. answer (page_at vaddr j) = NoError) \<longleftrightarrow>
        (\<forall>j < n. answer (page_at (vaddr + 4096) j) = NoError)"
      using True by (auto simp: less_Suc_eq_0_disj)
    have run: "test_fill K (Suc n) i vaddr out s = test_fill K n (i + 1) (vaddr + 4096)
        (out @ (if i mod 100 = 0 then [PageOk i (of_nat sizeToTest)] else [])) s2"
      by (simp only: step True simp_thms if_True)
    show ?thesis unfolding all run by (rule IH)
  next
    case False
    then show ?thesis using step by (auto intro!: exI [of _ 0])
  qed
qed simp

section \<open>Properties\<close>

text \<open>The first address of the test.\<close>

definition test_base :: u64 where
  "test_base = 0x800000B000"

lemma test_base: "ReservedVaddr + of_nat ReservedPages * PAGE_SIZE = test_base"
  by (simp add: ReservedVaddr_def ReservedPages_def PAGE_SIZE_def test_base_def)

lemma progress_eq:
  "progress 0 1024 = map (\<lambda>i. PageOk (of_nat i) 1024) (filter (\<lambda>i. i mod 100 = 0) [0..<1024])"
proof -
  have m: "((of_nat j :: u64) mod 100 = 0) = (j mod 100 = 0)" if "j < 1024" for j
  proof -
    have "unat ((of_nat j :: u64) mod 100) = j mod 100"
      using that by (simp add: unat_mod unat_of_nat take_bit_nat_eq_self)
    then show ?thesis by (metis unat_0 unat_eq_zero)
  qed
  have c: "concat (map (\<lambda>j. if P j then [f j] else []) xs) = map f (filter P xs)"
    for P and f :: "nat \<Rightarrow> test_message" and xs by (induction xs) auto
  have "progress 0 1024 = concat (map (\<lambda>j. if (of_nat j :: u64) mod 100 = 0 then [PageOk (of_nat j) 1024] else []) [0..<1024])"
    unfolding progress_def sizeToTest_def by (simp only: add_0_left of_nat_numeral)
  also have "map (\<lambda>j. if (of_nat j :: u64) mod 100 = 0 then [PageOk (of_nat j) 1024] else []) [0..<1024] =
      map (\<lambda>j. if j mod 100 = 0 then [PageOk (of_nat j) 1024] else []) [0..<1024]"
    by (rule map_cong [OF refl]) (simp only: m set_upt atLeastLessThan_iff)
  finally show ?thesis by (simp only: c)
qed

lemma testPt_filled:
  assumes "test_fill K 1024 0 test_base [] s = Done (e, out, s')"
  shows "testPt K s = Done (progress 0 1024 @ [AfterTest (page_at test_base 1024), AfterTestOk], s') \<and>
    filled K 1024 0 test_base s s'"
proof -
  have f: "e = page_at test_base 1024" "out = progress 0 1024" "filled K 1024 0 test_base s s'"
    using test_fill_filled [OF assms] by simp_all
  then have "test_check K 1024 0 test_base s' = Done ()"
    by (intro test_check_passes) (simp add: filled_def)
  then show ?thesis using assms f by (simp add: testPt_def sizeToTest_def test_base)
qed


text \<open>A kernel with many slots that refuses the mapping of the page \<open>bad\<close>.\<close>

definition test_kernel :: "u64 \<Rightarrow> kernel" where
  "test_kernel bad = demo_kernel\<lparr>empty_end := 5000,
     respond := (\<lambda>h c. case c of Page_Map f v r \<Rightarrow> if v = bad then DeleteFirst else NoError | _ \<Rightarrow> NoError)\<rparr>"

lemma test_kernel_grants:
  "grants (test_kernel bad) (\<lambda>v. if v = bad then DeleteFirst else NoError) 1024 (root0\<lparr>emptySlotPos := 200\<rparr>)"
  by (simp add: grants_def test_kernel_def demo_kernel_def root0_def untypeds_def upt_rec)


end
