(* ===== verification/Root_System.thy ===== *)
theory Root_System
  imports Root_Props
begin

text \<open>
  Clients and server together: a system call from the registers the client writes to the response it
  decodes, what each call does to the server, and the states that are reachable when threads are
  created and registered clients call the server in any order.
\<close>

section \<open>A call through the kernel\<close>

text \<open>
  The kernel between a client and the loop of \<open>run\<close>: it hands over the badge of the client's
  endpoint and the registers up to the message's length. A call that the server leaves without an
  answer keeps the client waiting.
\<close>

definition root_ipc ::
    "kernel \<Rightarrow> (u64 \<Rightarrow> fault) \<Rightarrow> (msg_info \<Rightarrow> mregs \<Rightarrow> mregs) \<Rightarrow> u64 \<Rightarrow> root_state ipc" where
  "root_ipc K fault_of transfer sender =
     \<lparr>ipc_call = (\<lambda>ep info mr s.
        and_then (root_step K fault_of sender info (transfer info mr) s) (\<lambda>(rep, s).
        case rep of None \<Rightarrow> Blocked | Some (info, mr) \<Rightarrow> Done (info, transfer info mr, s))),
      ipc_send = (\<lambda>ep info mr s.
        and_then (root_step K fault_of sender info (transfer info mr) s) (\<lambda>(rep, s). Done s))\<rparr>"

text \<open>The client's \<open>perform\<close>, by the kind of the request.\<close>

fun perform_call ::
    "'w ipc \<Rightarrow> u64 \<Rightarrow> request \<Rightarrow> mregs \<Rightarrow> 'w \<Rightarrow> ((response, bool) Expected \<times> mregs \<times> 'w) outcome" where
  "perform_call I ep (KMallocRequest sz) = perform_kmalloc I ep (KMallocRequest sz)"
| "perform_call I ep (KFreeRequest ptr) = perform_kfree I ep (KFreeRequest ptr)"
| "perform_call I ep (MMapRequest n) = perform_mmap I ep (MMapRequest n)"
| "perform_call I ep (ThreadRequest op arg1 arg2) = perform_thread I ep (ThreadRequest op arg1 arg2)"
| "perform_call I ep (DebugRequest op) = perform_debug I ep (DebugRequest op)"
| "perform_call I ep BaseRequest = (\<lambda>_ _. Stuck)"

text \<open>What each request means, without messages.\<close>

fun served :: "kernel \<Rightarrow> request \<Rightarrow> root_state \<Rightarrow> (response \<times> root_state) outcome" where
  "served K (KMallocRequest sz) s =
     and_then (kmalloc sz (heap s)) (\<lambda>(p, h). Done (KMallocResponse p, s\<lparr>heap := h\<rparr>))"
| "served K (KFreeRequest ptr) s =
     and_then (kfree ptr (heap s)) (\<lambda>h. Done (KFreeResponse 0, s\<lparr>heap := h\<rparr>))"
| "served K (MMapRequest n) s = Done (MMapResponse 12345, s)"
| "served K (ThreadRequest op arg1 arg2) s = Done (BaseResponse, thread_request K op arg1 arg2 s)"
| "served K (DebugRequest op) s = Done (BaseResponse, s)"
| "served K BaseRequest s = Stuck"

lemma and_then_cong: "x = y \<Longrightarrow> (\<And>v. f v = g v) \<Longrightarrow> and_then x f = and_then y g"
  by (cases y) auto

lemma root_step_served:
  assumes "delivers transfer" "fault_of 0 = NullFault" "table_get sender s \<noteq> 0" "b \<noteq> BaseRequest"
  shows "root_step K fault_of sender (request_info b)
      (transfer (request_info b) (write_registers (id_of b) b mr0)) s =
    and_then (served K b s) (\<lambda>(v, s). Done
      (if hasResponse b then Some (request_info b,
         (transfer (request_info b) (write_registers (id_of b) b mr0))
           (1 := (case v of KMallocResponse p \<Rightarrow> p | MMapResponse w \<Rightarrow> w | _ \<Rightarrow> 0)))
       else None, s))"
proof -
  define mr where "mr = transfer (request_info b) (write_registers (id_of b) b mr0)"
  have m: "mr i = (if i = 0 then id_of b else getMsgRegister b (i - 1))"
    if "i \<le> getNumMsgRegisters b" for i
    using assms(1) that request_info_length [of b]
    by (simp add: delivers_def mr_def write_registers_apply)
  have l: "msg_label (request_info b) = 0" "0 < msg_length (request_info b)"
    "b \<noteq> BaseRequest \<Longrightarrow> \<not> msg_length (request_info b) < 2"
    by (cases b; simp add: request_info_def message_info_new_def)+
  show ?thesis
    using assms(2,3,4) l m unfolding mr_def [symmetric]
    by (cases b) (simp_all add: root_step_def processSyscall_def decode_kmalloc_def decode_kfree_def
        decode_mmap_def decode_thread_def Let_def and_then_assoc split_def)
qed

lemma perform_call_served:
  assumes "delivers transfer" "fault_of 0 = NullFault" "table_get sender s \<noteq> 0" "b \<noteq> BaseRequest"
  shows "and_then (perform_call (root_ipc K fault_of transfer sender) ep b mr0 s) (\<lambda>(r, mr, s). Done (r, s)) =
    and_then (served K b s) (\<lambda>(v, s). Done (success v False, s))"
proof -
  have reply: "transfer (request_info b) (mr(1 := w)) 1 = w" if "b \<noteq> BaseRequest" for mr w
    using assms(1) that request_info_length [of b] by (cases b) (auto simp: delivers_def)
  note r = root_step_served [of transfer fault_of sender s b, OF assms, of K mr0]
  show ?thesis
    using r reply assms(4)
    by (cases b) (simp_all add: perform_kmalloc_def perform_kfree_def perform_mmap_def perform_thread_def
        perform_debug_def performBase_def root_ipc_def and_then_assoc decode_kmalloc_response_def
        decode_kfree_response_def decode_mmap_response_def decode_base_response_def KFreeResponse_of_def
        Let_def split_def)
qed


text \<open>A server with one registered thread, at the first place of its heap's pool.\<close>

definition root_one :: root_state where
  "root_one = root_pool16\<lparr>threads := \<lparr>v_size = 1, v_reservation = 10, v_data = 4224, v_elems = (\<lambda>_. 4160)\<rparr>,
     objs := (\<lambda>_. (new_Thread 70 0)\<lparr>badge := 1\<rparr>), tcbBadgeCounter := 2\<rparr>"

definition demo_fault :: "u64 \<Rightarrow> fault" where
  "demo_fault l = (if l = 0 then NullFault else if l = 1 then CapFault else OtherFault)"

lemma root_one_get: "table_get b root_one = (if b = 1 then 4160 else 0)"
  by (simp add: table_get_def root_one_def vector_list_def)


section \<open>Thread requests\<close>

lemma thread_op_frame:
  "do_thread_op K x t s = (e, t', s') \<Longrightarrow> s' = s\<lparr>calls := calls s'\<rparr>"
  by (cases x) (auto simp: start_thread_def suspend_def resume_def setPriority_def invoke_def Let_def)

text \<open>A thread after the calls \<open>cs\<close> were made on it.\<close>

definition after_calls :: "kernel \<Rightarrow> kcall list \<Rightarrow> kcall list \<Rightarrow> thread \<Rightarrow> thread" where
  "after_calls K h cs t = t\<lparr>tstate := foldl state_after (tstate t) (accepted K h cs),
     priority := foldl prio_after (priority t) (accepted K h cs)\<rparr>"

lemma after_calls_simps [simp]: "badge (after_calls K h cs t) = badge t" "after_calls K h [] t = t"
  by (simp_all add: after_calls_def)

lemma on_thread_effect:
  obtains cs where "on_thread (do_thread_op K x) t s = s\<lparr>calls := calls s @ cs,
      objs := (objs s)(t := after_calls K (calls s) cs (objs s t))\<rparr>"
    "\<forall>c \<in> set cs. tcb_of_call c = tcb (objs s t)"
proof -
  obtain e t' s' where x: "do_thread_op K x (objs s t) s = (e, t', s')" by (rule prod_cases3)
  from thread_op_tracks [OF x] obtain cs where
    cs: "calls s' = calls s @ cs" "\<forall>c \<in> set cs. tcb_of_call c = tcb (objs s t)"
      "t' = after_calls K (calls s) cs (objs s t)" unfolding after_calls_def by blast
  have "on_thread (do_thread_op K x) t s = update_obj t (\<lambda>_. t') s'" by (simp add: on_thread_def x)
  also have "s' = s\<lparr>calls := calls s @ cs\<rparr>" using thread_op_frame [OF x] cs(1) by simp
  finally show ?thesis using that cs by (simp add: update_obj_def)
qed

text \<open>The operation a request's number asks for.\<close>

fun requested_op :: "u64 \<Rightarrow> u64 \<Rightarrow> thread_op option" where
  "requested_op op arg2 =
     (if op = Op_Suspend then Some Suspend else if op = Op_Resume then Some Resume
      else if op = Op_SetPriority then Some (SetPriority arg2) else None)"

lemma thread_request_op:
  "thread_request K op arg1 arg2 s =
     (case requested_op op arg2 of
        Some x \<Rightarrow> if table_get arg1 s \<noteq> 0 then on_thread (do_thread_op K x) (table_get arg1 s) s else s
      | None \<Rightarrow> s)"
proof -
  have "on_thread (do_thread_op K Suspend) = on_thread (suspend K)"
    "on_thread (do_thread_op K Resume) = on_thread (resume K)"
    "on_thread (do_thread_op K (SetPriority arg2)) = on_thread (setPriority K arg2)"
    by (simp_all add: fun_eq_iff on_thread_def)
  then show ?thesis by (simp add: thread_request_def Let_def)
qed

lemma table_get_badge:
  assumes "table_get b s \<noteq> 0"
  shows "badge (objs s (table_get b s)) = b" "table_get b s \<in> set (table_list s)"
proof -
  let ?P = "\<lambda>t. badge (objs s t) = b"
  have "List.find ?P xs = Some t \<Longrightarrow> ?P t \<and> t \<in> set xs" for t xs by (induction xs) (auto split: if_splits)
  then show "badge (objs s (table_get b s)) = b" "table_get b s \<in> set (table_list s)"
    using assms by (auto simp: table_get_def table_list_def split: option.splits)
qed

lemma thread_request_effect:
  obtains cs where "thread_request K op arg1 arg2 s = s\<lparr>calls := calls s @ cs,
      objs := (objs s)(table_get arg1 s := after_calls K (calls s) cs (objs s (table_get arg1 s)))\<rparr>"
    "\<forall>c \<in> set cs. tcb_of_call c = tcb (objs s (table_get arg1 s))"
    "table_get arg1 s = 0 \<or> requested_op op arg2 = None \<longrightarrow> cs = []"
proof (cases "table_get arg1 s = 0 \<or> requested_op op arg2 = None")
  case True
  then have "thread_request K op arg1 arg2 s = s" by (auto simp: thread_request_op split: option.splits)
  then show ?thesis using that [of "[]"] by simp
next
  case False
  then obtain x where x: "requested_op op arg2 = Some x" by blast
  from on_thread_effect [of K x "table_get arg1 s" s] obtain cs where
    "on_thread (do_thread_op K x) (table_get arg1 s) s = s\<lparr>calls := calls s @ cs,
      objs := (objs s)(table_get arg1 s := after_calls K (calls s) cs (objs s (table_get arg1 s)))\<rparr>"
    "\<forall>c \<in> set cs. tcb_of_call c = tcb (objs s (table_get arg1 s))" by blast
  then show ?thesis using that [of cs] False x by (simp add: thread_request_op del: requested_op.simps)
qed

text \<open>
  C13. A thread request touches only the thread it names: every call to the kernel is on the
  capability of the thread with the badge, its state and priority are those of the calls that the
  kernel accepted, every other thread of the table is as before, and a request with an unknown badge
  or an operation that the server does not have changes nothing.
\<close>

theorem thread_request_isolated:
  assumes "table_inv s"
  shows "(let s' = thread_request K op arg1 arg2 s; t = table_get arg1 s
    in table_inv s' \<and> table_list s' = table_list s \<and> heap s' = heap s \<and>
      (\<forall>u \<in> set (table_list s). badge (objs s u) \<noteq> arg1 \<longrightarrow> objs s' u = objs s u) \<and>
      (\<exists>cs. calls s' = calls s @ cs \<and> (\<forall>c \<in> set cs. tcb_of_call c = tcb (objs s t)) \<and>
         objs s' t = after_calls K (calls s) cs (objs s t)) \<and>
      (t = 0 \<or> op \<notin> {Op_Suspend, Op_Resume, Op_SetPriority} \<longrightarrow> s' = s))"
proof -
  obtain cs where e: "thread_request K op arg1 arg2 s = s\<lparr>calls := calls s @ cs,
      objs := (objs s)(table_get arg1 s := after_calls K (calls s) cs (objs s (table_get arg1 s)))\<rparr>"
    "\<forall>c \<in> set cs. tcb_of_call c = tcb (objs s (table_get arg1 s))"
    "table_get arg1 s = 0 \<or> requested_op op arg2 = None \<longrightarrow> cs = []"
    using thread_request_effect [of K op arg1 arg2 s] by blast
  define s' where "s' = thread_request K op arg1 arg2 s"
  have b: "badge (objs s' u) = badge (objs s u)" for u by (simp add: s'_def e(1) Let_def)
  have same: "threads s' = threads s" "heap s' = heap s" "tcbBadgeCounter s' = tcbBadgeCounter s"
    by (simp_all add: s'_def e(1))
  then have l: "table_list s' = table_list s" by (simp add: table_list_def)
  have "table_inv s'" using assms unfolding table_inv_def heap_holds_def same l b .
  moreover have "objs s' u = objs s u" if "u \<in> set (table_list s)" "badge (objs s u) \<noteq> arg1" for u
  proof (cases "table_get arg1 s = 0")
    case True
    then show ?thesis using e by (simp add: s'_def thread_request_op split: option.splits)
  next
    case False
    then show ?thesis using table_get_badge [OF False] that by (auto simp: s'_def e(1) Let_def)
  qed
  moreover have "s' = s" if "table_get arg1 s = 0 \<or> op \<notin> {Op_Suspend, Op_Resume, Op_SetPriority}"
    using that by (auto simp: s'_def thread_request_op)
  ultimately show ?thesis
    using l same e(2) unfolding Let_def s'_def [symmetric]
    by (auto simp: s'_def e(1) Let_def)
qed

theorem thread_request_isolated_witness:
  "\<exists>s. table_get 1 s = 4128 \<and> table_inv (thread_request demo_kernel Op_SetPriority 1 7 s) \<and>
     table_list (thread_request demo_kernel Op_SetPriority 1 7 s) = [4128] \<and>
     thread_request demo_kernel Op_SetPriority 1 7 s \<noteq> s \<and>
     thread_request demo_kernel Op_StopAndDelete 1 7 s = s"
proof -
  obtain s where "root_createThread demo_kernel layout0 (\<lambda>d r y z h. h) 77 root_pool16 = Done (success 4128 NoError, s)"
    and s: "table_inv s" "tcbBadgeCounter s = 2" "table_list s = [4128]" "table_get 1 s = 4128"
    by (rule root_spawned)
  have "calls (thread_request demo_kernel Op_SetPriority 1 7 s) \<noteq> calls s"
    by (simp add: thread_request_def on_thread_def setPriority_def invoke_def update_obj_def s(4) Let_def)
  then show ?thesis
    using thread_request_isolated [OF s(1), of demo_kernel Op_SetPriority 1 7]
      thread_request_isolated [OF s(1), of demo_kernel Op_StopAndDelete 1 7] s
    by (auto simp: Let_def)
qed

section \<open>Reachable states\<close>

text \<open>
  The server and the pointers its clients hold. Threads are created, and registered clients call:
  they may ask for any size that \<open>chunk_count\<close> can count, free what they hold, and send thread,
  mapping and debug requests at will.
\<close>

fun allowed :: "request \<Rightarrow> u64 set \<Rightarrow> bool" where
  "allowed (KMallocRequest sz) C = countable_size sz"
| "allowed (KFreeRequest ptr) C = (ptr \<in> C)"
| "allowed BaseRequest C = False"
| "allowed _ C = True"

fun client_holds :: "request \<Rightarrow> response \<Rightarrow> u64 set \<Rightarrow> u64 set" where
  "client_holds (KMallocRequest sz) (KMallocResponse p) C = C \<union> ({p} - {0})"
| "client_holds (KFreeRequest ptr) v C = C - {ptr}"
| "client_holds b v C = C"

inductive sys_step ::
    "kernel \<Rightarrow> layout \<Rightarrow> (u64 \<Rightarrow> u64 \<Rightarrow> u64 \<Rightarrow> u64 \<Rightarrow> kheap \<Rightarrow> kheap) \<Rightarrow> (u64 \<Rightarrow> fault) \<Rightarrow>
     (msg_info \<Rightarrow> mregs \<Rightarrow> mregs) \<Rightarrow> root_state \<times> u64 set \<Rightarrow> root_state \<times> u64 set \<Rightarrow> bool"
  for K L copy fault_of transfer where
  spawn: "root_createThread K L copy entry s = Done (r, s') \<Longrightarrow> tcbBadgeCounter s \<noteq> - 1 \<Longrightarrow>
     sys_step K L copy fault_of transfer (s, C) (s', C)"
| call: "table_get sender s \<noteq> 0 \<Longrightarrow> allowed b C \<Longrightarrow>
     perform_call (root_ipc K fault_of transfer sender) ep b mr s = Done (success v e, mr', s') \<Longrightarrow>
     sys_step K L copy fault_of transfer (s, C) (s', client_holds b v C)"

inductive_cases sys_stepE: "sys_step K L copy fault_of transfer (s, C) (s', C')"

definition sys_inv :: "root_state \<Rightarrow> u64 set \<Rightarrow> bool" where
  "sys_inv s C \<longleftrightarrow> table_inv s \<and> heap_holds (set (table_list s) \<union> C) s \<and>
     C \<inter> set (table_list s) = {} \<and> v_data (threads s) \<notin> C"

lemma kfree_keeps:
  assumes "heap_holds A s" "p \<in> A" "p \<noteq> v_data (threads s)"
  shows "\<exists>h. kfree p (heap s) = Done h \<and> heap_holds (A - {p}) (s\<lparr>heap := h\<rparr>)"
proof -
  from assms(1) obtain bs where a: "locked_inv (heap s) bs" "A \<subseteq> block_addr (heap s) ` set bs"
    "vector_ok (threads s) (heap s) bs sizeof_shared_ptr" by (auto simp: heap_holds_def)
  then obtain i where i: "i < length bs" "p = block_addr (heap s) (bs ! i)"
    using assms(2) by (metis (no_types, lifting) imageE in_set_conv_nth subsetD)
  from locked.free_law [OF a(1) i(1)] obtain h where
    h: "kfree p (heap s) = Done h" "locked_inv h (take i bs @ drop (Suc i) bs)"
      "block_addr h = block_addr (heap s)" unfolding i(2) by blast
  let ?bs = "take i bs @ drop (Suc i) bs"
  have "set bs = insert (bs ! i) (set ?bs)" using id_take_nth_drop [OF i(1)]
    by (metis set_append list.set(2) Un_insert_right)
  then have rest: "x \<in> block_addr (heap s) ` set ?bs" if "x \<in> block_addr (heap s) ` set bs" "x \<noteq> p" for x
    using that i(2) by auto
  have "A - {p} \<subseteq> block_addr h ` set ?bs" using a(2) rest unfolding h(3) by blast
  moreover have "vector_ok (threads s) h ?bs sizeof_shared_ptr"
    using a(3) assms(3) i(2) \<open>set bs = insert (bs ! i) (set ?bs)\<close> unfolding vector_ok_def h(3)
    by (metis insertE)
  ultimately show ?thesis
    using h(1,2) unfolding heap_holds_def
    by (intro exI [of _ h] conjI exI [of _ ?bs]) (simp_all del: block_addr.simps)
qed

lemma table_inv_heap:
  "table_inv s \<Longrightarrow> heap_holds (set (table_list s)) (s\<lparr>heap := h\<rparr>) \<Longrightarrow> table_inv (s\<lparr>heap := h\<rparr>)"
  by (simp add: table_inv_def table_list_def)

lemma heap_holds_mono: "heap_holds A s \<Longrightarrow> B \<subseteq> A \<Longrightarrow> heap_holds B s"
  by (auto simp: heap_holds_def simp del: block_addr.simps)

text \<open>Every allowed call is served, and keeps the invariant.\<close>

lemma sys_inv_heap:
  assumes "sys_inv s C" "heap_holds (set (table_list s) \<union> D) (s\<lparr>heap := h\<rparr>)"
    "D \<inter> insert (v_data (threads s)) (set (table_list s)) = {}"
  shows "sys_inv (s\<lparr>heap := h\<rparr>) D"
proof -
  have "heap_holds (set (table_list s)) (s\<lparr>heap := h\<rparr>)" by (rule heap_holds_mono [OF assms(2)]) simp
  then have "table_inv (s\<lparr>heap := h\<rparr>)" using assms(1) by (intro table_inv_heap) (simp_all add: sys_inv_def)
  then show ?thesis using assms(2,3) by (simp add: sys_inv_def table_list_def)
qed

lemma sys_inv_thread_request:
  assumes "sys_inv s C"
  shows "sys_inv (thread_request K op arg1 arg2 s) C"
proof -
  obtain cs where e: "thread_request K op arg1 arg2 s = s\<lparr>calls := calls s @ cs,
      objs := (objs s)(table_get arg1 s := after_calls K (calls s) cs (objs s (table_get arg1 s)))\<rparr>"
    using thread_request_effect [of K op arg1 arg2 s] by blast
  have b: "badge (objs (thread_request K op arg1 arg2 s) u) = badge (objs s u)" for u by (simp add: e)
  show ?thesis
    using assms by (simp add: sys_inv_def table_inv_def b heap_holds_def del: block_addr.simps)
      (simp add: e table_list_def del: block_addr.simps)
qed

lemma served_inv:
  assumes inv: "sys_inv s C" and ok: "allowed b C"
  shows "\<exists>v s'. served K b s = Done (v, s') \<and> sys_inv s' (client_holds b v C)"
proof (cases b)
  case (KMallocRequest sz)
  let ?A = "set (table_list s) \<union> C"
  from inv have h: "heap_holds ?A s" and d: "C \<inter> insert (v_data (threads s)) (set (table_list s)) = {}"
    by (auto simp: sys_inv_def)
  obtain p h' where k: "kmalloc sz (heap s) = Done (p, h')"
  proof -
    from h obtain bs where "locked_inv (heap s) bs" by (auto simp: heap_holds_def)
    from locked.alloc_law [OF this, of sz] ok KMallocRequest that show ?thesis by auto
  qed
  have sz: "countable_size sz" using ok KMallocRequest by simp
  note keep = kmalloc_keeps_table [OF h sz k]
  have "sys_inv (s\<lparr>heap := h'\<rparr>) (C \<union> ({p} - {0}))"
    by (rule sys_inv_heap [OF inv]) (use keep d in \<open>auto simp: Un_assoc\<close>)
  then show ?thesis using KMallocRequest k by simp
next
  case (KFreeRequest p)
  let ?A = "set (table_list s) \<union> C"
  from inv have h: "heap_holds ?A s" and d: "C \<inter> insert (v_data (threads s)) (set (table_list s)) = {}"
    by (auto simp: sys_inv_def)
  have p: "p \<in> C" using ok KFreeRequest by simp
  then have "p \<in> ?A" "p \<noteq> v_data (threads s)" using d by auto
  from kfree_keeps [OF h this] obtain h' where
    k: "kfree p (heap s) = Done h'" "heap_holds (?A - {p}) (s\<lparr>heap := h'\<rparr>)" by blast
  have "?A - {p} = set (table_list s) \<union> (C - {p})" using p d by blast
  with k(2) have "sys_inv (s\<lparr>heap := h'\<rparr>) (C - {p})" using d by (intro sys_inv_heap [OF inv]) auto
  then show ?thesis using KFreeRequest k(1) by simp
qed (use inv ok sys_inv_thread_request in auto)

lemma call_served:
  assumes inv: "sys_inv s C" and ok: "allowed b C" and c: "delivers transfer" "fault_of 0 = NullFault"
    "table_get sender s \<noteq> 0"
  shows "\<exists>v mr' s'. perform_call (root_ipc K fault_of transfer sender) ep b mr s = Done (success v False, mr', s') \<and>
    sys_inv s' (client_holds b v C)"
proof -
  have "b \<noteq> BaseRequest" using ok by auto
  from perform_call_served [of transfer fault_of sender s b, OF c this, of K ep mr] served_inv [OF inv ok, of K]
  show ?thesis
    by (cases "perform_call (root_ipc K fault_of transfer sender) ep b mr s") auto
qed

lemma spawn_inv:
  assumes inv: "sys_inv s C" and sizes: "countable_size (sizeof_Thread L)" "countable_size (sizeof_ControlBlock L)"
    and wrap: "tcbBadgeCounter s \<noteq> - 1" and c: "root_createThread K L copy entry s = Done (r, s')"
  shows "sys_inv s' C"
proof -
  from inv have h: "heap_holds (set (table_list s) \<union> C) s" and t: "table_inv s" by (auto simp: sys_inv_def)
  note e = root_createThread_effect [OF h sizes c] and t' = table_inv_createThread [OF t sizes wrap c]
  from t' have "table_inv s'" by simp
  moreover have "heap_holds (set (table_list s') \<union> C) s'" using e by (auto split: if_splits)
  moreover have "C \<inter> set (table_list s') = {}" "v_data (threads s') \<notin> C"
    using e inv by (auto simp: sys_inv_def split: if_splits)
  ultimately show ?thesis by (simp add: sys_inv_def)
qed

text \<open>Start-up establishes the invariant.\<close>

lemma getFreeSlot_root:
  fixes s :: root_state
  assumes "getFreeSlot K s = (r, s')"
  shows "heap s' = heap s" "threads s' = threads s" "rs_shell s' = rs_shell s"
  using getFreeSlot_frame [OF assms] by auto

lemma lateInit_effect:
  assumes "lateInit K s = Done s'"
  obtains p where "kmalloc (of_nat BufferSize) (heap s) = Done (p, heap s')" "p \<noteq> 0" "threads s' = threads s"
proof -
  obtain e s1 where 1: "createEndpoint K s = (e, s1)" by fastforce
  note f1 = root_more [OF allocObject_frame(2) [OF 1 [unfolded createEndpoint_def]]]
  obtain c s2 where 2: "getFreeSlot K (s1\<lparr>apiEndpoint := exp_value e\<rparr>) = (c, s2)" by fastforce
  obtain i s3 where 3: "getFreeSlot K (s2\<lparr>calls := calls s2 @ [IOPortControl_Issue 0x3F8 (0x3F8 + 7) (exp_value c)]\<rparr>) = (i, s3)"
    by fastforce
  note f2 = getFreeSlot_root [OF 2] and f3 = getFreeSlot_root [OF 3]
  have h: "heap s3 = heap s" "threads s3 = threads s" using f1(1) root_tail(1) [OF f1(4)] f2 f3 by simp_all
  from assms 1 2 3 obtain sh h' where
    "shell_init (rs_shell s3) (heap s3) = Done (sh, h')" "s' = s3\<lparr>com1port := exp_value c, rs_shell := sh, heap := h'\<rparr>"
    by (auto simp: lateInit_def invoke_def Let_def and_then_Done_iff split: if_splits)
  then show ?thesis using that h by (auto simp: shell_init_def and_then_Done_iff split: if_splits)
qed

lemma boot_inv:
  assumes "new_RootServer K s0 = Done s1" "earlyInit K mainThread s1 = Done s2" "lateInit K s2 = Done s3"
    and "heap s0 = kheap_static" "mappedPages s0 = 0" "threads s0 = new_vector junk"
  shows "sys_inv s3 {}"
proof -
  note b = root_boot_effect [OF assms(1,2,4,5)]
  then have "locked_inv (heap s2) []" by (auto simp: locked_inv_def)
  then have h: "heap_holds {} s2"
    using b assms(6) by (auto simp: heap_holds_def vector_ok_def new_vector_def)
  obtain p where p: "kmalloc (of_nat BufferSize) (heap s2) = Done (p, heap s3)" "threads s3 = threads s2"
    using lateInit_effect [OF assms(3)] by blast
  have "countable_size (of_nat BufferSize)" by (rule countable_small) (simp add: BufferSize_def)
  from kmalloc_keeps_table(1) [OF h this p(1)] have "heap_holds {} (s2\<lparr>heap := heap s3\<rparr>)"
    by (rule heap_holds_mono) simp
  then have "heap_holds {} s3" using p(2) by (simp add: heap_holds_def)
  moreover have "table_list s3 = []" using p(2) b assms(6) by (simp add: table_list_def vector_list_def new_vector_def)
  ultimately show ?thesis by (simp add: sys_inv_def table_inv_def)
qed

lemma sys_reach_inv:
  assumes sizes: "countable_size (sizeof_Thread L)" "countable_size (sizeof_ControlBlock L)"
    and c: "delivers transfer" "fault_of 0 = NullFault"
    and reach: "(sys_step K L copy fault_of transfer)\<^sup>*\<^sup>* (s0, {}) (s, C)" and inv: "sys_inv s0 {}"
  shows "sys_inv s C"
  using reach
proof (induction rule: rtranclp_induct2)
  case refl
  show ?case by (rule inv)
next
  case (step s C s' C')
  from step.hyps(2) show ?case
  proof (rule sys_stepE)
    fix entry r assume "C' = C" "root_createThread K L copy entry s = Done (r, s')" "tcbBadgeCounter s \<noteq> - 1"
    then show "sys_inv s' C'" using spawn_inv [OF step.IH sizes] by blast
  next
    fix sender b ep mr v e mr'
    assume "C' = client_holds b v C" "table_get sender s \<noteq> 0" "allowed b C"
      "perform_call (root_ipc K fault_of transfer sender) ep b mr s = Done (success v e, mr', s')"
    then show "sys_inv s' C'"
      using call_served [of s C b transfer fault_of sender, OF step.IH _ c, of K ep mr] by auto
  qed
qed

text \<open>A concrete start: power-on, the console thread, and its first allocation.\<close>

lemma root0_up:
  obtains s1 s2 s3 where "new_RootServer demo_kernel root0 = Done s1" "earlyInit demo_kernel 4242 s1 = Done s2"
    "lateInit demo_kernel s2 = Done s3" "heap_ready (heap s3) [9..<1280] [(0, 9, 256)]"
    "pool (heap s3) = ReservedVaddr" "emptySlotPos s3 = 117" "threads s3 = new_vector (\<lambda>_. 0)"
    "tcbBadgeCounter s3 = 1"
proof -
  obtain s1 s2 where r: "new_RootServer demo_kernel root0 = Done s1" "earlyInit demo_kernel 4242 s1 = Done s2"
    "emptySlotPos s2 = 114" using root0_boots by blast
  have "heap root0 = kheap_static" "mappedPages root0 = 0" by (simp_all add: root0_def)
  note b = root_boot_effect [OF r(1,2) this]
  then have h: "heap_ready (heap s2) [0..<1280] []" "pool (heap s2) = ReservedVaddr" by simp_all
  have c: "countable_size 256" "chunks_for 256 = 9"
    by (rule countable_small, simp) (simp add: chunks_for_def info_size_def)
  obtain h' where k: "kmalloc 256 (heap s2) = Done (data_addr (heap s2) (CPool 0), h')"
    "heap_ready h' [9..<1280] [(0, 9, 256)]" "pool h' = pool (heap s2)"
    by (rule kmalloc_front [OF h(1) c, where u = 9]) simp_all
  have nz: "data_addr (heap s2) (CPool 0) \<noteq> 0" by (simp add: h(2) ReservedVaddr_def info_size_def)
  obtain e sa where e: "createEndpoint demo_kernel s2 = (e, sa)" by fastforce
  have sa: "to_bool e" "emptySlotPos sa = 115" using r(3) e
    by (auto simp: createEndpoint_def allocObject_def getFreeSlot_def untypeds_def upt_rec
        invoke_def demo_kernel_def Let_def)
  note f = root_more [OF allocObject_frame(2) [OF e [unfolded createEndpoint_def]]]
  have "\<exists>s3. lateInit demo_kernel s2 = Done s3 \<and> heap s3 = h' \<and> emptySlotPos s3 = 117 \<and> threads s3 = threads s2 \<and>
      tcbBadgeCounter s3 = tcbBadgeCounter s2"
    using e sa f(1) root_tail [OF f(4)] k(1) nz
    by (simp add: lateInit_def getFreeSlot_def invoke_def demo_kernel_def shell_init_def BufferSize_def Let_def
        del: data_addr.simps)
  then obtain s3 where "lateInit demo_kernel s2 = Done s3" "heap s3 = h'" "emptySlotPos s3 = 117"
    "threads s3 = threads s2" "tcbBadgeCounter s3 = tcbBadgeCounter s2" by blast
  then show ?thesis using that r k h b by (simp add: root0_def)
qed

lemma demo_delivers: "delivers (\<lambda>info mr. mr)" "demo_fault 0 = NullFault"
  by (simp_all add: delivers_def demo_fault_def)

end
