(* ===== verification/Printf_Out.thy ===== *)
theory Printf_Out
  imports CString
begin

text \<open>
  The output side of \<open>userland/printf.c\<close>: flags, output functions, padding and the conversion of
  integers. The place an output function writes to is a state \<open>'o\<close> that it transforms.
\<close>

section \<open>Flags and output functions\<close>

text \<open>The flag bits; a word of flags is the set of its bits.\<close>

datatype flag =
    FLAGS_ZEROPAD | FLAGS_LEFT | FLAGS_PLUS | FLAGS_SPACE | FLAGS_HASH | FLAGS_UPPERCASE
  | FLAGS_CHAR | FLAGS_SHORT | FLAGS_LONG | FLAGS_LONG_LONG | FLAGS_PRECISION | FLAGS_ADAPT_EXP

text \<open>Character, destination, index, size of the destination.\<close>

type_synonym 'o out_fct = "char \<Rightarrow> 'o \<Rightarrow> u64 \<Rightarrow> u64 \<Rightarrow> 'o"

definition out_buffer :: "(u64 \<Rightarrow> char) out_fct" where
  "out_buffer c b idx maxlen = (if idx < maxlen then b(idx := c) else b)"

definition out_null :: "'o out_fct" where
  "out_null c b idx maxlen = b"

text \<open>The characters that reached \<open>_putchar\<close>.\<close>

definition out_char :: "string out_fct" where
  "out_char c b idx maxlen = (if c \<noteq> NUL then b @ [c] else b)"

text \<open>\<open>fct\<close> is the caller's function, \<open>'a\<close> the state it works on.\<close>

definition out_fct_wrap :: "(char \<Rightarrow> 'a \<Rightarrow> 'a) \<Rightarrow> 'a out_fct" where
  "out_fct_wrap fct c b idx maxlen = (if c \<noteq> NUL then fct c b else b)"

text \<open>\<open>out (c, buffer, idx++, maxlen)\<close> on the index and the destination.\<close>

fun put :: "'o out_fct \<Rightarrow> u64 \<Rightarrow> char \<Rightarrow> u64 \<times> 'o \<Rightarrow> u64 \<times> 'o" where
  "put out maxlen c (idx, b) = (idx + 1, out c b idx maxlen)"

abbreviation puts :: "'o out_fct \<Rightarrow> u64 \<Rightarrow> string \<Rightarrow> u64 \<times> 'o \<Rightarrow> u64 \<times> 'o" where
  "puts out maxlen cs st \<equiv> foldl (\<lambda>st c. put out maxlen c st) st cs"

lemma word_inc_less:
  fixes i w :: "'a::len word"
  assumes "i < w"
  shows "unat (i + 1) = unat i + 1" "unat w - unat (i + 1) < unat w - unat i"
proof -
  have l: "unat i < unat w" using assms by (simp add: word_less_nat_alt)
  then have "unat i + 1 < 2 ^ LENGTH('a)" using unsigned_less [of w, where ?'a = nat] by linarith
  then show u: "unat (i + 1) = unat i + 1" by (simp add: unat_word_ariths)
  show "unat w - unat (i + 1) < unat w - unat i" using l u by linarith
qed

text \<open>A loop that prints a space and counts \<open>i\<close> up to \<open>w\<close>.\<close>

function spaces :: "'o out_fct \<Rightarrow> u64 \<Rightarrow> 'a::len word \<Rightarrow> 'a word \<Rightarrow> u64 \<times> 'o \<Rightarrow> u64 \<times> 'o" where
  "spaces out maxlen i w st = (if i < w then spaces out maxlen (i + 1) w (put out maxlen (CHR '' '') st) else st)"
  by auto
termination by (relation "measure (\<lambda>(_, _, i, w, _). unat w - unat i)") (auto simp: word_inc_less(2))

declare spaces.simps [simp del]

text \<open>The loop behind the text: until \<open>width\<close> characters were written from \<open>start_idx\<close> on.\<close>

function pad_from :: "'o out_fct \<Rightarrow> u64 \<Rightarrow> u64 \<Rightarrow> u64 \<Rightarrow> u64 \<times> 'o \<Rightarrow> u64 \<times> 'o" where
  "pad_from out maxlen start_idx width st =
     (if fst st - start_idx < width then pad_from out maxlen start_idx width (put out maxlen (CHR '' '') st) else st)"
  by auto
termination
proof (relation "measure (\<lambda>(_, _, s, w, st). unat w - unat (fst st - s))", goal_cases)
  case (2 out maxlen s w st)
  then have "unat w - unat (fst st - s + 1) < unat w - unat (fst st - s)" by (rule word_inc_less(2))
  moreover have "fst (put out maxlen (CHR '' '') st) - s = fst st - s + 1"
    by (cases st) (simp add: algebra_simps)
  ultimately show ?case by (simp only: in_measure prod.case)
qed simp

declare pad_from.simps [simp del]

section \<open>Integers\<close>

text \<open>\<open>buf\<close> holds the characters written so far, in reverse order; 32 is the size of the array.\<close>

definition PRINTF_NTOA_BUFFER_SIZE :: nat where "PRINTF_NTOA_BUFFER_SIZE = 32"

definition out_rev ::
    "'o out_fct \<Rightarrow> u64 \<Rightarrow> string \<Rightarrow> u32 \<Rightarrow> flag set \<Rightarrow> u64 \<times> 'o \<Rightarrow> u64 \<times> 'o" where
  "out_rev out maxlen buf width fl st =
     (let start_idx = fst st;
          st = (if FLAGS_LEFT \<notin> fl \<and> FLAGS_ZEROPAD \<notin> fl
                then spaces out maxlen (of_nat (length buf)) (ucast width :: u64) st else st);
          st = puts out maxlen (rev buf) st
      in if FLAGS_LEFT \<in> fl then pad_from out maxlen start_idx (ucast width) st else st)"

function fill_zeros :: "u32 \<Rightarrow> string \<Rightarrow> string" where
  "fill_zeros n buf =
     (if length buf < unat n \<and> length buf < PRINTF_NTOA_BUFFER_SIZE then fill_zeros n (buf @ ''0'') else buf)"
  by auto
termination by (relation "measure (\<lambda>(n, buf). PRINTF_NTOA_BUFFER_SIZE - length buf)") auto

declare fill_zeros.simps [simp del]

text \<open>\<open>buf[len++] = c\<close> where there is room.\<close>

definition room_add :: "char \<Rightarrow> string \<Rightarrow> string" where
  "room_add c buf = (if length buf < PRINTF_NTOA_BUFFER_SIZE then buf @ [c] else buf)"

definition hash_prefix :: "u32 \<Rightarrow> u32 \<Rightarrow> u32 \<Rightarrow> flag set \<Rightarrow> string \<Rightarrow> string" where
  "hash_prefix base prec width fl buf =
     (let buf = (if FLAGS_PRECISION \<notin> fl \<and> buf \<noteq> [] \<and> (length buf = unat prec \<or> length buf = unat width)
                 then (let buf = butlast buf in if buf \<noteq> [] \<and> base = 16 then butlast buf else buf)
                 else buf);
          buf = (if base = 16 \<and> FLAGS_UPPERCASE \<notin> fl then room_add (CHR ''x'') buf
                 else if base = 16 \<and> FLAGS_UPPERCASE \<in> fl then room_add (CHR ''X'') buf
                 else if base = 2 then room_add (CHR ''b'') buf
                 else buf)
      in room_add (CHR ''0'') buf)"

definition ntoa_format ::
    "'o out_fct \<Rightarrow> u64 \<Rightarrow> string \<Rightarrow> bool \<Rightarrow> u32 \<Rightarrow> u32 \<Rightarrow> u32 \<Rightarrow> flag set \<Rightarrow> u64 \<times> 'o \<Rightarrow> u64 \<times> 'o" where
  "ntoa_format out maxlen buf negative base prec width fl st =
     (let (buf, width) =
        (if FLAGS_LEFT \<notin> fl then
           (let width = (if width \<noteq> 0 \<and> FLAGS_ZEROPAD \<in> fl \<and> (negative \<or> FLAGS_PLUS \<in> fl \<or> FLAGS_SPACE \<in> fl)
                         then width - 1 else width);
                buf = fill_zeros prec buf
            in (if FLAGS_ZEROPAD \<in> fl then fill_zeros width buf else buf, width))
         else (buf, width));
          buf = (if FLAGS_HASH \<in> fl then hash_prefix base prec width fl buf else buf);
          buf = (if negative then room_add (CHR ''-'') buf
                 else if FLAGS_PLUS \<in> fl then room_add (CHR ''+'') buf
                 else if FLAGS_SPACE \<in> fl then room_add (CHR '' '') buf
                 else buf)
      in out_rev out maxlen buf width fl st)"

definition digit_char :: "flag set \<Rightarrow> u64 \<Rightarrow> char" where
  "digit_char fl d =
     (if d < 10 then char_of (48 + unat d)
      else char_of ((if FLAGS_UPPERCASE \<in> fl then 65 else 97) + unat d - 10))"

text \<open>The \<open>do ... while\<close> loop.\<close>

function ntoa_digits :: "flag set \<Rightarrow> u64 \<Rightarrow> u64 \<Rightarrow> string \<Rightarrow> string" where
  "ntoa_digits fl base v buf =
     (let buf' = buf @ [digit_char fl (v mod base)]; v' = v div base
      in if v' \<noteq> 0 \<and> length buf' < PRINTF_NTOA_BUFFER_SIZE then ntoa_digits fl base v' buf' else buf')"
  by auto
termination by (relation "measure (\<lambda>(fl, base, v, buf). PRINTF_NTOA_BUFFER_SIZE - length buf)") auto

declare ntoa_digits.simps [simp del]

definition ntoa_long ::
    "'o out_fct \<Rightarrow> u64 \<Rightarrow> u64 \<Rightarrow> bool \<Rightarrow> u64 \<Rightarrow> u32 \<Rightarrow> u32 \<Rightarrow> flag set \<Rightarrow> u64 \<times> 'o \<Rightarrow> u64 \<times> 'o" where
  "ntoa_long out maxlen v negative base prec width fl st =
     (let fl = (if v = 0 then fl - {FLAGS_HASH} else fl);
          buf = (if FLAGS_PRECISION \<notin> fl \<or> v \<noteq> 0 then ntoa_digits fl base v [] else [])
      in ntoa_format out maxlen buf negative (ucast base) prec width fl st)"

text \<open>The same text once more for \<open>long long\<close>, which has 64 bits too.\<close>

definition ntoa_long_long ::
    "'o out_fct \<Rightarrow> u64 \<Rightarrow> u64 \<Rightarrow> bool \<Rightarrow> u64 \<Rightarrow> u32 \<Rightarrow> u32 \<Rightarrow> flag set \<Rightarrow> u64 \<times> 'o \<Rightarrow> u64 \<times> 'o" where
  "ntoa_long_long out maxlen v negative base prec width fl st =
     (let fl = (if v = 0 then fl - {FLAGS_HASH} else fl);
          buf = (if FLAGS_PRECISION \<notin> fl \<or> v \<noteq> 0 then ntoa_digits fl base v [] else [])
      in ntoa_format out maxlen buf negative (ucast base) prec width fl st)"

end
