(* ===== verification/Binary64.thy ===== *)
theory Binary64
  imports Prelude
begin

unbundle bit_operations_syntax

text \<open>
  The type \<open>double\<close> of the x86-64 build: IEEE 754 binary64 values as their 64 bits, with the operations
  that \<open>userland/printf.c\<close> uses, rounding to nearest, ties to even. All arithmetic is on integers, so
  that the operations evaluate: a finite value is a sign, a natural number and an exponent of two.
\<close>

section \<open>Values\<close>

type_synonym double = u64

datatype fval = NaN | Infinite bool | Finite bool nat int

definition fval :: "double \<Rightarrow> fval" where
  "fval w =
     (let s = bit w 63;
          m = unat (take_bit 52 w);
          e = unat (take_bit 11 (drop_bit 52 w))
      in if e = 2047 then (if m = 0 then Infinite s else NaN)
         else if e = 0 then Finite s m (- 1074)
         else Finite s (2 ^ 52 + m) (int e - 1075))"

definition d_NaN :: double where "d_NaN = 0x7FF8000000000000"

text \<open>Sign and the other 63 bits; what is too large for them is an infinity.\<close>

definition d_pack :: "bool \<Rightarrow> nat \<Rightarrow> double" where
  "d_pack s b = of_nat ((if s then 2 ^ 63 else 0) + min b (2047 * 2 ^ 52))"

definition d_inf :: "bool \<Rightarrow> double" where "d_inf s = d_pack s (2047 * 2 ^ 52)"

section \<open>Rounding\<close>

text \<open>The number of binary digits.\<close>

fun bit_length :: "nat \<Rightarrow> nat" where
  "bit_length n = (if n = 0 then 0 else Suc (bit_length (n div 2)))"

declare bit_length.simps [simp del]

lemma bit_length_numeral [simp]:
  "bit_length 0 = 0" "bit_length (Suc 0) = 1" "bit_length 1 = 1"
  "bit_length (numeral (num.Bit0 n)) = bit_length (numeral n) + 1"
  "bit_length (numeral (num.Bit1 n)) = bit_length (numeral n) + 1"
  by (simp_all add: bit_length.simps [of 0] bit_length.simps [of "Suc 0"] bit_length.simps [of "numeral (num.Bit0 n)"]
      bit_length.simps [of "numeral (num.Bit1 n)"])

text \<open>The quotient rounded to the nearest integer, ties to even.\<close>

definition div_even :: "nat \<Rightarrow> nat \<Rightarrow> nat" where
  "div_even a b =
     (let q = a div b; r = a mod b
      in if 2 * r > b \<or> 2 * r = b \<and> odd q then Suc q else q)"

text \<open>\<open>x\<close> with \<open>2 ^ x \<le> n / d * 2 ^ e < 2 ^ (x + 1)\<close>.\<close>

definition log_frac :: "nat \<Rightarrow> nat \<Rightarrow> int \<Rightarrow> int" where
  "log_frac n d e =
     (let k = int (bit_length n) - int (bit_length d)
      in (if d * 2 ^ nat k \<le> n * 2 ^ nat (- k) then k else k - 1) + e)"

text \<open>
  The value \<open>n / d * 2 ^ e\<close> rounded: \<open>t\<close> is the weight of the last place, and adding the significand
  to the shifted exponent also carries into it.
\<close>

definition d_round :: "bool \<Rightarrow> nat \<Rightarrow> nat \<Rightarrow> int \<Rightarrow> double" where
  "d_round s n d e =
     (if n = 0 then d_pack s 0
      else (let t = max (log_frac n d e - 52) (- 1074);
                m = div_even (n * 2 ^ nat (e - t)) (d * 2 ^ nat (t - e))
            in d_pack s (nat (t + 1074) * 2 ^ 52 + m)))"

section \<open>Operations\<close>

definition signed :: "bool \<Rightarrow> nat \<Rightarrow> int" where
  "signed s n = (if s then - int n else int n)"

text \<open>A finite value in units of \<open>2 ^ e0\<close>, for an exponent that is not larger.\<close>

definition units :: "int \<Rightarrow> bool \<Rightarrow> nat \<Rightarrow> int \<Rightarrow> int" where
  "units e0 s m e = signed s (m * 2 ^ nat (e - e0))"

fun v_less :: "fval \<Rightarrow> fval \<Rightarrow> bool" where
  "v_less (Finite s m e) (Finite s' m' e') = (let e0 = min e e' in units e0 s m e < units e0 s' m' e')"
| "v_less (Finite s m e) (Infinite s') = (\<not> s')"
| "v_less (Infinite s) (Finite s' m' e') = s"
| "v_less (Infinite s) (Infinite s') = (s \<and> \<not> s')"
| "v_less NaN y = False"
| "v_less x NaN = False"

fun v_eq :: "fval \<Rightarrow> fval \<Rightarrow> bool" where
  "v_eq (Finite s m e) (Finite s' m' e') = (let e0 = min e e' in units e0 s m e = units e0 s' m' e')"
| "v_eq (Infinite s) (Infinite s') = (s = s')"
| "v_eq x y = False"

definition d_less :: "double \<Rightarrow> double \<Rightarrow> bool" where "d_less a b = v_less (fval a) (fval b)"
definition d_eq :: "double \<Rightarrow> double \<Rightarrow> bool" where "d_eq a b = v_eq (fval a) (fval b)"
definition d_le :: "double \<Rightarrow> double \<Rightarrow> bool" where "d_le a b \<longleftrightarrow> d_less a b \<or> d_eq a b"

definition d_neg :: "double \<Rightarrow> double" where "d_neg a = a XOR 2 ^ 63"

text \<open>A sum that is zero is positive, unless both summands are negative zeros.\<close>

fun v_add :: "fval \<Rightarrow> fval \<Rightarrow> double" where
  "v_add (Finite s m e) (Finite s' m' e') =
     (let e0 = min e e'; i = units e0 s m e + units e0 s' m' e'
      in d_round (if i = 0 then s \<and> s' else i < 0) (nat \<bar>i\<bar>) 1 e0)"
| "v_add (Infinite s) (Infinite s') = (if s = s' then d_inf s else d_NaN)"
| "v_add (Infinite s) (Finite s' m' e') = d_inf s"
| "v_add (Finite s m e) (Infinite s') = d_inf s'"
| "v_add NaN y = d_NaN"
| "v_add x NaN = d_NaN"

fun v_mul :: "fval \<Rightarrow> fval \<Rightarrow> double" where
  "v_mul (Finite s m e) (Finite s' m' e') = d_round (s \<noteq> s') (m * m') 1 (e + e')"
| "v_mul (Infinite s) (Infinite s') = d_inf (s \<noteq> s')"
| "v_mul (Infinite s) (Finite s' m' e') = (if m' = 0 then d_NaN else d_inf (s \<noteq> s'))"
| "v_mul (Finite s m e) (Infinite s') = (if m = 0 then d_NaN else d_inf (s \<noteq> s'))"
| "v_mul NaN y = d_NaN"
| "v_mul x NaN = d_NaN"

fun v_div :: "fval \<Rightarrow> fval \<Rightarrow> double" where
  "v_div (Finite s m e) (Finite s' m' e') =
     (if m' = 0 then (if m = 0 then d_NaN else d_inf (s \<noteq> s')) else d_round (s \<noteq> s') m m' (e - e'))"
| "v_div (Infinite s) (Infinite s') = d_NaN"
| "v_div (Infinite s) (Finite s' m' e') = d_inf (s \<noteq> s')"
| "v_div (Finite s m e) (Infinite s') = d_pack (s \<noteq> s') 0"
| "v_div NaN y = d_NaN"
| "v_div x NaN = d_NaN"

definition d_add :: "double \<Rightarrow> double \<Rightarrow> double" where "d_add a b = v_add (fval a) (fval b)"
definition d_sub :: "double \<Rightarrow> double \<Rightarrow> double" where "d_sub a b = d_add a (d_neg b)"
definition d_mul :: "double \<Rightarrow> double \<Rightarrow> double" where "d_mul a b = v_mul (fval a) (fval b)"
definition d_div :: "double \<Rightarrow> double \<Rightarrow> double" where "d_div a b = v_div (fval a) (fval b)"

section \<open>Conversions\<close>

definition d_of_int :: "int \<Rightarrow> double" where "d_of_int i = d_round (i < 0) (nat \<bar>i\<bar>) 1 0"

text \<open>The literal \<open>n / 10 ^ k\<close>.\<close>

definition d_lit :: "nat \<Rightarrow> nat \<Rightarrow> double" where "d_lit n k = d_round False n (10 ^ k) 0"

fun v_trunc :: "fval \<Rightarrow> int option" where
  "v_trunc (Finite s m e) = Some (signed s (m * 2 ^ nat e div 2 ^ nat (- e)))"
| "v_trunc _ = None"

text \<open>The conversions to \<open>int\<close> and \<open>unsigned long\<close>, which are undefined outside the target's range.\<close>

definition in_range :: "int \<Rightarrow> int \<Rightarrow> int option \<Rightarrow> int option" where
  "in_range a b x = (case x of None \<Rightarrow> None | Some i \<Rightarrow> if a \<le> i \<and> i < b then Some i else None)"

definition d_to_int :: "double \<Rightarrow> int option" where
  "d_to_int a = in_range (- (2 ^ 31)) (2 ^ 31) (v_trunc (fval a))"

definition d_to_ulong :: "double \<Rightarrow> u64 option" where
  "d_to_ulong a = map_option of_int (in_range 0 (2 ^ 64) (v_trunc (fval a)))"

lemma fval_neg:
  "fval (d_neg w) = (case fval w of Finite s m e \<Rightarrow> Finite (\<not> s) m e | Infinite s \<Rightarrow> Infinite (\<not> s) | NaN \<Rightarrow> NaN)"
proof -
  have 1: "bit (d_neg w) 63 \<longleftrightarrow> \<not> bit w 63" by (simp add: d_neg_def bit_simps)
  have 2: "take_bit 52 (d_neg w) = take_bit 52 w"
    by (rule bit_word_eqI) (auto simp: d_neg_def bit_simps)
  have 3: "take_bit 11 (drop_bit 52 (d_neg w)) = take_bit 11 (drop_bit 52 w)"
    by (rule bit_word_eqI) (auto simp: d_neg_def bit_simps)
  show ?thesis unfolding fval_def Let_def 1 2 3 by simp
qed

text \<open>Evaluation on numerals, in two steps: the exact result first, then its rounding.\<close>

lemmas fval_numeral = fval_def [of "numeral n" for n] fval_def [of 0]

lemmas eval_exact =
  d_of_int_def d_lit_def fval_numeral d_add_def d_sub_def d_mul_def d_div_def fval_neg units_def signed_def
  d_less_def d_eq_def d_le_def d_to_int_def d_to_ulong_def in_range_def Let_def

lemmas eval_round = d_round_def d_pack_def log_frac_def div_even_def Let_def

lemma d_examples:
  "d_of_int 1 = 0x3FF0000000000000" "d_of_int (- 2) = 0xC000000000000000"
  "d_lit 1 1 = 0x3FB999999999999A" "d_lit 95 2 = 0x3FEE666666666666"
  by (simp_all add: eval_exact) (simp_all add: eval_round)

end
