(* ===== verification/Printf_Float.thy ===== *)
theory Printf_Float
  imports Printf_Out Binary64
begin

unbundle bit_operations_syntax

text \<open>
  The floating-point conversions of \<open>userland/printf.c\<close>: \<open>_ftoa\<close> and \<open>_etoa\<close>. \<open>None\<close> stands for a call
  that does not return a defined result: it reads behind the table of powers, converts a value outside
  the target type, or the two functions call each other for ever.
\<close>

section \<open>The fixed format\<close>

definition PRINTF_FTOA_BUFFER_SIZE :: nat where "PRINTF_FTOA_BUFFER_SIZE = 32"
definition PRINTF_DEFAULT_FLOAT_PRECISION :: u32 where "PRINTF_DEFAULT_FLOAT_PRECISION = 6"
definition PRINTF_MAX_FLOAT :: double where "PRINTF_MAX_FLOAT = d_of_int 1000000000"
definition DBL_MAX :: double where "DBL_MAX = 0x7FEFFFFFFFFFFFFF"

definition pow10 :: "double list" where
  "pow10 = map d_of_int [1, 10, 100, 1000, 10000, 100000, 1000000, 10000000, 100000000, 1000000000]"

definition pow10_nth :: "u32 \<Rightarrow> double option" where
  "pow10_nth prec = (if unat prec < length pow10 then Some (pow10 ! unat prec) else None)"

definition ftoa_add :: "char \<Rightarrow> string \<Rightarrow> string" where
  "ftoa_add c buf = (if length buf < PRINTF_FTOA_BUFFER_SIZE then buf @ [c] else buf)"

function limit_prec :: "u32 \<Rightarrow> string \<Rightarrow> u32 \<times> string" where
  "limit_prec prec buf =
     (if length buf < PRINTF_FTOA_BUFFER_SIZE \<and> prec > 9 then limit_prec (prec - 1) (buf @ ''0'') else (prec, buf))"
  by auto
termination by (relation "measure (\<lambda>(prec, buf). PRINTF_FTOA_BUFFER_SIZE - length buf)") auto

declare limit_prec.simps [simp del]

text \<open>The whole part and the fraction in units of the last decimal, rounded.\<close>

definition ftoa_split :: "double \<Rightarrow> u32 \<Rightarrow> (int \<times> u64) option" where
  "ftoa_split value prec =
     Option.bind (d_to_int value) (\<lambda>whole.
     Option.bind (pow10_nth prec) (\<lambda>p.
     let tmp = d_mul (d_sub value (d_of_int whole)) p in
     Option.bind (d_to_ulong tmp) (\<lambda>frac.
     let diff = d_sub tmp (d_of_int (uint frac))
     in Some (if d_less (d_lit 5 1) diff then
                (let frac = frac + 1 in if d_le p (d_of_int (uint frac)) then (whole + 1, 0) else (whole, frac))
              else if d_less diff (d_lit 5 1) then (whole, frac)
              else if frac = 0 \<or> odd (uint frac) then (whole, frac + 1)
              else (whole, frac)))))"

function frac_digits :: "u32 \<Rightarrow> u64 \<Rightarrow> string \<Rightarrow> u32 \<times> string" where
  "frac_digits cnt frac buf =
     (if length buf < PRINTF_FTOA_BUFFER_SIZE then
        (let cnt = cnt - 1; buf = buf @ [char_of (48 + unat (frac mod 10))]; frac = frac div 10
         in if frac = 0 then (cnt, buf) else frac_digits cnt frac buf)
      else (cnt, buf))"
  by auto
termination by (relation "measure (\<lambda>(cnt, frac, buf). PRINTF_FTOA_BUFFER_SIZE - length buf)") auto

declare frac_digits.simps [simp del]

function extra_zeros :: "u32 \<Rightarrow> string \<Rightarrow> string" where
  "extra_zeros cnt buf =
     (if length buf < PRINTF_FTOA_BUFFER_SIZE \<and> cnt > 0 then extra_zeros (cnt - 1) (buf @ ''0'') else buf)"
  by auto
termination by (relation "measure (\<lambda>(cnt, buf). PRINTF_FTOA_BUFFER_SIZE - length buf)") auto

declare extra_zeros.simps [simp del]

function whole_digits :: "int \<Rightarrow> string \<Rightarrow> string" where
  "whole_digits whole buf =
     (if length buf < PRINTF_FTOA_BUFFER_SIZE then
        (let buf = buf @ [char_of (nat (48 + whole mod 10))]; whole = whole div 10
         in if whole = 0 then buf else whole_digits whole buf)
      else buf)"
  by auto
termination by (relation "measure (\<lambda>(whole, buf). PRINTF_FTOA_BUFFER_SIZE - length buf)") auto

declare whole_digits.simps [simp del]

function ftoa_zeros :: "u32 \<Rightarrow> string \<Rightarrow> string" where
  "ftoa_zeros width buf =
     (if length buf < unat width \<and> length buf < PRINTF_FTOA_BUFFER_SIZE then ftoa_zeros width (buf @ ''0'') else buf)"
  by auto
termination by (relation "measure (\<lambda>(width, buf). PRINTF_FTOA_BUFFER_SIZE - length buf)") auto

declare ftoa_zeros.simps [simp del]

text \<open>The digits of a value that is not negative, as \<open>_ftoa\<close> collects them, last one first.\<close>

definition ftoa_digits :: "double \<Rightarrow> u32 \<Rightarrow> string option" where
  "ftoa_digits value prec =
     (let (prec, buf) = limit_prec prec [] in
      Option.bind (ftoa_split value prec) (\<lambda>(whole, frac).
      if prec = 0 then
        (let diff = d_sub value (d_of_int whole);
             whole = (if (\<not> d_less diff (d_lit 5 1) \<or> d_less (d_lit 5 1) diff) \<and> odd whole then whole + 1 else whole)
         in Some (whole_digits whole buf))
      else
        (let (cnt, buf) = frac_digits prec frac buf;
             buf = ftoa_add (CHR ''.'') (extra_zeros cnt buf)
         in Some (whole_digits whole buf))))"

text \<open>Padding and sign: the buffer and the width left.\<close>

definition ftoa_sign :: "string \<Rightarrow> bool \<Rightarrow> u32 \<Rightarrow> flag set \<Rightarrow> string \<times> u32" where
  "ftoa_sign buf negative width fl =
     (let (buf, width) =
        (if FLAGS_LEFT \<notin> fl \<and> FLAGS_ZEROPAD \<in> fl then
           (let width = (if width \<noteq> 0 \<and> (negative \<or> FLAGS_PLUS \<in> fl \<or> FLAGS_SPACE \<in> fl) then width - 1 else width)
            in (ftoa_zeros width buf, width))
         else (buf, width))
      in (if negative then ftoa_add (CHR ''-'') buf
          else if FLAGS_PLUS \<in> fl then ftoa_add (CHR ''+'') buf
          else if FLAGS_SPACE \<in> fl then ftoa_add (CHR '' '') buf
          else buf, width))"

text \<open>\<open>_ftoa\<close> behind the test for very large values.\<close>

definition ftoa_fixed ::
    "'o out_fct \<Rightarrow> u64 \<Rightarrow> double \<Rightarrow> u32 \<Rightarrow> u32 \<Rightarrow> flag set \<Rightarrow> u64 \<times> 'o \<Rightarrow> (u64 \<times> 'o) option" where
  "ftoa_fixed out maxlen value prec width fl st =
     (let negative = d_less value (d_of_int 0);
          value = (if negative then d_sub (d_of_int 0) value else value);
          prec = (if FLAGS_PRECISION \<notin> fl then PRINTF_DEFAULT_FLOAT_PRECISION else prec)
      in Option.bind (ftoa_digits value prec) (\<lambda>buf.
         let (buf, width) = ftoa_sign buf negative width fl
         in Some (out_rev out maxlen buf width fl st)))"

section \<open>The exponential format\<close>

text \<open>The decimal exponent of a positive finite value, and the power of ten that belongs to it.\<close>

definition decimal_exponent :: "double \<Rightarrow> (int \<times> double) option" where
  "decimal_exponent value =
     (let exp2 = uint (drop_bit 52 value AND 0x7FF) - 1023;
          F = (value AND (2 ^ 52 - 1)) OR push_bit 52 1023
      in Option.bind (d_to_int (d_add (d_add (d_lit 1760912590558 13) (d_mul (d_of_int exp2) (d_lit 301029995663981 15)))
           (d_mul (d_sub F (d_lit 15 1)) (d_lit 289529654602168 15)))) (\<lambda>expval.
         Option.bind (d_to_int (d_add (d_mul (d_of_int expval) (d_lit 3321928094887362 15)) (d_lit 5 1))) (\<lambda>exp2.
         let z = d_sub (d_mul (d_of_int expval) (d_lit 2302585092994046 15)) (d_mul (d_of_int exp2) (d_lit 6931471805599453 16));
             z2 = d_mul z z;
             F = push_bit 52 (of_int (exp2 + 1023));
             F = d_mul F (d_add (d_of_int 1) (d_div (d_mul (d_of_int 2) z)
               (d_add (d_sub (d_of_int 2) z) (d_div z2 (d_add (d_of_int 6) (d_div z2 (d_add (d_of_int 10)
                 (d_div z2 (d_of_int 14)))))))))
         in Some (if d_less value F then (expval - 1, d_div F (d_of_int 10)) else (expval, F)))))"

text \<open>How \<open>%g\<close> chooses: precision, flags, size of the exponent part, exponent.\<close>

definition adapt_exp :: "double \<Rightarrow> int \<Rightarrow> u32 \<Rightarrow> flag set \<Rightarrow> u32 \<times> flag set \<times> u32 \<times> int" where
  "adapt_exp value expval prec fl =
     (let minwidth = (if expval < 100 \<and> expval > - 100 then 4 else 5)
      in if FLAGS_ADAPT_EXP \<in> fl then
           (if d_le (d_lit 1 4) value \<and> d_less value (d_lit 1000000 0) then
              (if sint prec > expval then of_int (sint prec - expval - 1) else 0, fl \<union> {FLAGS_PRECISION}, 0, 0)
            else (if prec > 0 \<and> FLAGS_PRECISION \<in> fl then prec - 1 else prec, fl, minwidth, expval))
         else (prec, fl, minwidth, expval))"

text \<open>
  \<open>_etoa\<close>. \<open>ftoa\<close> stands for the calls of \<open>_ftoa\<close>, by value, precision, width, flags and output state.
\<close>

definition etoa_with ::
    "(double \<times> u32 \<times> u32 \<times> flag set \<times> u64 \<times> 'o \<Rightarrow> (u64 \<times> 'o) option) \<Rightarrow> 'o out_fct \<Rightarrow> u64 \<Rightarrow>
     double \<Rightarrow> u32 \<Rightarrow> u32 \<Rightarrow> flag set \<Rightarrow> u64 \<times> 'o \<Rightarrow> (u64 \<times> 'o) option" where
  "etoa_with ftoa out maxlen value prec width fl st =
     (if \<not> d_eq value value \<or> d_less DBL_MAX value \<or> d_less value (d_neg DBL_MAX) then
        ftoa (value, prec, width, fl, st)
      else
        (let negative = d_less value (d_of_int 0);
             value = (if negative then d_neg value else value);
             prec = (if FLAGS_PRECISION \<notin> fl then PRINTF_DEFAULT_FLOAT_PRECISION else prec) in
         Option.bind (decimal_exponent value) (\<lambda>(expval, F).
         let (prec, fl, minwidth, expval) = adapt_exp value expval prec fl;
             fwidth = (if width > minwidth then width - minwidth else 0);
             fwidth = (if FLAGS_LEFT \<in> fl \<and> minwidth \<noteq> 0 then 0 else fwidth);
             value = (if expval \<noteq> 0 then d_div value F else value);
             start_idx = fst st in
         Option.bind (ftoa (if negative then d_neg value else value, prec, fwidth, fl - {FLAGS_ADAPT_EXP}, st)) (\<lambda>st.
         if minwidth \<noteq> 0 then
           (let st = put out maxlen (if FLAGS_UPPERCASE \<in> fl then CHR ''E'' else CHR ''e'') st;
                st = ntoa_long out maxlen (of_int \<bar>expval\<bar>) (expval < 0) 10 0 (minwidth - 1) {FLAGS_ZEROPAD, FLAGS_PLUS} st
            in Some (if FLAGS_LEFT \<in> fl then pad_from out maxlen start_idx (ucast width) st else st))
         else Some st))))"

lemma etoa_with_mono [partial_function_mono]:
  assumes "\<And>x. monotone option.le_fun option_ord (\<lambda>f. B f x)"
  shows "monotone option.le_fun option_ord (\<lambda>f. etoa_with (\<lambda>x. B f x) out maxlen value prec width fl st)"
  unfolding etoa_with_def Let_def split_def
  by (intro partial_function_mono assms option.const_mono bind_mono) 

text \<open>\<open>_ftoa\<close>: the special values, printed back to front, the very large ones, and the others.\<close>

partial_function (option) ftoa_call ::
    "'o out_fct \<Rightarrow> u64 \<Rightarrow> double \<times> u32 \<times> u32 \<times> flag set \<times> u64 \<times> 'o \<Rightarrow> (u64 \<times> 'o) option" where
  "ftoa_call out maxlen args =
     (case args of (value, prec, width, fl, st) \<Rightarrow>
      if \<not> d_eq value value then Some (out_rev out maxlen ''nan'' width fl st)
      else if d_less value (d_neg DBL_MAX) then Some (out_rev out maxlen ''fni-'' width fl st)
      else if d_less DBL_MAX value then
        Some (out_rev out maxlen (if FLAGS_PLUS \<in> fl then ''fni+'' else ''fni'') width fl st)
      else if d_less PRINTF_MAX_FLOAT value \<or> d_less value (d_neg PRINTF_MAX_FLOAT) then
        etoa_with (\<lambda>args. ftoa_call out maxlen args) out maxlen value prec width fl st
      else ftoa_fixed out maxlen value prec width fl st)"

definition ftoa ::
    "'o out_fct \<Rightarrow> u64 \<Rightarrow> double \<Rightarrow> u32 \<Rightarrow> u32 \<Rightarrow> flag set \<Rightarrow> u64 \<times> 'o \<Rightarrow> (u64 \<times> 'o) option" where
  "ftoa out maxlen value prec width fl st = ftoa_call out maxlen (value, prec, width, fl, st)"

definition etoa ::
    "'o out_fct \<Rightarrow> u64 \<Rightarrow> double \<Rightarrow> u32 \<Rightarrow> u32 \<Rightarrow> flag set \<Rightarrow> u64 \<times> 'o \<Rightarrow> (u64 \<times> 'o) option" where
  "etoa out maxlen value prec width fl st = etoa_with (ftoa_call out maxlen) out maxlen value prec width fl st"

end
