(* ===== verification/Printf.thy ===== *)
theory Printf
  imports Printf_Float
begin

text \<open>
  The interpreter of format strings of \<open>userland/printf.c\<close> and the functions of the \<open>printf\<close> family. A
  format is the list of its characters with the terminator as the last one, so that reading behind the
  terminator is a fault; the variable arguments are a list, and taking an argument of another type, or
  one that is not there, is a fault.
\<close>

section \<open>Format strings\<close>

text \<open>
  The variable arguments: what \<open>va_arg\<close> takes as \<open>int\<close>/\<open>unsigned int\<close>, as \<open>long\<close>/\<open>long long\<close> and their
  unsigned types, as a pointer (with the string that stands there, if one does), or as \<open>double\<close>.
\<close>

datatype vararg = ArgInt u32 | ArgLong u64 | ArgPtr u64 "string option" | ArgDouble double

fun arg_int :: "vararg list \<Rightarrow> (u32 \<times> vararg list) outcome" where
  "arg_int (ArgInt w # va) = Done (w, va)"
| "arg_int _ = Stuck"

fun arg_long :: "vararg list \<Rightarrow> (u64 \<times> vararg list) outcome" where
  "arg_long (ArgLong w # va) = Done (w, va)"
| "arg_long _ = Stuck"

fun arg_ptr :: "vararg list \<Rightarrow> (u64 \<times> vararg list) outcome" where
  "arg_ptr (ArgPtr w t # va) = Done (w, va)"
| "arg_ptr _ = Stuck"

fun arg_str :: "vararg list \<Rightarrow> (string \<times> vararg list) outcome" where
  "arg_str (ArgPtr w (Some t) # va) = Done (t, va)"
| "arg_str _ = Stuck"

fun arg_double :: "vararg list \<Rightarrow> (double \<times> vararg list) outcome" where
  "arg_double (ArgDouble d # va) = Done (d, va)"
| "arg_double _ = Stuck"

definition is_digit :: "char \<Rightarrow> bool" where
  "is_digit ch \<longleftrightarrow> (48 :: nat) \<le> of_char ch \<and> of_char ch \<le> (57 :: nat)"

text \<open>\<open>_atoi\<close>: the number, with the wrap-around of \<open>unsigned int\<close>, and the rest of the format.\<close>

fun atoi_loop :: "u32 \<Rightarrow> string \<Rightarrow> (u32 \<times> string) outcome" where
  "atoi_loop i [] = Stuck"
| "atoi_loop i (c # fmt) =
     (if is_digit c then atoi_loop (i * 10 + (of_nat (of_char c) - 48)) fmt else Done (i, c # fmt))"

definition atoi :: "string \<Rightarrow> (u32 \<times> string) outcome" where
  "atoi fmt = atoi_loop 0 fmt"

fun parse_flags :: "flag set \<Rightarrow> string \<Rightarrow> (flag set \<times> string) outcome" where
  "parse_flags fl [] = Stuck"
| "parse_flags fl (c # fmt) =
     (if c = CHR ''0'' then parse_flags (fl \<union> {FLAGS_ZEROPAD}) fmt
      else if c = CHR ''-'' then parse_flags (fl \<union> {FLAGS_LEFT}) fmt
      else if c = CHR ''+'' then parse_flags (fl \<union> {FLAGS_PLUS}) fmt
      else if c = CHR '' '' then parse_flags (fl \<union> {FLAGS_SPACE}) fmt
      else if c = CHR ''#'' then parse_flags (fl \<union> {FLAGS_HASH}) fmt
      else Done (fl, c # fmt))"

fun parse_width ::
    "flag set \<Rightarrow> string \<Rightarrow> vararg list \<Rightarrow> (u32 \<times> flag set \<times> string \<times> vararg list) outcome" where
  "parse_width fl [] va = Stuck"
| "parse_width fl (c # fmt) va =
     (if is_digit c then and_then (atoi (c # fmt)) (\<lambda>(w, fmt). Done (w, fl, fmt, va))
      else if c = CHR ''*'' then
        and_then (arg_int va) (\<lambda>(w, va).
        Done (if w <s 0 then (- w, fl \<union> {FLAGS_LEFT}, fmt, va) else (w, fl, fmt, va)))
      else Done (0, fl, c # fmt, va))"

fun parse_precision ::
    "flag set \<Rightarrow> string \<Rightarrow> vararg list \<Rightarrow> (u32 \<times> flag set \<times> string \<times> vararg list) outcome" where
  "parse_precision fl [] va = Stuck"
| "parse_precision fl (c # fmt) va =
     (if c = CHR ''.'' then
        (let fl = fl \<union> {FLAGS_PRECISION} in
         case fmt of
           [] \<Rightarrow> Stuck
         | d # fmt' \<Rightarrow>
             (if is_digit d then and_then (atoi fmt) (\<lambda>(p, fmt). Done (p, fl, fmt, va))
              else if d = CHR ''*'' then
                and_then (arg_int va) (\<lambda>(p, va). Done (if 0 <s p then p else 0, fl, fmt', va))
              else Done (0, fl, fmt, va)))
      else Done (0, fl, c # fmt, va))"

text \<open>\<open>l\<close>, \<open>ll\<close>, \<open>h\<close>, \<open>hh\<close>; \<open>t\<close>, \<open>j\<close> and \<open>z\<close> are \<open>long\<close> here.\<close>

fun parse_length :: "flag set \<Rightarrow> string \<Rightarrow> (flag set \<times> string) outcome" where
  "parse_length fl [] = Stuck"
| "parse_length fl (c # fmt) =
     (if c = CHR ''l'' then
        (case fmt of
           [] \<Rightarrow> Stuck
         | d # fmt' \<Rightarrow> if d = CHR ''l'' then Done (fl \<union> {FLAGS_LONG, FLAGS_LONG_LONG}, fmt')
                       else Done (fl \<union> {FLAGS_LONG}, fmt))
      else if c = CHR ''h'' then
        (case fmt of
           [] \<Rightarrow> Stuck
         | d # fmt' \<Rightarrow> if d = CHR ''h'' then Done (fl \<union> {FLAGS_SHORT, FLAGS_CHAR}, fmt')
                       else Done (fl \<union> {FLAGS_SHORT}, fmt))
      else if c \<in> {CHR ''t'', CHR ''j'', CHR ''z''} then Done (fl \<union> {FLAGS_LONG}, fmt)
      else Done (fl, c # fmt))"

section \<open>Conversions\<close>

text \<open>\<open>_strnlen_s\<close>, on the text before the terminator.\<close>

fun strnlen_loop :: "string \<Rightarrow> u64 \<Rightarrow> nat" where
  "strnlen_loop [] maxsize = 0"
| "strnlen_loop (c # cs) maxsize = (if maxsize \<noteq> 0 then Suc (strnlen_loop cs (maxsize - 1)) else 0)"

definition strnlen_s :: "string \<Rightarrow> u64 \<Rightarrow> u32" where
  "strnlen_s str maxsize = of_nat (strnlen_loop str maxsize)"

text \<open>The value of a signed integer as the code passes it on: magnitude and sign.\<close>

definition signed_magnitude :: "'a::len word \<Rightarrow> 'a word \<times> bool" where
  "signed_magnitude v = (if 0 <s v then v else 0 - v, v <s 0)"

definition conv_signed ::
    "'o out_fct \<Rightarrow> u64 \<Rightarrow> u64 \<Rightarrow> u32 \<Rightarrow> u32 \<Rightarrow> flag set \<Rightarrow> vararg list \<Rightarrow> u64 \<times> 'o \<Rightarrow>
     (vararg list \<times> u64 \<times> 'o) outcome" where
  "conv_signed out maxlen base prec width fl va st =
     (if FLAGS_LONG_LONG \<in> fl then
        and_then (arg_long va) (\<lambda>(v, va).
        let (m, neg) = signed_magnitude v
        in Done (va, ntoa_long_long out maxlen m neg base prec width fl st))
      else if FLAGS_LONG \<in> fl then
        and_then (arg_long va) (\<lambda>(v, va).
        let (m, neg) = signed_magnitude v
        in Done (va, ntoa_long out maxlen m neg base prec width fl st))
      else
        and_then (arg_int va) (\<lambda>(v, va).
        let v = (if FLAGS_CHAR \<in> fl then scast (ucast v :: u8)
                 else if FLAGS_SHORT \<in> fl then scast (ucast v :: 16 word) else v);
            (m, neg) = signed_magnitude v
        in Done (va, ntoa_long out maxlen (ucast m) neg base prec width fl st)))"

definition conv_unsigned ::
    "'o out_fct \<Rightarrow> u64 \<Rightarrow> u64 \<Rightarrow> u32 \<Rightarrow> u32 \<Rightarrow> flag set \<Rightarrow> vararg list \<Rightarrow> u64 \<times> 'o \<Rightarrow>
     (vararg list \<times> u64 \<times> 'o) outcome" where
  "conv_unsigned out maxlen base prec width fl va st =
     (if FLAGS_LONG_LONG \<in> fl then
        and_then (arg_long va) (\<lambda>(v, va). Done (va, ntoa_long_long out maxlen v False base prec width fl st))
      else if FLAGS_LONG \<in> fl then
        and_then (arg_long va) (\<lambda>(v, va). Done (va, ntoa_long out maxlen v False base prec width fl st))
      else
        and_then (arg_int va) (\<lambda>(v, va).
        let v = (if FLAGS_CHAR \<in> fl then ucast (ucast v :: u8)
                 else if FLAGS_SHORT \<in> fl then ucast (ucast v :: 16 word) else v)
        in Done (va, ntoa_long out maxlen (ucast v) False base prec width fl st)))"

definition conv_integer ::
    "'o out_fct \<Rightarrow> u64 \<Rightarrow> char \<Rightarrow> u32 \<Rightarrow> u32 \<Rightarrow> flag set \<Rightarrow> vararg list \<Rightarrow> u64 \<times> 'o \<Rightarrow>
     (vararg list \<times> u64 \<times> 'o) outcome" where
  "conv_integer out maxlen c prec width fl va st =
     (let (base, fl) =
        (if c = CHR ''x'' \<or> c = CHR ''X'' then (16, fl) else if c = CHR ''o'' then (8, fl)
         else if c = CHR ''b'' then (2, fl) else (10, fl - {FLAGS_HASH}));
          fl = (if c = CHR ''X'' then fl \<union> {FLAGS_UPPERCASE} else fl);
          fl = (if c \<noteq> CHR ''i'' \<and> c \<noteq> CHR ''d'' then fl - {FLAGS_PLUS, FLAGS_SPACE} else fl);
          fl = (if FLAGS_PRECISION \<in> fl then fl - {FLAGS_ZEROPAD} else fl)
      in if c = CHR ''i'' \<or> c = CHR ''d'' then conv_signed out maxlen base prec width fl va st
         else conv_unsigned out maxlen base prec width fl va st)"

definition conv_char ::
    "'o out_fct \<Rightarrow> u64 \<Rightarrow> u32 \<Rightarrow> flag set \<Rightarrow> vararg list \<Rightarrow> u64 \<times> 'o \<Rightarrow> (vararg list \<times> u64 \<times> 'o) outcome" where
  "conv_char out maxlen width fl va st =
     and_then (arg_int va) (\<lambda>(v, va).
     let st = (if FLAGS_LEFT \<notin> fl then spaces out maxlen 1 width st else st);
         st = put out maxlen (char_of (unat (ucast v :: u8))) st
     in Done (va, if FLAGS_LEFT \<in> fl then spaces out maxlen 1 width st else st))"

text \<open>The copying loop of \<open>%s\<close>.\<close>

fun out_string :: "'o out_fct \<Rightarrow> u64 \<Rightarrow> flag set \<Rightarrow> u32 \<Rightarrow> string \<Rightarrow> u64 \<times> 'o \<Rightarrow> u64 \<times> 'o" where
  "out_string out maxlen fl prec [] st = st"
| "out_string out maxlen fl prec (c # p) st =
     (if FLAGS_PRECISION \<notin> fl \<or> prec \<noteq> 0
      then out_string out maxlen fl (if FLAGS_PRECISION \<notin> fl then prec else prec - 1) p (put out maxlen c st)
      else st)"

definition conv_string ::
    "'o out_fct \<Rightarrow> u64 \<Rightarrow> u32 \<Rightarrow> u32 \<Rightarrow> flag set \<Rightarrow> vararg list \<Rightarrow> u64 \<times> 'o \<Rightarrow>
     (vararg list \<times> u64 \<times> 'o) outcome" where
  "conv_string out maxlen prec width fl va st =
     and_then (arg_str va) (\<lambda>(p, va).
     let l = strnlen_s p (if prec \<noteq> 0 then ucast prec else - 1);
         l = (if FLAGS_PRECISION \<in> fl then (if l < prec then l else prec) else l);
         st = (if FLAGS_LEFT \<notin> fl then spaces out maxlen l width st else st);
         st = out_string out maxlen fl prec p st
     in Done (va, if FLAGS_LEFT \<in> fl then spaces out maxlen l width st else st))"

definition conv_pointer ::
    "'o out_fct \<Rightarrow> u64 \<Rightarrow> u32 \<Rightarrow> flag set \<Rightarrow> vararg list \<Rightarrow> u64 \<times> 'o \<Rightarrow> (vararg list \<times> u64 \<times> 'o) outcome" where
  "conv_pointer out maxlen prec fl va st =
     (let width = 16; fl = fl \<union> {FLAGS_ZEROPAD, FLAGS_UPPERCASE}
      in and_then (arg_ptr va) (\<lambda>(v, va). Done (va, ntoa_long_long out maxlen v False 16 prec width fl st)))"

text \<open>The specifier \<open>c\<close>; every branch then steps over it.\<close>

definition convert ::
    "'o out_fct \<Rightarrow> u64 \<Rightarrow> char \<Rightarrow> u32 \<Rightarrow> u32 \<Rightarrow> flag set \<Rightarrow> vararg list \<Rightarrow> u64 \<times> 'o \<Rightarrow>
     (vararg list \<times> u64 \<times> 'o) outcome" where
  "convert out maxlen c prec width fl va st =
     (if c \<in> set ''diuxXob'' then conv_integer out maxlen c prec width fl va st
      else if c = CHR ''f'' \<or> c = CHR ''F'' then
        (let fl = (if c = CHR ''F'' then fl \<union> {FLAGS_UPPERCASE} else fl)
         in and_then (arg_double va) (\<lambda>(d, va).
            and_then (of_option (ftoa out maxlen d prec width fl st)) (\<lambda>st. Done (va, st))))
      else if c \<in> set ''eEgG'' then
        (let fl = (if c = CHR ''g'' \<or> c = CHR ''G'' then fl \<union> {FLAGS_ADAPT_EXP} else fl);
             fl = (if c = CHR ''E'' \<or> c = CHR ''G'' then fl \<union> {FLAGS_UPPERCASE} else fl)
         in and_then (arg_double va) (\<lambda>(d, va).
            and_then (of_option (etoa out maxlen d prec width fl st)) (\<lambda>st. Done (va, st))))
      else if c = CHR ''c'' then conv_char out maxlen width fl va st
      else if c = CHR ''s'' then conv_string out maxlen prec width fl va st
      else if c = CHR ''p'' then conv_pointer out maxlen prec fl va st
      else Done (va, put out maxlen c st))"

fun next_char :: "string \<Rightarrow> (char \<times> string) outcome" where
  "next_char [] = Stuck"
| "next_char (c # fmt) = Done (c, fmt)"

lemma next_char_Done [simp]: "next_char fmt = Done (c, fmt') \<longleftrightarrow> fmt = c # fmt'"
  by (cases fmt) auto

text \<open>A directive, from behind the percent sign to behind its specifier.\<close>

definition directive ::
    "'o out_fct \<Rightarrow> u64 \<Rightarrow> string \<Rightarrow> vararg list \<Rightarrow> u64 \<times> 'o \<Rightarrow>
     (string \<times> vararg list \<times> u64 \<times> 'o) outcome" where
  "directive out maxlen fmt va st =
     and_then (parse_flags {} fmt) (\<lambda>(fl, fmt).
     and_then (parse_width fl fmt va) (\<lambda>(width, fl, fmt, va).
     and_then (parse_precision fl fmt va) (\<lambda>(prec, fl, fmt, va).
     and_then (parse_length fl fmt) (\<lambda>(fl, fmt).
     and_then (next_char fmt) (\<lambda>(c, fmt).
     and_then (convert out maxlen c prec width fl va st) (\<lambda>(va, st). Done (fmt, va, st)))))))"

text \<open>Every parser leaves a part of the format.\<close>

lemma atoi_loop_length: "atoi_loop i fmt = Done (w, fmt') \<Longrightarrow> length fmt' \<le> length fmt \<and> fmt' \<noteq> []"
  by (induction i fmt rule: atoi_loop.induct) (auto split: if_splits)

lemma parse_flags_length: "parse_flags fl fmt = Done (fl', fmt') \<Longrightarrow> length fmt' \<le> length fmt"
  by (induction fl fmt rule: parse_flags.induct) (auto split: if_splits)

lemma parse_width_length: "parse_width fl fmt va = Done (w, fl', fmt', va') \<Longrightarrow> length fmt' \<le> length fmt"
  by (cases fmt) (auto simp: atoi_def and_then_Done_iff split: if_splits dest!: atoi_loop_length)

lemma parse_precision_length:
  "parse_precision fl fmt va = Done (w, fl', fmt', va') \<Longrightarrow> length fmt' \<le> length fmt"
  by (cases fmt; cases "tl fmt")
    (auto simp: atoi_def and_then_Done_iff Let_def split: if_splits dest!: atoi_loop_length)

lemma parse_length_length: "parse_length fl fmt = Done (fl', fmt') \<Longrightarrow> length fmt' \<le> length fmt"
  by (cases fmt; cases "tl fmt") (auto split: if_splits)

lemma directive_length:
  assumes "directive out maxlen fmt va st = Done (fmt', r)"
  shows "length fmt' < length fmt"
proof -
  obtain fl1 fmt1 w fl2 fmt2 va2 p fl3 fmt3 va3 fl4 c where
    "parse_flags {} fmt = Done (fl1, fmt1)" "parse_width fl1 fmt1 va = Done (w, fl2, fmt2, va2)"
    "parse_precision fl2 fmt2 va2 = Done (p, fl3, fmt3, va3)" "parse_length fl3 fmt3 = Done (fl4, c # fmt')"
    using assms by (auto simp: directive_def and_then_Done_iff)
  then show ?thesis
    using parse_flags_length parse_width_length parse_precision_length parse_length_length by fastforce
qed

lemma and_then_fundef_cong [fundef_cong]:
  "m = m' \<Longrightarrow> (\<And>x. m' = Done x \<Longrightarrow> f x = g x) \<Longrightarrow> and_then m f = and_then m' g"
  by (cases m') auto

text \<open>The loop of \<open>_vsnprintf\<close>.\<close>

function vsnprintf_loop ::
    "'o out_fct \<Rightarrow> u64 \<Rightarrow> string \<Rightarrow> vararg list \<Rightarrow> u64 \<times> 'o \<Rightarrow> (u64 \<times> 'o) outcome" where
  "vsnprintf_loop out maxlen [] va st = Stuck"
| "vsnprintf_loop out maxlen (c # fmt) va st =
     (if c = NUL then Done st
      else if c \<noteq> CHR ''%'' then vsnprintf_loop out maxlen fmt va (put out maxlen c st)
      else and_then (directive out maxlen fmt va st) (\<lambda>(fmt, va, st). vsnprintf_loop out maxlen fmt va st))"
  by pat_completeness auto
termination
  by (relation "measure (\<lambda>(_, _, fmt, _). length fmt)") (auto dest!: directive_length)

text \<open>\<open>_vsnprintf\<close>, for a destination that is not null: the count returned and the destination.\<close>

definition vsnprintf_internal ::
    "'o out_fct \<Rightarrow> 'o \<Rightarrow> u64 \<Rightarrow> string \<Rightarrow> vararg list \<Rightarrow> (u32 \<times> 'o) outcome" where
  "vsnprintf_internal out buf maxlen format va =
     and_then (vsnprintf_loop out maxlen format va (0, buf)) (\<lambda>(idx, b).
     Done (ucast idx, out NUL b (if idx < maxlen then idx else maxlen - 1) maxlen))"

text \<open>\<open>None\<close> is a null destination.\<close>

definition vsnprintf_or_null ::
    "'o out_fct \<Rightarrow> 'o option \<Rightarrow> u64 \<Rightarrow> string \<Rightarrow> vararg list \<Rightarrow> (u32 \<times> 'o option) outcome" where
  "vsnprintf_or_null out buf maxlen format va =
     (case buf of
        Some b \<Rightarrow> and_then (vsnprintf_internal out b maxlen format va) (\<lambda>(n, b). Done (n, Some b))
      | None \<Rightarrow> and_then (vsnprintf_internal out_null () maxlen format va) (\<lambda>(n, _). Done (n, None)))"

definition c_printf :: "string \<Rightarrow> vararg list \<Rightarrow> string \<Rightarrow> (u32 \<times> string) outcome" where
  "c_printf format va putchars = vsnprintf_internal out_char putchars (- 1) format va"

definition c_sprintf ::
    "(u64 \<Rightarrow> char) option \<Rightarrow> string \<Rightarrow> vararg list \<Rightarrow> (u32 \<times> (u64 \<Rightarrow> char) option) outcome" where
  "c_sprintf buf format va = vsnprintf_or_null out_buffer buf (- 1) format va"

definition c_snprintf ::
    "(u64 \<Rightarrow> char) option \<Rightarrow> u64 \<Rightarrow> string \<Rightarrow> vararg list \<Rightarrow>
     (u32 \<times> (u64 \<Rightarrow> char) option) outcome" where
  "c_snprintf buf n format va = vsnprintf_or_null out_buffer buf n format va"

definition c_vprintf :: "string \<Rightarrow> vararg list \<Rightarrow> string \<Rightarrow> (u32 \<times> string) outcome" where
  "c_vprintf format va putchars = vsnprintf_internal out_char putchars (- 1) format va"

definition c_vsnprintf ::
    "(u64 \<Rightarrow> char) option \<Rightarrow> u64 \<Rightarrow> string \<Rightarrow> vararg list \<Rightarrow>
     (u32 \<times> (u64 \<Rightarrow> char) option) outcome" where
  "c_vsnprintf buf n format va = vsnprintf_or_null out_buffer buf n format va"

definition fctprintf ::
    "(char \<Rightarrow> 'a \<Rightarrow> 'a) \<Rightarrow> 'a \<Rightarrow> string \<Rightarrow> vararg list \<Rightarrow> (u32 \<times> 'a) outcome" where
  "fctprintf fct arg format va = vsnprintf_internal (out_fct_wrap fct) arg (- 1) format va"

end
