(* ===== verification/Startup.thy ===== *)
theory Startup
  imports RootServer Printf
begin

text \<open>
  Start-up: \<open>userland/init.c\<close>, \<open>userland/main.c\<close>, \<open>userland/tls.c\<close> and \<open>userland/putchar_impl.c\<close>. The
  assembly in \<open>crt0.S\<close> sets the stack, calls \<open>__exec_ctors\<close> and then \<open>start_root\<close>.
\<close>

section \<open>Constructors\<close>

text \<open>
  The linker's arrays of routines and \<open>_init\<close> are parameters; a routine transforms some state \<open>'s\<close>
  or does not return.
\<close>

type_synonym 's routine = "'s \<Rightarrow> 's outcome"

function run_array :: "'s routine list \<Rightarrow> nat \<Rightarrow> 's routine" where
  "run_array arr f s =
     (if f < length arr then and_then ((arr ! f) s) (run_array arr (f + 1)) else Done s)"
  by auto
termination by (relation "measure (\<lambda>(arr, f, s). length arr - f)") auto

declare run_array.simps [simp del]

definition exec_ctors :: "'s routine list \<Rightarrow> 's routine \<Rightarrow> 's routine list \<Rightarrow> 's routine" where
  "exec_ctors preinit init_routine inits s =
     and_then (run_array preinit 0 s) (\<lambda>s.
     and_then (init_routine s) (\<lambda>s.
     run_array inits 0 s))"

section \<open>The root task's main function\<close>

text \<open>
  The registers and globals of the initial thread, and the characters the kernel was given to print.
\<close>

record globals =
  tls_base :: u64
  ipc_buffer :: u64
  print_error :: u32
  console :: string

text \<open>\<open>_putchar\<close> is \<open>seL4_DebugPutChar\<close>.\<close>

definition putchar_impl :: "char \<Rightarrow> globals \<Rightarrow> globals" where
  "putchar_impl c g = g\<lparr>console := console g @ [c]\<rparr>"

text \<open>
  A call of \<open>printf\<close> without arguments; the format is given without its terminator. \<open>_out_char\<close> gives
  every character but the zero to \<open>_putchar\<close>.
\<close>

definition print :: "string \<Rightarrow> globals \<Rightarrow> globals outcome" where
  "print fmt g = and_then (c_printf (fmt @ [NUL]) [] (console g)) (\<lambda>(_, out). Done (g\<lparr>console := out\<rparr>))"

fun print_all :: "string list \<Rightarrow> globals \<Rightarrow> globals outcome" where
  "print_all [] g = Done g"
| "print_all (fmt # fmts) g = and_then (print fmt g) (print_all fmts)"

abbreviation nl :: string where "nl \<equiv> [CHR 0x0A]"

text \<open>The arguments say whether the two options are defined in the build.\<close>

definition printSel4Config :: "bool \<Rightarrow> bool \<Rightarrow> globals \<Rightarrow> globals outcome" where
  "printSel4Config fsgsbase_inst set_tls_base_self =
     print_all
       [''---- Sel4 kernel configuration: ----'' @ nl,
        ''CONFIG_FSGSBASE_INST : '',
        if fsgsbase_inst then ''SET'' else ''NOT SET'',
        nl,
        ''CONFIG_SET_TLS_BASE_SELF : '',
        if set_tls_base_self then ''SET'' else ''NOT SET'',
        nl,
        ''------------------------------------'' @ nl]"

text \<open>\<open>static_tls\<close> is the address of the static array.\<close>

definition init_tls :: "u64 \<Rightarrow> globals \<Rightarrow> globals" where
  "init_tls static_tls g = g\<lparr>tls_base := static_tls\<rparr>"

text \<open>
  What the image and the kernel contribute: the two build options, the addresses of \<open>static_tls\<close>, of
  \<open>Thread::main\<close> and of \<open>_threadMain\<close>, and the buffer address of the boot information.
\<close>

record image =
  fsgsbase_inst :: bool
  set_tls_base_self :: bool
  static_tls :: u64
  main_thread :: u64
  thread_main :: u64
  bootInfo_ipcBuffer :: u64

definition start_root ::
    "kernel \<Rightarrow> layout \<Rightarrow> (u64 \<Rightarrow> u64 \<Rightarrow> u64 \<Rightarrow> u64 \<Rightarrow> kheap \<Rightarrow> kheap) \<Rightarrow> image \<Rightarrow> (u64 \<Rightarrow> fault) \<Rightarrow>
     message list \<Rightarrow> globals \<Rightarrow> root_state \<Rightarrow> (globals \<times> reply list \<times> root_state) outcome" where
  "start_root K L copy I fault_of ms g s =
     and_then (printSel4Config (fsgsbase_inst I) (set_tls_base_self I) g) (\<lambda>g.
     let g = init_tls (static_tls I) g;
         g = g\<lparr>ipc_buffer := bootInfo_ipcBuffer I\<rparr>;
         g = g\<lparr>print_error := 1\<rparr>
     in and_then (print (''Start Root server'' @ nl) g) (\<lambda>g.
        and_then (new_RootServer K s) (\<lambda>s.
        and_then (earlyInit K (main_thread I) s) (\<lambda>s.
        and_then (lateInit K s) (\<lambda>s.
        and_then (run K L copy (thread_main I) fault_of ms s) (\<lambda>(rs, s).
        Done (g, rs, s)))))))"

end
