(* ===== verification/Printf_Chars.thy ===== *)
theory Printf_Chars
  imports Printf_Float
begin

text \<open>
  The characters that the conversions of \<open>userland/printf.c\<close> print, apart from the output function: every
  conversion hands them over at consecutive indices.
\<close>

section \<open>The characters of a conversion\<close>

lemma put_fst [simp]: "fst (put out maxlen c st) = fst st + 1"
  by (cases st) simp

lemma puts_fst [simp]: "fst (puts out maxlen cs st) = fst st + of_nat (length cs)"
  by (induction cs arbitrary: st) (simp_all add: algebra_simps)

definition blanks :: "nat \<Rightarrow> string" where
  "blanks n = replicate n (CHR '' '')"

lemma spaces_puts: "spaces out maxlen i w st = puts out maxlen (blanks (unat w - unat i)) st"
proof (induction out maxlen i w st rule: spaces.induct)
  case (1 out maxlen i w st)
  show ?case
  proof (cases "i < w")
    case True
    then have "unat w - unat i = Suc (unat w - unat (i + 1))"
      using word_inc_less(1) [OF True] by (simp add: word_less_nat_alt)
    then show ?thesis using 1 True by (simp add: spaces.simps [of out maxlen i w st] blanks_def)
  next
    case False
    then have "unat w - unat i = 0" by (simp add: word_less_nat_alt)
    then show ?thesis using False by (simp add: spaces.simps [of out maxlen i w st] blanks_def)
  qed
qed

lemma pad_from_puts: "pad_from out maxlen s w st = puts out maxlen (blanks (unat w - unat (fst st - s))) st"
proof (induction out maxlen s w st rule: pad_from.induct)
  case (1 out maxlen s w st)
  show ?case
  proof (cases "fst st - s < w")
    case True
    have e: "fst st + 1 - s = fst st - s + 1" by (simp add: algebra_simps)
    have "unat w - unat (fst st - s) = Suc (unat w - unat (fst st + 1 - s))"
      using word_inc_less(1) [OF True] True unfolding e by (simp add: word_less_nat_alt)
    then show ?thesis using 1 True by (simp add: pad_from.simps [of out maxlen s w st] blanks_def)
  next
    case False
    then have "unat w - unat (fst st - s) = 0" by (simp add: word_less_nat_alt)
    then show ?thesis using False by (simp add: pad_from.simps [of out maxlen s w st] blanks_def)
  qed
qed

lemma unat_widen [simp]: "unat (ucast (w :: u32) :: u64) = unat w"
proof -
  have "unat w < 2 ^ LENGTH(32)" by (rule unsigned_less)
  then have "unat w < 2 ^ 64" by simp
  then show ?thesis by (simp add: unsigned_ucast_eq take_bit_nat_eq_self)
qed

definition rev_chars :: "string \<Rightarrow> u32 \<Rightarrow> flag set \<Rightarrow> string" where
  "rev_chars buf width fl =
     (let sp = blanks (unat width - length buf)
      in (if FLAGS_LEFT \<notin> fl \<and> FLAGS_ZEROPAD \<notin> fl then sp else []) @ rev buf @
         (if FLAGS_LEFT \<in> fl then sp else []))"

lemma out_rev_puts:
  assumes "length buf \<le> PRINTF_NTOA_BUFFER_SIZE"
  shows "out_rev out maxlen buf width fl st = puts out maxlen (rev_chars buf width fl) st"
proof -
  have l: "unat (of_nat (length buf) :: u64) = length buf"
    using assms by (simp add: PRINTF_NTOA_BUFFER_SIZE_def unat_of_nat)
  show ?thesis
    by (simp add: out_rev_def rev_chars_def Let_def spaces_puts pad_from_puts l)
qed

text \<open>The buffer of a number before it is printed: at most 32 characters.\<close>

definition number_buf :: "string \<Rightarrow> bool \<Rightarrow> u32 \<Rightarrow> u32 \<Rightarrow> u32 \<Rightarrow> flag set \<Rightarrow> string" where
  "number_buf buf negative base prec width fl =
     (let sgn_width = (if width \<noteq> 0 \<and> FLAGS_ZEROPAD \<in> fl \<and> (negative \<or> FLAGS_PLUS \<in> fl \<or> FLAGS_SPACE \<in> fl)
                       then width - 1 else width);
          buf = (if FLAGS_LEFT \<in> fl then buf
                 else if FLAGS_ZEROPAD \<in> fl then fill_zeros sgn_width (fill_zeros prec buf)
                 else fill_zeros prec buf);
          buf = (if FLAGS_HASH \<in> fl
                 then hash_prefix base prec (if FLAGS_LEFT \<in> fl then width else sgn_width) fl buf else buf)
      in if negative then room_add (CHR ''-'') buf
         else if FLAGS_PLUS \<in> fl then room_add (CHR ''+'') buf
         else if FLAGS_SPACE \<in> fl then room_add (CHR '' '') buf
         else buf)"

lemma fill_zeros_eq:
  "fill_zeros n buf = buf @ replicate (min (unat n) PRINTF_NTOA_BUFFER_SIZE - length buf) (CHR ''0'')"
proof (induction n buf rule: fill_zeros.induct)
  case (1 n buf)
  show ?case
  proof (cases "length buf < unat n \<and> length buf < PRINTF_NTOA_BUFFER_SIZE")
    case True
    then have "min (unat n) PRINTF_NTOA_BUFFER_SIZE - length buf =
        Suc (min (unat n) PRINTF_NTOA_BUFFER_SIZE - length (buf @ ''0''))" by auto
    then show ?thesis using 1 True by (simp add: fill_zeros.simps [of n buf])
  next
    case False
    then show ?thesis by (auto simp: fill_zeros.simps [of n buf])
  qed
qed

abbreviation fits_buf :: "string \<Rightarrow> bool" where
  "fits_buf buf \<equiv> length buf \<le> PRINTF_NTOA_BUFFER_SIZE"

lemma fits_buf_steps:
  "fits_buf buf \<Longrightarrow> fits_buf (fill_zeros n buf)"
  "fits_buf buf \<Longrightarrow> fits_buf (room_add c buf)"
  "fits_buf buf \<Longrightarrow> fits_buf (hash_prefix base prec width fl buf)"
  by (auto simp: fill_zeros_eq room_add_def hash_prefix_def Let_def)

lemma number_buf_fits: "fits_buf buf \<Longrightarrow> fits_buf (number_buf buf negative base prec width fl)"
  by (simp add: number_buf_def Let_def fits_buf_steps)

lemma ntoa_format_puts:
  assumes "fits_buf buf"
  shows "\<exists>w. (FLAGS_LEFT \<in> fl \<or> FLAGS_ZEROPAD \<notin> fl \<longrightarrow> w = width) \<and>
    ntoa_format out maxlen buf negative base prec width fl st =
      puts out maxlen (rev_chars (number_buf buf negative base prec width fl) w fl) st"
proof -
  let ?w = "if FLAGS_LEFT \<notin> fl \<and> width \<noteq> 0 \<and> FLAGS_ZEROPAD \<in> fl \<and> (negative \<or> FLAGS_PLUS \<in> fl \<or> FLAGS_SPACE \<in> fl)
      then width - 1 else width"
  have "ntoa_format out maxlen buf negative base prec width fl st =
      out_rev out maxlen (number_buf buf negative base prec width fl) ?w fl st"
    by (simp add: ntoa_format_def number_buf_def Let_def)
  then show ?thesis
    by (intro exI [of _ ?w]) (simp add: out_rev_puts number_buf_fits [OF assms])
qed

text \<open>The padding only depends on the width where no zeros were asked for.\<close>

lemma rev_chars_zeropad:
  "FLAGS_LEFT \<notin> fl \<Longrightarrow> FLAGS_ZEROPAD \<in> fl \<Longrightarrow> rev_chars buf w fl = rev_chars buf width fl"
  by (simp add: rev_chars_def)

lemma ntoa_format_chars:
  assumes "fits_buf buf"
  shows "ntoa_format out maxlen buf negative base prec width fl st =
      puts out maxlen (rev_chars (number_buf buf negative base prec width fl) width fl) st"
  using ntoa_format_puts [OF assms, of fl width out maxlen negative base prec st]
    rev_chars_zeropad [of fl "number_buf buf negative base prec width fl" _ width] by metis

lemma ntoa_digits_length:
  "length buf < PRINTF_NTOA_BUFFER_SIZE \<Longrightarrow> fits_buf (ntoa_digits fl base v buf)"
proof (induction fl base v buf rule: ntoa_digits.induct)
  case (1 fl base v buf)
  then show ?case by (simp add: ntoa_digits.simps [of fl base v buf] Let_def)
qed

text \<open>The characters of \<open>_ntoa_long\<close> and \<open>_ntoa_long_long\<close>.\<close>

definition number_chars :: "u64 \<Rightarrow> bool \<Rightarrow> u64 \<Rightarrow> u32 \<Rightarrow> u32 \<Rightarrow> flag set \<Rightarrow> string" where
  "number_chars v negative base prec width fl =
     (let fl = (if v = 0 then fl - {FLAGS_HASH} else fl);
          buf = (if FLAGS_PRECISION \<notin> fl \<or> v \<noteq> 0 then ntoa_digits fl base v [] else [])
      in rev_chars (number_buf buf negative (ucast base) prec width fl) width fl)"

lemma ntoa_puts:
  "ntoa_long out maxlen v negative base prec width fl st = puts out maxlen (number_chars v negative base prec width fl) st"
  "ntoa_long_long out maxlen v negative base prec width fl st = puts out maxlen (number_chars v negative base prec width fl) st"
proof -
  have "fits_buf (ntoa_digits f base v [])" for f
    by (rule ntoa_digits_length) (simp add: PRINTF_NTOA_BUFFER_SIZE_def)
  then show
    "ntoa_long out maxlen v negative base prec width fl st = puts out maxlen (number_chars v negative base prec width fl) st"
    "ntoa_long_long out maxlen v negative base prec width fl st = puts out maxlen (number_chars v negative base prec width fl) st"
    by (auto simp: ntoa_long_def ntoa_long_long_def number_chars_def Let_def ntoa_format_chars)
qed

text \<open>The output function that keeps what it is given.\<close>

definition collect :: "string out_fct" where
  "collect c b idx maxlen = b @ [c]"

lemma puts_collect [simp]: "puts collect maxlen cs (i, b) = (i + of_nat (length cs), b @ cs)"
  by (induction cs arbitrary: i b) (simp_all add: collect_def algebra_simps)

text \<open>A conversion prints what it gives the collector, whatever the output function.\<close>

definition replay :: "'o out_fct \<Rightarrow> u64 \<Rightarrow> u64 \<times> 'o \<Rightarrow> u64 \<times> string \<Rightarrow> u64 \<times> 'o" where
  "replay out maxlen st r = puts out maxlen (snd r) st"


section \<open>Floating point\<close>

abbreviation fits_ftoa :: "string \<Rightarrow> bool" where
  "fits_ftoa buf \<equiv> length buf \<le> PRINTF_FTOA_BUFFER_SIZE"

lemma limit_prec_fits: "fits_ftoa buf \<Longrightarrow> fits_ftoa (snd (limit_prec prec buf))"
proof (induction prec buf rule: limit_prec.induct)
  case (1 prec buf)
  then show ?case by (auto simp: limit_prec.simps [of prec buf])
qed

lemma frac_digits_fits: "fits_ftoa buf \<Longrightarrow> fits_ftoa (snd (frac_digits cnt frac buf))"
proof (induction cnt frac buf rule: frac_digits.induct)
  case (1 cnt frac buf)
  then show ?case by (auto simp: frac_digits.simps [of cnt frac buf] Let_def)
qed

lemma extra_zeros_fits: "fits_ftoa buf \<Longrightarrow> fits_ftoa (extra_zeros cnt buf)"
proof (induction cnt buf rule: extra_zeros.induct)
  case (1 cnt buf)
  then show ?case by (auto simp: extra_zeros.simps [of cnt buf])
qed

lemma whole_digits_fits: "fits_ftoa buf \<Longrightarrow> fits_ftoa (whole_digits whole buf)"
proof (induction whole buf rule: whole_digits.induct)
  case (1 whole buf)
  then show ?case by (auto simp: whole_digits.simps [of whole buf] Let_def)
qed

lemma ftoa_zeros_fits: "fits_ftoa buf \<Longrightarrow> fits_ftoa (ftoa_zeros width buf)"
proof (induction width buf rule: ftoa_zeros.induct)
  case (1 width buf)
  then show ?case by (auto simp: ftoa_zeros.simps [of width buf])
qed

lemma ftoa_add_fits: "fits_ftoa buf \<Longrightarrow> fits_ftoa (ftoa_add c buf)"
  by (simp add: ftoa_add_def)

lemmas ftoa_fits =
  limit_prec_fits frac_digits_fits extra_zeros_fits whole_digits_fits ftoa_zeros_fits ftoa_add_fits

lemma ftoa_digits_fits: "ftoa_digits value prec = Some buf \<Longrightarrow> fits_ftoa buf"
  using limit_prec_fits [of "[]" prec]
  by (auto simp: ftoa_digits_def Let_def split_def bind_eq_Some_conv ftoa_fits split: if_splits)

lemma ftoa_sign_fits: "fits_ftoa buf \<Longrightarrow> fits_ftoa (fst (ftoa_sign buf negative width fl))"
  by (simp add: ftoa_sign_def Let_def split_def ftoa_fits)

definition fixed_chars :: "double \<Rightarrow> u32 \<Rightarrow> u32 \<Rightarrow> flag set \<Rightarrow> string option" where
  "fixed_chars value prec width fl =
     (let negative = d_less value (d_of_int 0);
          value = (if negative then d_sub (d_of_int 0) value else value);
          prec = (if FLAGS_PRECISION \<notin> fl then PRINTF_DEFAULT_FLOAT_PRECISION else prec)
      in Option.bind (ftoa_digits value prec) (\<lambda>buf.
         let (buf, width) = ftoa_sign buf negative width fl in Some (rev_chars buf width fl)))"

lemma ftoa_fixed_puts:
  "ftoa_fixed out maxlen value prec width fl st =
     map_option (\<lambda>cs. puts out maxlen cs st) (fixed_chars value prec width fl)"
proof -
  have f: "out_rev out maxlen (fst (ftoa_sign buf n width fl)) w fl st =
      puts out maxlen (rev_chars (fst (ftoa_sign buf n width fl)) w fl) st"
    if "ftoa_digits v p = Some buf" for v p buf n w
    using ftoa_sign_fits [OF ftoa_digits_fits [OF that]]
    by (intro out_rev_puts) (simp add: PRINTF_FTOA_BUFFER_SIZE_def PRINTF_NTOA_BUFFER_SIZE_def)
  show ?thesis
    by (auto simp: ftoa_fixed_def fixed_chars_def Let_def split_def bind_eq_Some_conv f split: Option.bind_splits)
qed

text \<open>The exponent part, behind the characters \<open>cs\<close>.\<close>

definition exponent_chars :: "nat \<Rightarrow> flag set \<Rightarrow> u32 \<Rightarrow> u32 \<Rightarrow> int \<Rightarrow> string" where
  "exponent_chars k fl width minwidth expval =
     (if minwidth \<noteq> 0 then
        (let cs = (if FLAGS_UPPERCASE \<in> fl then CHR ''E'' else CHR ''e'') #
           number_chars (of_int \<bar>expval\<bar>) (expval < 0) 10 0 (minwidth - 1) {FLAGS_ZEROPAD, FLAGS_PLUS}
         in cs @ (if FLAGS_LEFT \<in> fl then blanks (unat width - unat (of_nat (k + length cs) :: u64)) else []))
      else [])"

lemma exponent_puts:
  "(if minwidth \<noteq> 0 then
      (let st' = put out maxlen (if FLAGS_UPPERCASE \<in> fl then CHR ''E'' else CHR ''e'') (puts out maxlen cs st);
           st' = ntoa_long out maxlen (of_int \<bar>expval\<bar>) (expval < 0) 10 0 (minwidth - 1) {FLAGS_ZEROPAD, FLAGS_PLUS} st'
       in Some (if FLAGS_LEFT \<in> fl then pad_from out maxlen (fst st) (ucast width) st' else st'))
    else Some (puts out maxlen cs st)) =
   Some (puts out maxlen (cs @ exponent_chars (length cs) fl width minwidth expval) st)"
  by (simp add: exponent_chars_def Let_def ntoa_puts pad_from_puts algebra_simps)

text \<open>
  A floating-point conversion prints the same characters through every output function: with \<open>cs\<close> the
  characters of one run, every other run returns and prints them.
\<close>

lemma etoa_puts:
  assumes IH: "\<And>args y. f args = Some y \<Longrightarrow> \<exists>cs. y = puts out maxlen cs (snd (snd (snd (snd args)))) \<and>
      (\<forall>st'. g (fst args, fst (snd args), fst (snd (snd args)), fst (snd (snd (snd args))), st') = Some (puts out' maxlen' cs st'))"
    and r: "etoa_with f out maxlen value prec width fl st = Some y"
  shows "\<exists>cs. y = puts out maxlen cs st \<and> (\<forall>st'. etoa_with g out' maxlen' value prec width fl st' = Some (puts out' maxlen' cs st'))"
proof (cases "\<not> d_eq value value \<or> d_less DBL_MAX value \<or> d_less value (d_neg DBL_MAX)")
  case True
  then have "f (value, prec, width, fl, st) = Some y"
    using r unfolding etoa_with_def by (simp only: if_True)
  from IH [OF this] show ?thesis unfolding etoa_with_def if_P [OF True] by simp
next
  case False
  let ?n = "d_less value (d_of_int 0)"
  let ?v = "if ?n then d_neg value else value"
  let ?p = "if FLAGS_PRECISION \<notin> fl then PRINTF_DEFAULT_FLOAT_PRECISION else prec"
  obtain ev F where d: "decimal_exponent ?v = Some (ev, F)"
    using r unfolding etoa_with_def if_not_P [OF False] Let_def by (auto simp: bind_eq_Some_conv)
  obtain p2 fl2 mw ev2 where a: "adapt_exp ?v ev ?p fl = (p2, fl2, mw, ev2)" by (metis prod_cases4)
  let ?fw = "if FLAGS_LEFT \<in> fl2 \<and> mw \<noteq> 0 then 0 else if width > mw then width - mw else 0"
  let ?x = "if ev2 \<noteq> 0 then d_div ?v F else ?v"
  let ?tail = "\<lambda>out maxlen st st'. if mw \<noteq> 0 then
      (let st'' = put out maxlen (if FLAGS_UPPERCASE \<in> fl2 then CHR ''E'' else CHR ''e'') st';
           st'' = ntoa_long out maxlen (of_int \<bar>ev2\<bar>) (ev2 < 0) 10 0 (mw - 1) {FLAGS_ZEROPAD, FLAGS_PLUS} st''
       in Some (if FLAGS_LEFT \<in> fl2 then pad_from out maxlen (fst st) (ucast width) st'' else st''))
    else Some st'"
  have e: "etoa_with f out maxlen value prec width fl st =
      Option.bind (f (if ?n then d_neg ?x else ?x, p2, ?fw, fl2 - {FLAGS_ADAPT_EXP}, st)) (?tail out maxlen st)"
    for f and out :: "'z out_fct" and maxlen st
    unfolding etoa_with_def if_not_P [OF False] Let_def d a prod.case bind.bind_lunit by (rule refl)
  from r obtain st1 where st1: "f (if ?n then d_neg ?x else ?x, p2, ?fw, fl2 - {FLAGS_ADAPT_EXP}, st) = Some st1"
    "?tail out maxlen st st1 = Some y"
    unfolding e bind_eq_Some_conv by blast
  from IH [OF st1(1)] obtain cs where cs: "st1 = puts out maxlen cs st"
    "\<And>st'. g (if ?n then d_neg ?x else ?x, p2, ?fw, fl2 - {FLAGS_ADAPT_EXP}, st') = Some (puts out' maxlen' cs st')"
    by auto
  have "y = puts out maxlen (cs @ exponent_chars (length cs) fl2 width mw ev2) st"
    using st1(2) unfolding cs(1) exponent_puts by simp
  moreover have "etoa_with g out' maxlen' value prec width fl st' =
      Some (puts out' maxlen' (cs @ exponent_chars (length cs) fl2 width mw ev2) st')" for st'
    unfolding e cs(2) bind.bind_lunit exponent_puts ..
  ultimately show ?thesis by blast
qed

text \<open>The characters of the special values, and the branches of \<open>_ftoa\<close>.\<close>

definition special_chars :: "double \<Rightarrow> u32 \<Rightarrow> flag set \<Rightarrow> string option" where
  "special_chars value width fl =
     (if \<not> d_eq value value then Some (rev_chars ''nan'' width fl)
      else if d_less value (d_neg DBL_MAX) then Some (rev_chars ''fni-'' width fl)
      else if d_less DBL_MAX value then Some (rev_chars (if FLAGS_PLUS \<in> fl then ''fni+'' else ''fni'') width fl)
      else None)"

lemma ftoa_call_cases:
  "ftoa_call out maxlen (value, prec, width, fl, st) =
     (case special_chars value width fl of
        Some cs \<Rightarrow> Some (puts out maxlen cs st)
      | None \<Rightarrow>
          if d_less PRINTF_MAX_FLOAT value \<or> d_less value (d_neg PRINTF_MAX_FLOAT)
          then etoa_with (ftoa_call out maxlen) out maxlen value prec width fl st
          else map_option (\<lambda>cs. puts out maxlen cs st) (fixed_chars value prec width fl))"
  by (simp add: ftoa_call.simps [of out maxlen] special_chars_def ftoa_fixed_puts out_rev_puts
      PRINTF_NTOA_BUFFER_SIZE_def)

lemma ftoa_call_puts:
  fixes out :: "'o out_fct" and out' :: "'p out_fct"
  assumes "ftoa_call out maxlen args = Some y"
  shows "\<exists>cs. y = puts out maxlen cs (snd (snd (snd (snd args)))) \<and>
    (\<forall>st'. ftoa_call out' maxlen' (fst args, fst (snd args), fst (snd (snd args)), fst (snd (snd (snd args))), st') =
       Some (puts out' maxlen' cs st'))"
proof (rule ftoa_call.raw_induct [where P = "\<lambda>out maxlen args y. \<exists>cs. y = puts out maxlen cs (snd (snd (snd (snd args)))) \<and>
    (\<forall>st'. ftoa_call out' maxlen' (fst args, fst (snd args), fst (snd (snd args)), fst (snd (snd (snd args))), st') =
       Some (puts out' maxlen' cs st'))", OF _ assms], goal_cases)
  case (1 f out maxlen args y)
  obtain v prec width fl st where args: "args = (v, prec, width, fl, st)" by (cases args) auto
  show ?case
  proof (cases "special_chars v width fl")
    case None
    show ?thesis
    proof (cases "d_less PRINTF_MAX_FLOAT v \<or> d_less v (d_neg PRINTF_MAX_FLOAT)")
      case True
      have "etoa_with (f out maxlen) out maxlen v prec width fl st = Some y"
        using 1(2) None True unfolding args by (auto simp: special_chars_def split: if_splits)
      from etoa_puts [where g = "ftoa_call out' maxlen'", OF _ this, of out' maxlen'] 1(1)
      obtain cs where "y = puts out maxlen cs st"
        "\<And>st'. etoa_with (ftoa_call out' maxlen') out' maxlen' v prec width fl st' = Some (puts out' maxlen' cs st')"
        by blast
      then show ?thesis using None True unfolding args by (auto simp: ftoa_call_cases)
    next
      case False
      then show ?thesis
        using 1(2) None unfolding args by (auto simp: special_chars_def ftoa_call_cases ftoa_fixed_puts split: if_splits)
    qed
  next
    case (Some cs)
    then show ?thesis
      using 1(2) unfolding args
      by (auto simp: special_chars_def ftoa_call_cases out_rev_puts PRINTF_NTOA_BUFFER_SIZE_def split: if_splits)
  qed
qed

lemma same_replay:
  fixes f :: "'o out_fct \<Rightarrow> u64 \<Rightarrow> u64 \<times> 'o \<Rightarrow> (u64 \<times> 'o) option" and c :: "u64 \<times> string \<Rightarrow> (u64 \<times> string) option"
  assumes none: "\<And>out maxlen st y. f out maxlen st = Some y \<Longrightarrow> \<exists>cs. c (0, []) = Some (puts collect 0 cs (0, []))"
    and run: "\<And>y. c (0, []) = Some y \<Longrightarrow> \<exists>cs. y = puts collect 0 cs (0, []) \<and>
      (\<forall>st. f out maxlen st = Some (puts out maxlen cs st))"
  shows "f out maxlen st = map_option (replay out maxlen st) (c (0, []))"
proof (cases "c (0, [])")
  case None
  then show ?thesis using none [of out maxlen st] by (cases "f out maxlen st") auto
next
  case (Some y)
  with run [OF this] show ?thesis by (cases st) (auto simp: replay_def)
qed

lemma ftoa_replay:
  "ftoa out maxlen v prec width fl st =
     map_option (replay out maxlen st) (ftoa collect 0 v prec width fl (0, []))"
proof (rule same_replay [of "\<lambda>out maxlen st. ftoa out maxlen v prec width fl st" "\<lambda>st. ftoa collect 0 v prec width fl st"])
  fix out :: "'a out_fct" and maxlen st y assume "ftoa out maxlen v prec width fl st = Some y"
  from ftoa_call_puts [OF this [unfolded ftoa_def], of collect 0]
  show "\<exists>cs. ftoa collect 0 v prec width fl (0, []) = Some (puts collect 0 cs (0, []))" by (auto simp: ftoa_def)
next
  fix y assume "ftoa collect 0 v prec width fl (0, []) = Some y"
  from ftoa_call_puts [OF this [unfolded ftoa_def], of out maxlen]
  show "\<exists>cs. y = puts collect 0 cs (0, []) \<and> (\<forall>st. ftoa out maxlen v prec width fl st = Some (puts out maxlen cs st))"
    unfolding ftoa_def by (simp del: puts_collect)
qed

lemma etoa_replay:
  "etoa out maxlen v prec width fl st =
     map_option (replay out maxlen st) (etoa collect 0 v prec width fl (0, []))"
proof (rule same_replay [of "\<lambda>out maxlen st. etoa out maxlen v prec width fl st" "\<lambda>st. etoa collect 0 v prec width fl st"])
  fix out :: "'a out_fct" and maxlen st y assume "etoa out maxlen v prec width fl st = Some y"
  from etoa_puts [where g = "ftoa_call collect 0" and out' = collect and maxlen' = 0, OF ftoa_call_puts this [unfolded etoa_def]]
  show "\<exists>cs. etoa collect 0 v prec width fl (0, []) = Some (puts collect 0 cs (0, []))" unfolding etoa_def by blast
next
  fix y assume "etoa collect 0 v prec width fl (0, []) = Some y"
  from etoa_puts [where g = "ftoa_call out maxlen" and out' = out and maxlen' = maxlen, OF ftoa_call_puts this [unfolded etoa_def]]
  show "\<exists>cs. y = puts collect 0 cs (0, []) \<and> (\<forall>st. etoa out maxlen v prec width fl st = Some (puts out maxlen cs st))"
    unfolding etoa_def by (simp del: puts_collect)
qed

end
