(* ===== verification/Printf_Props.thy ===== *)
theory Printf_Props
  imports Printf Printf_Chars
begin

text \<open>
  The properties of the formatted output: the characters a format stands for, that every output
  function receives exactly these at consecutive indices, the numbers as the C standard prints them,
  and which formats return.
\<close>

section \<open>The characters of a format\<close>

lemma out_string_puts:
  "out_string out maxlen fl prec p st =
     puts out maxlen (if FLAGS_PRECISION \<in> fl then take (unat prec) p else p) st"
proof (induction p arbitrary: prec st)
  case (Cons c p)
  show ?case
  proof (cases "prec = 0")
    case False
    then have "unat prec = Suc (unat (prec - 1))" by (simp add: unat_minus_one unat_gt_0)
    then show ?thesis using Cons.IH False by simp
  qed (use Cons.IH in simp)
qed simp

lemma conv_integer_replay:
  "conv_integer out maxlen c prec width fl va st =
     and_then (conv_integer collect 0 c prec width fl va (0, [])) (\<lambda>(va, r). Done (va, replay out maxlen st r))"
  by (simp add: conv_integer_def conv_signed_def conv_unsigned_def ntoa_puts Let_def split_def replay_def
      and_then_assoc)

lemma conv_char_replay:
  "conv_char out maxlen width fl va st =
     and_then (conv_char collect 0 width fl va (0, [])) (\<lambda>(va, r). Done (va, replay out maxlen st r))"
  by (cases "FLAGS_LEFT \<in> fl")
    (simp_all add: conv_char_def spaces_puts Let_def split_def replay_def and_then_assoc collect_def)

lemma conv_string_replay:
  "conv_string out maxlen prec width fl va st =
     and_then (conv_string collect 0 prec width fl va (0, [])) (\<lambda>(va, r). Done (va, replay out maxlen st r))"
  by (cases "FLAGS_LEFT \<in> fl")
    (simp_all add: conv_string_def spaces_puts out_string_puts Let_def split_def replay_def and_then_assoc)

lemma conv_pointer_replay:
  "conv_pointer out maxlen prec fl va st =
     and_then (conv_pointer collect 0 prec fl va (0, [])) (\<lambda>(va, r). Done (va, replay out maxlen st r))"
  by (simp add: conv_pointer_def ntoa_puts Let_def split_def replay_def and_then_assoc)

lemma of_option_map: "of_option (map_option f x) = and_then (of_option x) (\<lambda>y. Done (f y))"
  by (cases x) simp_all

lemma convert_replay:
  "convert out maxlen c prec width fl va st =
     and_then (convert collect 0 c prec width fl va (0, [])) (\<lambda>(va, r). Done (va, replay out maxlen st r))"
proof -
  note r = conv_integer_replay [of out maxlen] conv_char_replay [of out maxlen]
    conv_string_replay [of out maxlen] conv_pointer_replay [of out maxlen]
  show ?thesis
    unfolding convert_def r ftoa_replay [of out maxlen] etoa_replay [of out maxlen] of_option_map
    by (simp add: Let_def split_def replay_def and_then_assoc collect_def)
qed

lemma directive_replay:
  "directive out maxlen fmt va st =
     and_then (directive collect 0 fmt va (0, [])) (\<lambda>(fmt, va, r). Done (fmt, va, replay out maxlen st r))"
  unfolding directive_def convert_replay [of out maxlen]
  by (simp add: split_def and_then_assoc)

text \<open>The characters a format stands for, with these arguments.\<close>

definition format_chars :: "string \<Rightarrow> vararg list \<Rightarrow> string outcome" where
  "format_chars fmt va = and_then (vsnprintf_loop collect 0 fmt va (0, [])) (\<lambda>(_, cs). Done cs)"

lemma replay_collect: "replay out maxlen st (replay collect 0 (i, b) r) = replay out maxlen (puts out maxlen b st) r"
  by (simp add: replay_def)

lemma loop_replay_step:
  assumes IH: "\<And>fmt' va st. length fmt' < length fmt \<Longrightarrow> vsnprintf_loop out maxlen fmt' va st =
      and_then (vsnprintf_loop collect 0 fmt' va (0, [])) (\<lambda>r. Done (replay out maxlen st r))"
    and C: "\<And>fmt' va i b. length fmt' < length fmt \<Longrightarrow> vsnprintf_loop collect 0 fmt' va (i, b) =
      and_then (vsnprintf_loop collect 0 fmt' va (0, [])) (\<lambda>r. Done (replay collect 0 (i, b) r))"
  shows "vsnprintf_loop out maxlen fmt va st =
     and_then (vsnprintf_loop collect 0 fmt va (0, [])) (\<lambda>r. Done (replay out maxlen st r))"
proof (cases fmt)
  case (Cons c fmt')
  then have l: "length fmt' < length fmt" by simp
  consider "c = NUL" | "c \<noteq> NUL" "c \<noteq> CHR ''%''" | "c = CHR ''%''" "c \<noteq> NUL" by (auto simp: NUL_def)
  then show ?thesis
  proof cases
    case 1
    then show ?thesis using Cons by (simp add: replay_def)
  next
    case 2
    then show ?thesis using Cons IH [OF l] C [OF l, of va 1 "[c]"]
      by (simp add: and_then_assoc collect_def replay_collect)
  next
    case 3
    show ?thesis
    proof (cases "directive collect 0 fmt' va (0, [])")
      case (Done r)
      obtain fmt1 va1 i b where r: "r = (fmt1, va1, i, b)" by (cases r) auto
      then have "length fmt1 < length fmt" using directive_length [of collect 0 fmt' va] Done l by fastforce
      then show ?thesis using 3 Cons Done r IH [of fmt1 va1] C [of fmt1 va1 i b]
        by (simp add: directive_replay [of out] and_then_assoc replay_collect) (simp add: replay_def)
    qed (use 3 Cons in \<open>simp_all add: directive_replay [of out]\<close>)
  qed
qed simp

lemma collect_loop_replay:
  "vsnprintf_loop collect 0 fmt va (i, b) =
     and_then (vsnprintf_loop collect 0 fmt va (0, [])) (\<lambda>r. Done (replay collect 0 (i, b) r))"
proof (induction "length fmt" arbitrary: fmt va i b rule: less_induct)
  case less
  show ?case
  proof (rule loop_replay_step)
    fix fmt' :: string and va :: "vararg list" and st :: "u64 \<times> string" assume "length fmt' < length fmt"
    from less [OF this, of va "fst st" "snd st"]
    show "vsnprintf_loop collect 0 fmt' va st =
      and_then (vsnprintf_loop collect 0 fmt' va (0, [])) (\<lambda>r. Done (replay collect 0 st r))" by simp
  qed (rule less)
qed

lemma vsnprintf_loop_replay:
  "vsnprintf_loop out maxlen fmt va st =
     and_then (vsnprintf_loop collect 0 fmt va (0, [])) (\<lambda>r. Done (replay out maxlen st r))"
proof (induction "length fmt" arbitrary: fmt va st rule: less_induct)
  case less
  show ?case by (rule loop_replay_step) (rule less collect_loop_replay, assumption?)+
qed

text \<open>
  Every function of the \<open>printf\<close> family prints the characters of the format, in order, through its
  output function, at consecutive indices from 0.
\<close>

lemma vsnprintf_loop_chars:
  "vsnprintf_loop out maxlen fmt va st =
     and_then (format_chars fmt va) (\<lambda>cs. Done (puts out maxlen cs st))"
  unfolding format_chars_def vsnprintf_loop_replay [of out]
  by (simp add: and_then_assoc split_def replay_def)

lemma vsnprintf_internal_chars:
  "vsnprintf_internal out b maxlen fmt va =
     and_then (format_chars fmt va) (\<lambda>cs.
       let idx = of_nat (length cs) :: u64
       in Done (ucast idx, out NUL (snd (puts out maxlen cs (0, b))) (if idx < maxlen then idx else maxlen - 1) maxlen))"
  by (simp add: vsnprintf_internal_def vsnprintf_loop_chars and_then_assoc Let_def split_def cong: if_cong)

lemma puts_out_char: "snd (puts out_char maxlen cs (i, b)) = b @ filter (\<lambda>c. c \<noteq> NUL) cs"
  by (induction cs arbitrary: i b) (simp_all add: out_char_def)

lemma puts_out_fct:
  "snd (puts (out_fct_wrap fct) maxlen cs (i, b)) = foldl (\<lambda>a c. fct c a) b (filter (\<lambda>c. c \<noteq> NUL) cs)"
  by (induction cs arbitrary: i b) (simp_all add: out_fct_wrap_def)

lemma count_narrow [simp]: "(ucast (of_nat n :: u64) :: u32) = of_nat n"
  by (rule word_unat_eq_iff [THEN iffD2]) (simp add: unsigned_ucast_eq unsigned_of_nat take_bit_take_bit min_def)

lemma c_printf_chars:
  "c_printf fmt va console = and_then (format_chars fmt va) (\<lambda>cs.
     Done (of_nat (length cs), console @ filter (\<lambda>c. c \<noteq> NUL) cs))"
  by (simp add: c_printf_def vsnprintf_internal_chars puts_out_char out_char_def Let_def)


lemma puts_out_buffer:
  assumes "k + length cs < 2 ^ 64"
  shows "snd (puts out_buffer n cs (of_nat k, b)) =
    (\<lambda>j. if k \<le> unat j \<and> unat j < min (k + length cs) (unat n) then cs ! (unat j - k) else b j)"
  using assms
proof (induction cs arbitrary: k b)
  case (Cons c cs)
  let ?b = "out_buffer c b (of_nat k) n"
  have k: "unat (of_nat k :: u64) = k" using Cons.prems by (simp add: unat_of_nat)
  have eq: "j = of_nat k \<longleftrightarrow> unat j = k" for j :: u64 using k by (auto simp: word_unat_eq_iff)
  have b: "?b j = (if unat j = k \<and> k < unat n then c else b j)" for j
    using k eq [of j] by (auto simp: out_buffer_def word_less_nat_alt)
  have "snd (puts out_buffer n (c # cs) (of_nat k, b)) = snd (puts out_buffer n cs (of_nat (Suc k), ?b))"
    by (simp add: algebra_simps)
  also have "\<dots> = (\<lambda>j. if Suc k \<le> unat j \<and> unat j < min (Suc k + length cs) (unat n) then cs ! (unat j - Suc k) else ?b j)"
    using Cons.prems by (intro Cons.IH) simp
  finally show ?case by (rule trans) (auto simp: b fun_eq_iff nth_Cons' Suc_diff_Suc)
qed (auto simp: fun_eq_iff)

text \<open>
  C23. \<open>snprintf\<close> writes the characters of the format cut to the space less one and a terminator,
  nothing outside the given size (and nothing at all for the size 0), and returns the length the
  whole text has.
\<close>

theorem snprintf_truncates:
  assumes "format_chars fmt va = Done cs" "length cs < 2 ^ 64"
  shows "c_snprintf (Some b) n fmt va = Done (of_nat (length cs), Some (\<lambda>j.
    if unat j < min (length cs) (unat n - 1) then cs ! unat j
    else if n \<noteq> 0 \<and> unat j = min (length cs) (unat n - 1) then NUL else b j))"
proof -
  let ?i = "of_nat (length cs) :: u64"
  have i: "unat ?i = length cs" using assms(2) by (simp add: unat_of_nat)
  have m: "unat (n - 1) = unat n - 1" if "n \<noteq> 0" using that by (simp add: unat_minus_one)
  have m0: "\<not> n - 1 < n" if "n = 0" using that by simp
  have p: "snd (puts out_buffer n cs (0, b)) =
      (\<lambda>j. if unat j < min (length cs) (unat n) then cs ! unat j else b j)"
    using puts_out_buffer [of 0 cs n b] assms(2) by (simp cong: if_cong)
  let ?B = "\<lambda>j. if unat j < min (length cs) (unat n) then cs ! unat j else b j"
  have "out_buffer NUL ?B (if ?i < n then ?i else n - 1) n = (\<lambda>j.
    if unat j < min (length cs) (unat n - 1) then cs ! unat j
    else if n \<noteq> 0 \<and> unat j = min (length cs) (unat n - 1) then NUL else b j)"
  proof (cases "n = 0")
    case False
    then have n: "0 < unat n" by (simp add: unat_gt_0)
    let ?k = "if ?i < n then ?i else n - 1"
    have k: "unat ?k = min (length cs) (unat n - 1)" "?k < n"
      using i m [OF False] n by (auto simp: word_less_nat_alt)
    have "j = ?k \<longleftrightarrow> unat j = min (length cs) (unat n - 1)" for j :: u64
      using k(1) by (simp add: word_unat_eq_iff)
    then have "out_buffer NUL ?B ?k n = (\<lambda>j. if unat j = min (length cs) (unat n - 1) then NUL else ?B j)"
      using k(2) by (simp add: out_buffer_def fun_upd_def cong: if_cong)
    then show ?thesis using n False by (simp add: fun_eq_iff) linarith
  qed (auto simp: out_buffer_def)
  then show ?thesis
    using assms(1) by (simp add: c_snprintf_def vsnprintf_or_null_def vsnprintf_internal_chars Let_def p)
qed

lemma format_hello: "format_chars (''hello'' @ [NUL]) [] = Done ''hello''"
proof -
  have "format_chars (''hello'' @ [NUL]) [] = Done ''hello'' \<longleftrightarrow> True" by code_simp
  then show ?thesis by simp
qed

theorem snprintf_truncates_witness:
  "c_snprintf (Some (\<lambda>_. CHR ''-'')) 4 (''hello'' @ [NUL]) [] = Done (5, Some (\<lambda>j.
     if unat j < 3 then ''hello'' ! unat j else if unat j = 3 then NUL else CHR ''-''))"
  using snprintf_truncates [OF format_hello, of "\<lambda>_. CHR ''-''" 4] by (simp add: min_def cong: if_cong)

text \<open>
  A width (or precision) that the number fills exactly costs an alternative-form number its last
  digits: the prefix loop takes them back out of the buffer.
\<close>

lemma printf_hash_drops_digits:
  "c_printf (''%#2x'' @ [NUL]) [ArgInt 0xab] [] = Done (2, ''0x'')"
  by code_simp

lemma printf_hash_keeps_digits:
  "c_printf (''%#x'' @ [NUL]) [ArgInt 0xab] [] = Done (4, ''0xab'')"
  by code_simp

end
