(* ===== verification/Startup_Props.thy ===== *)
theory Startup_Props
  imports Root_System Startup Printf_Props
begin

text \<open>
  From power-on to the run loop: what \<open>start_root\<close> prints and sets up, that the system's invariant
  holds when it first waits for a message, and which messages the server survives.
\<close>

section \<open>Constructors\<close>

lemma foldl_and_then: "foldl and_then m rs = and_then m (\<lambda>s. foldl and_then (Done s) rs)"
proof -
  have "foldl and_then Blocked rs = Blocked" "foldl and_then Stuck rs = Stuck" by (induction rs) auto
  then show ?thesis by (cases m) simp_all
qed

lemma run_array_from: "run_array arr f s = foldl and_then (Done s) (drop f arr)"
proof (induction arr f s rule: run_array.induct)
  case (1 arr f s)
  show ?case
  proof (cases "f < length arr")
    case True
    then have "drop f arr = arr ! f # drop (f + 1) arr" by (simp add: Cons_nth_drop_Suc)
    then show ?thesis using True 1 foldl_and_then [of "(arr ! f) s"]
      by (cases "(arr ! f) s") (simp_all add: run_array.simps [of arr f])
  qed (simp add: run_array.simps)
qed

text \<open>The constructors run in the order of the arrays, \<open>_init\<close> between them.\<close>

lemma exec_ctors_order: "exec_ctors preinit ini inits s = foldl and_then (Done s) (preinit @ ini # inits)"
  by (cases "foldl and_then (Done s) preinit")
    (simp_all add: exec_ctors_def run_array_from foldl_and_then [of Blocked] foldl_and_then [of Stuck] foldl_and_then [of "ini _"])

section \<open>What the console shows\<close>

lemma loop_plain:
  assumes "CHR ''%'' \<notin> set fmt" "NUL \<notin> set fmt"
  shows "vsnprintf_loop collect 0 (fmt @ [NUL]) va (i, b) = Done (i + of_nat (length fmt), b @ fmt)"
  using assms by (induction fmt arbitrary: i b) (auto simp: collect_def)

definition plain :: "string \<Rightarrow> bool" where
  "plain fmt \<longleftrightarrow> CHR ''%'' \<notin> set fmt \<and> NUL \<notin> set fmt"

lemma print_plain: "plain fmt \<Longrightarrow> print fmt g = Done (g\<lparr>console := console g @ fmt\<rparr>)"
proof -
  assume p: "plain fmt"
  then have "filter (\<lambda>c. c \<noteq> NUL) fmt = fmt" by (auto simp: plain_def filter_id_conv)
  then show ?thesis using p by (simp add: plain_def print_def c_printf_chars format_chars_def loop_plain)
qed

lemma print_all_plain:
  "\<forall>fmt \<in> set fmts. plain fmt \<Longrightarrow> print_all fmts g = Done (g\<lparr>console := console g @ concat fmts\<rparr>)"
  by (induction fmts arbitrary: g) (simp_all add: print_plain)

text \<open>The text before the root server starts.\<close>

definition banner :: "bool \<Rightarrow> bool \<Rightarrow> string" where
  "banner a b = ''---- Sel4 kernel configuration: ----'' @ nl @
     ''CONFIG_FSGSBASE_INST : '' @ (if a then ''SET'' else ''NOT SET'') @ nl @
     ''CONFIG_SET_TLS_BASE_SELF : '' @ (if b then ''SET'' else ''NOT SET'') @ nl @
     ''------------------------------------'' @ nl @ ''Start Root server'' @ nl"

lemma start_root_prints:
  "start_root K L copy I fault_of ms g s =
     and_then (new_RootServer K s) (\<lambda>s. and_then (earlyInit K (main_thread I) s) (\<lambda>s.
     and_then (lateInit K s) (\<lambda>s. and_then (run K L copy (thread_main I) fault_of ms s) (\<lambda>(rs, s).
     Done (\<lparr>tls_base = static_tls I, ipc_buffer = bootInfo_ipcBuffer I, print_error = 1,
        console = console g @ banner (fsgsbase_inst I) (set_tls_base_self I)\<rparr>, rs, s)))))"
proof -
  have p: "plain (''---- Sel4 kernel configuration: ----'' @ nl)" "plain ''CONFIG_FSGSBASE_INST : ''" "plain nl"
    "plain ''CONFIG_SET_TLS_BASE_SELF : ''" "plain (''------------------------------------'' @ nl)"
    "plain ''SET''" "plain ''NOT SET''" "plain (''Start Root server'' @ nl)"
    unfolding plain_def by code_simp+
  have c: "printSel4Config a b g = Done (g\<lparr>console := console g @ concat
       [''---- Sel4 kernel configuration: ----'' @ nl, ''CONFIG_FSGSBASE_INST : '',
        if a then ''SET'' else ''NOT SET'', nl, ''CONFIG_SET_TLS_BASE_SELF : '',
        if b then ''SET'' else ''NOT SET'', nl, ''------------------------------------'' @ nl]\<rparr>)" for a b
    unfolding printSel4Config_def by (rule print_all_plain) (use p in simp)
  show ?thesis
    unfolding start_root_def c and_then.simps Let_def print_plain [OF p(8)]
    by (cases g) (simp add: init_tls_def banner_def)
qed

section \<open>The invariant at the run loop\<close>

lemma sys_inv_same_badges:
  assumes "sys_inv s C" "badge u = badge (objs s t)"
  shows "sys_inv (s\<lparr>calls := cs, objs := (objs s)(t := u)\<rparr>) C"
proof -
  have "badge (((objs s)(t := u)) x) = badge (objs s x)" for x using assms(2) by simp
  then show ?thesis
    using assms(1) by (simp add: sys_inv_def table_inv_def heap_holds_def table_list_def del: block_addr.simps)
qed

text \<open>What \<open>createThread\<close>, \<open>setName\<close> and \<open>start\<close> do to the system, for one thread made by \<open>run\<close>.\<close>

lemma start_created_effect:
  assumes inv: "sys_inv s C" and sizes: "countable_size (sizeof_Thread L)" "countable_size (sizeof_ControlBlock L)"
    and wrap: "tcbBadgeCounter s \<noteq> - 1" and c: "start_created K L copy tm entry nm s = Done s'"
  shows "sys_inv s' C" "tcbBadgeCounter s' = tcbBadgeCounter s + 1"
proof -
  obtain r s1 where 1: "root_createThread K L copy entry s = Done (r, s1)"
    using c by (auto simp: start_created_def and_then_Done_iff)
  note i = spawn_inv [OF inv sizes wrap 1]
  from inv have "table_inv s" by (simp add: sys_inv_def)
  note b = table_inv_createThread [OF this sizes wrap 1]
  have "sys_inv s' C \<and> tcbBadgeCounter s' = tcbBadgeCounter s1"
  proof (cases "to_bool r")
    case True
    let ?t = "exp_value r" and ?s2 = "setName nm (objs s1 (exp_value r)) s1"
    have n: "?s2 = s1\<lparr>calls := calls ?s2, objs := (objs s1)(?t := objs s1 ?t)\<rparr>" by (simp add: setName_def)
    have i2: "sys_inv ?s2 C" by (subst n, rule sys_inv_same_badges [OF i]) simp
    obtain cs where o: "on_thread (do_thread_op K (Start tm ?t)) ?t ?s2 = ?s2\<lparr>calls := calls ?s2 @ cs,
        objs := (objs ?s2)(?t := after_calls K (calls ?s2) cs (objs ?s2 ?t))\<rparr>"
      by (rule on_thread_effect)
    have "do_thread_op K (Start tm ?t) = (start_thread K tm ?t :: thread \<Rightarrow> root_state \<Rightarrow> _)" by (simp add: fun_eq_iff)
    then have "s' = ?s2\<lparr>calls := calls ?s2 @ cs,
        objs := (objs ?s2)(?t := after_calls K (calls ?s2) cs (objs ?s2 ?t))\<rparr>"
      using c 1 True o by (simp add: start_created_def Let_def)
    then show ?thesis using sys_inv_same_badges [OF i2] by (simp add: setName_def)
  qed (use c 1 i in \<open>simp add: start_created_def\<close>)
  then show "sys_inv s' C" "tcbBadgeCounter s' = tcbBadgeCounter s + 1" using b by simp_all
qed

lemma run_start_inv:
  assumes inv: "sys_inv s {}" and sizes: "countable_size (sizeof_Thread L)" "countable_size (sizeof_ControlBlock L)"
    and first: "tcbBadgeCounter s = 1" and r: "run_start K L copy tm s = Done s'"
  shows "sys_inv s' {} \<and> tcbBadgeCounter s' = 3"
proof -
  obtain s1 where 1: "start_created K L copy tm 1 ''Com1'' s = Done s1"
    and 2: "start_created K L copy tm 2 ''Test thread'' s1 = Done s'"
    using r by (auto simp: run_start_def and_then_Done_iff)
  note a = start_created_effect [OF inv sizes _ 1]
  show ?thesis using a start_created_effect [OF _ sizes _ 2, of "{}"] first by simp
qed

text \<open>Power-on: the heap's static data, no page mapped, an empty table, the first badge.\<close>

definition power_on :: "root_state \<Rightarrow> bool" where
  "power_on s \<longleftrightarrow> heap s = kheap_static \<and> mappedPages s = 0 \<and> (\<exists>junk. threads s = new_vector junk) \<and>
     tcbBadgeCounter s = 1"

lemma lateInit_badge: "lateInit K s = Done s' \<Longrightarrow> tcbBadgeCounter s' = tcbBadgeCounter s"
proof -
  assume a: "lateInit K s = Done s'"
  obtain e s1 where 1: "createEndpoint K s = (e, s1)" by fastforce
  note f1 = root_tail(2) [OF root_more(4) [OF allocObject_frame(2) [OF 1 [unfolded createEndpoint_def]]]]
  obtain c s2 where 2: "getFreeSlot K (s1\<lparr>apiEndpoint := exp_value e\<rparr>) = (c, s2)" by fastforce
  obtain i s3 where 3: "getFreeSlot K (s2\<lparr>calls := calls s2 @ [IOPortControl_Issue 0x3F8 (0x3F8 + 7) (exp_value c)]\<rparr>) = (i, s3)"
    by fastforce
  have "tcbBadgeCounter s3 = tcbBadgeCounter s"
    using getFreeSlot_frame [OF 2] getFreeSlot_frame [OF 3] f1 by auto
  then show ?thesis using a 1 2 3
    by (auto simp: lateInit_def invoke_def Let_def and_then_Done_iff split: if_splits)
qed

lemma start_root_inv:
  assumes "power_on b0" "start_root K L copy I fault_of [] g b0 = Done (g', rs, s)"
    and sizes: "countable_size (sizeof_Thread L)" "countable_size (sizeof_ControlBlock L)"
  shows "sys_inv s {}" "tcbBadgeCounter s = 3"
proof -
  obtain junk where p: "heap b0 = kheap_static" "mappedPages b0 = 0" "threads b0 = new_vector junk" "tcbBadgeCounter b0 = 1"
    using assms(1) by (auto simp: power_on_def)
  obtain b1 b2 b3 where b: "new_RootServer K b0 = Done b1" "earlyInit K (main_thread I) b1 = Done b2"
    "lateInit K b2 = Done b3" "run_start K L copy (thread_main I) b3 = Done s"
    using assms(2) by (auto simp: start_root_prints run_def and_then_Done_iff)
  have "tcbBadgeCounter b3 = 1"
    using lateInit_badge [OF b(3)] root_boot_effect [OF b(1,2) p(1,2)] p(4) by simp
  from run_start_inv [OF boot_inv [OF b(1-3) p(1-3)] sizes this b(4)]
  show "sys_inv s {}" "tcbBadgeCounter s = 3" by auto
qed

section \<open>A concrete start\<close>

lemmas start_defs = start_created_def setName_def on_thread_def start_thread_def

lemma demo_starts_first:
  assumes "kmalloc 20 (heap s) = Done (p, h1)" "kmalloc 20 h1 = Done (q, h2)" "kmalloc 160 h2 = Done (v, h3)"
    and "p \<noteq> 0" "q \<noteq> 0" "v \<noteq> 0" "threads s = new_vector junk" "emptySlotPos s = 117"
  shows "\<exists>s'. start_created demo_kernel layout0 copy tm 1 nm s = Done s' \<and> heap s' = h3 \<and> emptySlotPos s' = 122 \<and>
    threads s' = \<lparr>v_size = 1, v_reservation = 10, v_data = v, v_elems = junk(0 := p)\<rparr>"
  using assms by (simp add: start_defs spawn_defs)

lemma demo_starts_second:
  assumes "kmalloc 20 (heap s) = Done (p, h1)" "kmalloc 20 h1 = Done (q, h2)"
    and "p \<noteq> 0" "q \<noteq> 0" "v \<noteq> 0" "threads s = \<lparr>v_size = 1, v_reservation = 10, v_data = v, v_elems = e\<rparr>"
    "emptySlotPos s = 122"
  shows "\<exists>s'. start_created demo_kernel layout0 copy tm 2 nm s = Done s' \<and>
    threads s' = \<lparr>v_size = 2, v_reservation = 10, v_data = v, v_elems = e(1 := p)\<rparr>"
proof -
  have "\<not> (10 :: u64) \<le> 1" by (simp add: word_le_nat_alt)
  then show ?thesis using assms by (simp add: start_defs spawn_defs)
qed

definition demo_image :: image where
  "demo_image = \<lparr>fsgsbase_inst = True, set_tls_base_self = False, static_tls = 0x500000, main_thread = 4242,
     thread_main = 4343, bootInfo_ipcBuffer = 0x600000\<rparr>"

definition globals0 :: globals where
  "globals0 = \<lparr>tls_base = 0, ipc_buffer = 0, print_error = 0, console = []\<rparr>"

text \<open>The demonstration kernel grants everything; both threads are in the table at the end.\<close>

lemma demo_start_root:
  obtains g s where "start_root demo_kernel layout0 (\<lambda>d r y z h. h) demo_image demo_fault [] globals0 root0 = Done (g, [], s)"
    "length (table_list s) = 2"
proof -
  obtain s1 s2 s3 where r: "new_RootServer demo_kernel root0 = Done s1" "earlyInit demo_kernel 4242 s1 = Done s2"
    "lateInit demo_kernel s2 = Done s3" and h: "heap_ready (heap s3) [9..<1280] [(0, 9, 256)]"
    "pool (heap s3) = ReservedVaddr" and t: "emptySlotPos s3 = 117" "threads s3 = new_vector (\<lambda>_. 0)"
    "tcbBadgeCounter s3 = 1" by (rule root0_up)
  have c: "chunks_for 20 = 2" "chunks_for 160 = 6" by (simp_all add: chunks_for_def info_size_def)
  have z: "countable_size 20" "countable_size 160" by (rule countable_small, simp)+
  obtain h1 where h1: "kmalloc 20 (heap s3) = Done (data_addr (heap s3) (CPool 9), h1)"
      "heap_ready h1 [11..<1280] [(9, 2, 20), (0, 9, 256)]" "pool h1 = pool (heap s3)"
    by (rule kmalloc_front [OF h(1) z(1) c(1), where u = 11]) simp_all
  obtain h2 where h2: "kmalloc 20 h1 = Done (data_addr h1 (CPool 11), h2)"
      "heap_ready h2 [13..<1280] [(11, 2, 20), (9, 2, 20), (0, 9, 256)]" "pool h2 = pool h1"
    by (rule kmalloc_front [OF h1(2) z(1) c(1), where u = 13]) simp_all
  obtain h3 where h3: "kmalloc 160 h2 = Done (data_addr h2 (CPool 13), h3)"
      "heap_ready h3 [19..<1280] [(13, 6, 160), (11, 2, 20), (9, 2, 20), (0, 9, 256)]" "pool h3 = pool h2"
    by (rule kmalloc_front [OF h2(2) z(2) c(2), where u = 19]) simp_all
  obtain h4 where h4: "kmalloc 20 h3 = Done (data_addr h3 (CPool 19), h4)"
      "heap_ready h4 [21..<1280] [(19, 2, 20), (13, 6, 160), (11, 2, 20), (9, 2, 20), (0, 9, 256)]" "pool h4 = pool h3"
    by (rule kmalloc_front [OF h3(2) z(1) c(1), where u = 21]) simp_all
  obtain h5 where h5: "kmalloc 20 h4 = Done (data_addr h4 (CPool 21), h5)"
    by (rule kmalloc_front [OF h4(2) z(1) c(1), where u = 23]) simp_all
  have nz: "data_addr (heap s3) (CPool 9) \<noteq> 0" "data_addr h1 (CPool 11) \<noteq> 0" "data_addr h2 (CPool 13) \<noteq> 0"
    "data_addr h3 (CPool 19) \<noteq> 0" "data_addr h4 (CPool 21) \<noteq> 0"
    by (simp_all add: h(2) h1(3) h2(3) h3(3) h4(3) ReservedVaddr_def info_size_def chunk_size_def)
  obtain s4 where s4: "start_created demo_kernel layout0 (\<lambda>d r y z h. h) 4343 1 ''Com1'' s3 = Done s4" "heap s4 = h3"
      "emptySlotPos s4 = 122" "threads s4 = \<lparr>v_size = 1, v_reservation = 10, v_data = data_addr h2 (CPool 13),
         v_elems = (\<lambda>_. 0)(0 := data_addr (heap s3) (CPool 9))\<rparr>"
    using demo_starts_first [OF h1(1) h2(1) h3(1) nz(1-3) t(2,1)] by blast
  obtain s5 where s5: "start_created demo_kernel layout0 (\<lambda>d r y z h. h) 4343 2 ''Test thread'' s4 = Done s5"
    "unat (v_size (threads s5)) = 2"
    using demo_starts_second [OF _ h5 nz(4,5,3) s4(4,3), of "\<lambda>d r y z h. h" 4343 "''Test thread''"] h4(1) s4(2) by auto
  have "start_root demo_kernel layout0 (\<lambda>d r y z h. h) demo_image demo_fault [] globals0 root0 =
      Done (\<lparr>tls_base = 0x500000, ipc_buffer = 0x600000, print_error = 1, console = [] @ banner True False\<rparr>, [], s5)"
    by (simp add: start_root_prints run_def run_start_def demo_image_def globals0_def r s4(1) s5(1))
  moreover have "length (table_list s5) = 2" using s5(2) by (simp add: table_list_def vector_list_def)
  ultimately show ?thesis using that by blast
qed

section \<open>Which messages the server survives\<close>

text \<open>A message that frees memory; what that does depends on the pointer, which \<open>kfree\<close> does not check.\<close>

definition asks_free :: "(u64 \<Rightarrow> fault) \<Rightarrow> message \<Rightarrow> bool" where
  "asks_free fault_of = (\<lambda>(sender, info, mr).
     fault_of (msg_label info) = NullFault \<and> mr 0 = ID_KFree \<and> 2 \<le> msg_length info)"

text \<open>
  The messages that are served: the sender is in the table, a call has at least one register, and a
  request for memory asks for a size that can be counted.
\<close>

definition survivable :: "(u64 \<Rightarrow> fault) \<Rightarrow> root_state \<Rightarrow> message \<Rightarrow> bool" where
  "survivable fault_of s = (\<lambda>(sender, info, mr).
     table_get sender s \<noteq> 0 \<and>
     (fault_of (msg_label info) = NullFault \<longrightarrow> 0 < msg_length info \<and>
        (mr 0 = ID_KMalloc \<and> 2 \<le> msg_length info \<longrightarrow> countable_size (mr 1))))"

lemma table_get_cong:
  "table_list s' = table_list s \<Longrightarrow> (\<And>t. badge (objs s' t) = badge (objs s t)) \<Longrightarrow> table_get b s' = table_get b s"
  unfolding table_get_def table_list_def by simp

lemma thread_request_table: "table_get b (thread_request K op arg1 arg2 s) = table_get b s"
proof -
  obtain cs where "thread_request K op arg1 arg2 s = s\<lparr>calls := calls s @ cs,
      objs := (objs s)(table_get arg1 s := after_calls K (calls s) cs (objs s (table_get arg1 s)))\<rparr>"
    using thread_request_effect [of K op arg1 arg2 s] by blast
  then show ?thesis by (intro table_get_cong) (simp_all add: table_list_def)
qed

lemma kmalloc_uncountable:
  assumes "sys_inv s C" "\<not> countable_size z"
  shows "kmalloc z (heap s) = Stuck"
proof -
  obtain fs bs where r: "heap_ready (heap s) fs bs"
    using assms(1) by (auto simp: sys_inv_def heap_holds_def locked_inv_def)
  have "2 ^ 64 - 32 < unat (z + info_size)" using assms(2) by (simp add: countable_size_def)
  then have "kmalloc_no_lock z (with_lock (held (klock (heap s))) (heap s)) = None"
    using r by (intro kmalloc_no_lock_endless [of _ fs bs] chunk_count_None) (simp_all add: heap_ready_def)
  then show ?thesis using heap_ready_lock_held [OF r] by (simp add: kmalloc_def)
qed

text \<open>One turn of the loop.\<close>

lemma root_step_survives:
  assumes inv: "sys_inv s C" and m: "\<not> asks_free fault_of (sender, info, mr)"
  shows "if survivable fault_of s (sender, info, mr)
    then \<exists>r s' C'. root_step K fault_of sender info mr s = Done (r, s') \<and> sys_inv s' C' \<and>
      (\<forall>b. table_get b s' = table_get b s)
    else root_step K fault_of sender info mr s = Stuck"
proof (cases "survivable fault_of s (sender, info, mr) \<and> fault_of (msg_label info) = NullFault")
  case True
  then have t: "table_get sender s \<noteq> 0" "0 < msg_length info" and n: "fault_of (msg_label info) = NullFault"
    by (simp_all add: survivable_def)
  then have step: "root_step K fault_of sender info mr s = processSyscall K info mr s" by (simp add: root_step_def)
  show ?thesis
  proof (cases "mr 0 = ID_KMalloc \<and> 2 \<le> msg_length info")
    case call: True
    then have z: "countable_size (mr 1)" using True by (simp add: survivable_def)
    then obtain v s' where "served K (KMallocRequest (mr 1)) s = Done (v, s')"
      "sys_inv s' (client_holds (KMallocRequest (mr 1)) v C)"
      using served_inv [OF inv, of "KMallocRequest (mr 1)" K] by auto
    moreover from this obtain p h where "kmalloc (mr 1) (heap s) = Done (p, h)" "s' = s\<lparr>heap := h\<rparr>"
      by (auto simp: and_then_Done_iff)
    ultimately show ?thesis
      using True t step call table_get_cong [of s' s]
      by (auto simp: processSyscall_def decode_kmalloc_def table_list_def Let_def)
  next
    case other: False
    then have "\<exists>r s'. processSyscall K info mr s = Done (r, s') \<and>
        (s' = s \<or> s' = thread_request K (mr 1) (mr 2) (mr 3) s)"
      using t m n by (auto simp: processSyscall_def asks_free_def decode_kmalloc_def decode_kfree_def
          decode_thread_def decode_mmap_def Let_def)
    then show ?thesis using True step inv sys_inv_thread_request [OF inv] thread_request_table by metis
  qed
next
  case False
  then consider (wrong) "\<not> survivable fault_of s (sender, info, mr)"
    | (fault) "survivable fault_of s (sender, info, mr)" "fault_of (msg_label info) \<noteq> NullFault" by blast
  then show ?thesis
  proof cases
    case wrong
    then show ?thesis using kmalloc_uncountable [OF inv]
      by (auto simp: survivable_def root_step_def processSyscall_def decode_kmalloc_def Let_def)
  next
    case fault
    then have "root_step K fault_of sender info mr s = Done (None, s)" by (simp add: root_step_def survivable_def)
    then show ?thesis using fault(1) inv by auto
  qed
qed

lemma survivable_cong: "(\<And>b. table_get b s' = table_get b s) \<Longrightarrow> survivable fault_of s' = survivable fault_of s"
  by (simp add: survivable_def fun_eq_iff)

lemma run_loop_survives:
  assumes "sys_inv s C" "\<forall>m \<in> set ms. \<not> asks_free fault_of m"
  shows "if \<forall>m \<in> set ms. survivable fault_of s m
    then \<exists>rs s'. run_loop K fault_of ms s = Done (rs, s') \<and> length rs = length ms
    else run_loop K fault_of ms s = Stuck"
  using assms
proof (induction ms arbitrary: s C)
  case (Cons m ms)
  obtain sender info mr where m: "m = (sender, info, mr)" by (rule prod_cases3)
  have "\<not> asks_free fault_of (sender, info, mr)" using Cons.prems(2) m by simp
  note step = root_step_survives [OF Cons.prems(1) this, of K]
  show ?case
  proof (cases "survivable fault_of s m")
    case True
    with step m obtain r s' C' where s': "root_step K fault_of sender info mr s = Done (r, s')" "sys_inv s' C'"
      "\<And>b. table_get b s' = table_get b s" by auto
    show ?thesis
      using Cons.IH [OF s'(2)] Cons.prems(2) True m s'(1) survivable_cong [OF s'(3)]
      by (auto split: if_splits)
  qed (use step m in auto)
qed simp

section \<open>Properties\<close>


lemma root0_power_on: "power_on root0"
  by (auto simp: power_on_def root0_def)



lemma first_thread:
  assumes "sys_inv s C" "0 < length (table_list s)"
  obtains b where "table_get b s \<noteq> 0"
proof -
  let ?t = "hd (table_list s)"
  have t: "?t \<in> set (table_list s)" using assms(2) by (intro hd_in_set) auto
  moreover have "distinct (map (\<lambda>t. badge (objs s t)) (table_list s))" "?t \<noteq> 0"
    using assms(1) t by (auto simp: sys_inv_def table_inv_def)
  ultimately show ?thesis using that table_get_unique [of s ?t] by metis
qed


text \<open>
  C8. Which messages the root server survives: when \<open>start_root\<close> reaches its loop, it gets through a
  list of messages that free nothing exactly when every sender is in the table, every call carries a
  register, and every size asked for can be counted; otherwise it faults or counts for ever, and
  nobody is served any more. It never blocks on its own mutex.
\<close>

theorem server_survives_iff:
  assumes "power_on b0" "start_root K L copy I fault_of [] g b0 = Done (g', rs, s0)"
    and "countable_size (sizeof_Thread L)" "countable_size (sizeof_ControlBlock L)"
    and "\<forall>m \<in> set ms. \<not> asks_free fault_of m"
  shows "if \<forall>m \<in> set ms. survivable fault_of s0 m
    then \<exists>rs s. start_root K L copy I fault_of ms g b0 = Done (g', rs, s) \<and> length rs = length ms
    else start_root K L copy I fault_of ms g b0 = Stuck"
proof -
  obtain b1 b2 b3 where b: "new_RootServer K b0 = Done b1" "earlyInit K (main_thread I) b1 = Done b2"
    "lateInit K b2 = Done b3" "run_start K L copy (thread_main I) b3 = Done s0"
    using assms(2) by (auto simp: start_root_prints run_def and_then_Done_iff)
  have "start_root K L copy I fault_of ms g b0 =
      and_then (run_loop K fault_of ms s0) (\<lambda>(rs, s). Done (g', rs, s))"
    using assms(2) b by (auto simp: start_root_prints run_def)
  then show ?thesis
    using run_loop_survives [OF start_root_inv(1) [OF assms(1-4)] assms(5), of K] by (auto split: if_splits)
qed

theorem server_survives_iff_witness:
  "\<exists>g s. start_root demo_kernel layout0 (\<lambda>d r y z h. h) demo_image demo_fault [] globals0 root0 = Done (g, [], s) \<and>
   start_root demo_kernel layout0 (\<lambda>d r y z h. h) demo_image demo_fault
     [(77, \<lparr>msg_label = 0, msg_length = 1\<rparr>, \<lambda>_. 0)] globals0 root0 = Stuck"
proof -
  let ?ms = "[(77 :: u64, \<lparr>msg_label = 0, msg_length = 1\<rparr>, \<lambda>_. 0 :: u64)]"
  obtain g s0 where b: "start_root demo_kernel layout0 (\<lambda>d r y z h. h) demo_image demo_fault [] globals0 root0 = Done (g, [], s0)"
    by (rule demo_start_root)
  note i = start_root_inv [OF root0_power_on b root_pool16_first(1,2)]
  have t: "table_get 77 s0 = 0"
    using table_get_badge [of 77 s0] i by (fastforce simp: sys_inv_def table_inv_def)
  have "\<forall>m \<in> set ?ms. \<not> asks_free demo_fault m" by (simp add: asks_free_def)
  from server_survives_iff [OF root0_power_on b root_pool16_first(1,2) this]
  show ?thesis using b t by (auto simp: survivable_def)
qed

end
