(* ===== verification/Shell_Props.thy ===== *)
theory Shell_Props
  imports Shell
begin

text \<open>
  The properties of the shell: the line buffer against a list of characters, what the enter key
  runs, which system call a command line makes, and the limit of the history.
\<close>

section \<open>Lemmas\<close>

lemma strlen_take: "strlen (t @ NUL # u) = strlen t"
  by (induction t) auto

lemma upto_NUL_append: "NUL \<notin> set t \<Longrightarrow> upto_NUL (t @ NUL # u) = t"
  by (induction t) (auto simp: upto_NUL_def)

text \<open>A string made on the heap, when there is room.\<close>

lemma with_substr_ok:
  assumes "string_ok s" "unat i \<le> length (s_text s)"
    and "kmalloc (of_nat (length (s_text s) - unat i) + 1) (w_heap w) = Done (p, h)" "p \<noteq> 0"
  shows "with_substr i s body w =
    and_then (body \<lparr>s_ptr = p, s_text = drop (unat i) (s_text s),
        s_size = of_nat (length (s_text s) - unat i)\<rparr> (w\<lparr>w_heap := h\<rparr>)) (\<lambda>(r, w).
    and_then (kfree p (w_heap w)) (\<lambda>h. Done (r, w\<lparr>w_heap := h\<rparr>)))"
  using substr_ok [OF assms] by (simp add: with_substr_def with_heap_def delete_string_def)

lemma string_ok_suffix:
  assumes "string_ok s" "p \<noteq> 0" "i \<le> length (s_text s)"
  shows "string_ok \<lparr>s_ptr = p, s_text = drop i (s_text s), s_size = of_nat (length (s_text s) - i)\<rparr>"
  using assms by (auto simp: string_ok_def dest: in_set_dropD)

text \<open>The number the shell reads from a string.\<close>

lemma strtol_str_run:
  assumes "string_ok s" "s_text s = ws @ sg @ ds @ r"
    and "\<forall>c \<in> set ws. isspace (int_of_char c)" "sg \<in> sign_texts" "digits_of 10 ds" "stops 10 ds r"
    and "s_text s \<noteq> []"
  shows "strtol_str s = Done (c_mem NUL (s_text s), clamped (sign_of sg) (numeral_value 10 0 ds),
    Some (if ds = [] then 0 else int (length (ws @ sg @ ds))))"
proof -
  have "text_at (c_mem NUL (s_text s)) 0 (ws @ sg @ ds @ r)"
    using text_at_c_mem [of "s_text s"] assms(1,2) by (simp add: string_ok_def)
  from strtol_run [OF this _ assms(3-6)] assms show ?thesis
    by (simp add: strtol_str_def c_str_def string_ok_def)
qed

text \<open>A command with one number, when the number is there.\<close>

lemma with_number_run:
  assumes "string_ok cmd" "s_text cmd = pre @ ws @ sg @ ds @ r" "unat p = length pre" "length pre < 100"
    and "\<forall>c \<in> set ws. isspace (int_of_char c)" "sg \<in> sign_texts" "digits_of 10 ds" "stops 10 ds r"
    and "ds \<noteq> []" and "kmalloc (of_nat (length (ws @ sg @ ds @ r)) + 1) (w_heap w) = Done (q, h)" "q \<noteq> 0"
  defines "v \<equiv> clamped (sign_of sg) (numeral_value 10 0 ds)"
  shows "with_number p cmd act w =
    and_then (if v \<noteq> 0 then act v (w\<lparr>w_heap := h\<rparr>) else Done (-1, w\<lparr>w_heap := h\<rparr>)) (\<lambda>(r, w).
    and_then (kfree q (w_heap w)) (\<lambda>h. Done (r, w\<lparr>w_heap := h\<rparr>)))"
proof -
  define a where "a = \<lparr>s_ptr = q, s_text = drop (unat p) (s_text cmd),
      s_size = of_nat (length (s_text cmd) - unat p)\<rparr>"
  have len: "unat p \<le> length (s_text cmd)" "length (s_text cmd) - unat p = length (ws @ sg @ ds @ r)"
    and tl: "s_text a = ws @ sg @ ds @ r"
    using assms(2,3) by (simp_all add: a_def)
  have "unat (p + 1) = unat p + 1" using assms(3,4) by (simp add: unat_word_ariths)
  moreover have "unat (s_size cmd) = length (s_text cmd)" using string_ok_size [OF assms(1)] .
  ultimately have big: "\<not> s_size cmd < p + 1"
    using assms(2,3,9) by (cases ds) (auto simp: word_less_nat_alt)
  have "string_ok a" unfolding a_def using assms(1,11) len(1) by (rule string_ok_suffix)
  from strtol_str_run [OF this tl assms(5-8)] assms(9) tl obtain m e where
    st: "strtol_str a = Done (m, v, e)" by (simp add: v_def)
  have "with_number p cmd act w = with_substr p cmd (\<lambda>args w.
        and_then (strtol_str args) (\<lambda>(_, v, _). if v \<noteq> 0 then act v w else Done (-1, w))) w"
    using big by (simp add: with_number_def)
  also have "\<dots> = and_then (and_then (strtol_str a)
       (\<lambda>(_, v, _). if v \<noteq> 0 then act v (w\<lparr>w_heap := h\<rparr>) else Done (-1, w\<lparr>w_heap := h\<rparr>))) (\<lambda>(r, w).
    and_then (kfree q (w_heap w)) (\<lambda>h. Done (r, w\<lparr>w_heap := h\<rparr>)))"
    unfolding a_def
    by (rule with_substr_ok [OF assms(1) len(1) _ assms(11)]) (unfold len(2), rule assms(10))
  finally show ?thesis by (simp add: st)
qed

lemmas spell = eq_cstr_ok starts_with_ok NUL_def

section \<open>The line buffer\<close>

definition line_inv :: "shell \<Rightarrow> string \<Rightarrow> bool" where
  "line_inv sh l \<longleftrightarrow> length (buffer sh) = BufferSize \<and> bufferIndex sh = length l \<and>
     length l < BufferSize - 1 \<and> take (length l) (buffer sh) = l"

text \<open>What a typed character does to the line: backspace, the wrap at 255, or one more character.\<close>

definition edit :: "string \<Rightarrow> char \<Rightarrow> string" where
  "edit l c = (if c = CHR 0x7F then butlast l else if length l = BufferSize - 2 then [] else l @ [c])"

lemma onChar_edit:
  assumes "line_inv sh l" "c \<noteq> CHR 0x0D"
  shows "\<exists>sh'. onChar E c sh w = Done (sh', w) \<and> line_inv sh' (edit l c) \<and>
    history sh' = history sh \<and> lastRet sh' = lastRet sh"
proof (cases "c = CHR 0x7F")
  case True
  have "take (length l - 1) (buffer sh) = butlast l"
    using assms(1) butlast_take [of "length l" "buffer sh"] by (simp add: line_inv_def BufferSize_def)
  then show ?thesis using True assms by (auto simp: onChar_def line_inv_def edit_def BufferSize_def)
next
  case False
  let ?b = "(buffer sh)[length l := c, Suc (length l) := NUL]"
  have t: "take (length l) ?b = l" "take (Suc (length l)) ?b = l @ [c]"
    using assms(1) by (simp_all add: line_inv_def BufferSize_def take_Suc_conv_app_nth)
  show ?thesis
    using False assms t
    by (auto simp: onChar_def line_inv_def edit_def set_buffer_def BufferSize_def Let_def)
qed

lemma onChars_edit:
  assumes "line_inv sh l" "CHR 0x0D \<notin> set cs"
  shows "\<exists>sh'. onChars E cs sh w = Done (sh', w) \<and> line_inv sh' (foldl edit l cs) \<and>
    history sh' = history sh \<and> lastRet sh' = lastRet sh"
  using assms
proof (induction cs arbitrary: sh l)
  case Nil
  then show ?case by simp
next
  case (Cons c cs)
  from Cons.prems(2) have "c \<noteq> CHR 0x0D" by auto
  from onChar_edit [OF Cons.prems(1) this, of E w] obtain sh1 where
    sh1: "onChar E c sh w = Done (sh1, w)" "line_inv sh1 (edit l c)"
      "history sh1 = history sh" "lastRet sh1 = lastRet sh" by blast
  from Cons.IH [OF sh1(2)] Cons.prems(2) sh1 show ?case by auto
qed

text \<open>The enter key on a line.\<close>

lemma onChar_enter:
  assumes "line_inv sh l" "NUL \<notin> set l"
  defines "sh1 \<equiv> sh\<lparr>buffer := (buffer sh)[length l := NUL]\<rparr>"
  shows "l = [] \<Longrightarrow> onChar E (CHR 0x0D) sh w = Done (clear_buffer sh1, w)"
    "l \<noteq> [] \<Longrightarrow> kmalloc (of_nat (length l) + 1) (w_heap w) = Done (p, h) \<Longrightarrow> p \<noteq> 0 \<Longrightarrow>
      onChar E (CHR 0x0D) sh w =
        and_then (newCommand E \<lparr>s_ptr = p, s_text = l, s_size = of_nat (length l)\<rparr> sh1 (w\<lparr>w_heap := h\<rparr>)) (\<lambda>(r, sh, w).
        and_then (kfree p (w_heap w)) (\<lambda>h. Done (clear_buffer sh, w\<lparr>w_heap := h\<rparr>)))"
    "line_inv (clear_buffer sh2) []"
proof -
  let ?b = "(buffer sh)[length l := NUL]"
  have len: "length l < length (buffer sh)" and idx: "bufferIndex sh = length l"
    using assms(1) by (simp_all add: line_inv_def BufferSize_def)
  have "?b = take (length l) (buffer sh) @ NUL # drop (Suc (length l)) (buffer sh)"
    using len by (simp add: upd_conv_take_nth_drop)
  then have b: "?b = l @ NUL # drop (Suc (length l)) (buffer sh)"
    using assms(1) by (simp add: line_inv_def)
  have s: "strlen ?b = length l" "upto_NUL ?b = l"
    using assms(2) unfolding b
    by (simp_all add: strlen_take strlen_no_nul upto_NUL_append)
  show "l = [] \<Longrightarrow> onChar E (CHR 0x0D) sh w = Done (clear_buffer sh1, w)"
    "l \<noteq> [] \<Longrightarrow> kmalloc (of_nat (length l) + 1) (w_heap w) = Done (p, h) \<Longrightarrow> p \<noteq> 0 \<Longrightarrow>
      onChar E (CHR 0x0D) sh w =
        and_then (newCommand E \<lparr>s_ptr = p, s_text = l, s_size = of_nat (length l)\<rparr> sh1 (w\<lparr>w_heap := h\<rparr>)) (\<lambda>(r, sh, w).
        and_then (kfree p (w_heap w)) (\<lambda>h. Done (clear_buffer sh, w\<lparr>w_heap := h\<rparr>)))"
    "line_inv (clear_buffer sh2) []"
    using len idx s
    by (auto simp: onChar_def set_buffer_def clear_buffer_def line_inv_def BufferSize_def sh1_def
        with_heap_def string_members strdup_def delete_string_def)
qed

section \<open>Properties\<close>

text \<open>
  C32. The line buffer implements a list of characters: typing any characters without the enter key
  never fails an assertion, never leaves the 256 bytes and holds exactly the line that the
  backspaces and the wrap at 255 characters give.
\<close>

theorem shell_line_refines:
  assumes "line_inv sh l" "CHR 0x0D \<notin> set cs"
  shows "\<exists>sh'. onChars E cs sh w = Done (sh', w) \<and> line_inv sh' (foldl edit l cs) \<and>
    history sh' = history sh \<and> lastRet sh' = lastRet sh"
  by (rule onChars_edit) (rule assms)+

definition shell0 :: shell where
  "shell0 = \<lparr>buffer = replicate BufferSize NUL, bufferIndex = 0, lastRet = 0,
     history = new_vector (\<lambda>_. \<lparr>s_ptr = 0, s_text = [], s_size = 0\<rparr>)\<rparr>"

text \<open>An environment whose kernel answers every call with an unchanged message.\<close>

definition env0 :: "unit shell_env" where
  "env0 = \<lparr>env_copy = (\<lambda>d r y z h. h), env_poke = (\<lambda>a b x. Stuck),
     env_ipc = \<lparr>ipc_call = (\<lambda>ep info mr x. Done (info, mr, x)), ipc_send = (\<lambda>ep info mr x. Done x)\<rparr>,
     env_endpoint = 9\<rparr>"

definition world0 :: "kheap \<Rightarrow> unit world" where
  "world0 h = \<lparr>w_mr = (\<lambda>_. 0), w_heap = h, w_rest = ()\<rparr>"

theorem shell_line_refines_witness:
  "\<exists>sh'. onChars env0 (''vx'' @ [CHR 0x7F] @ ''m'') shell0 (world0 small_pool) =
      Done (sh', world0 small_pool) \<and> line_inv sh' ''vm''"
proof -
  have "line_inv shell0 []" by (simp add: line_inv_def shell0_def BufferSize_def)
  from shell_line_refines [OF this, of "''vx'' @ [CHR 0x7F] @ ''m''" env0 "world0 small_pool"]
  show ?thesis by (auto simp: edit_def BufferSize_def)
qed




lemma two_chunks: "0 < unat sz \<Longrightarrow> unat sz \<le> 32 \<Longrightarrow> chunk_count sz = Some 2"
proof -
  assume sz: "0 < unat sz" "unat sz \<le> 32"
  have "unat (sz + info_size) = unat sz + 32" using sz(2) by (intro unat_small) simp
  then have "chunks_for sz = 2" using sz by (simp add: chunks_for_def)
  moreover have "countable_size sz" by (rule countable_small) (use sz in simp)
  ultimately show ?thesis by (simp add: countable_size_def chunk_count_ends)
qed

lemma small_pool_alloc:
  assumes "0 < unat sz" "unat sz \<le> 32" "0 < unat sz'" "unat sz' \<le> 32"
  obtains h q h' where "kmalloc sz small_pool = Done (4128, h)" "kmalloc sz' h = Done (q, h')" "q \<noteq> 0"
proof -
  have fit: "first_fit 2 0 (hd [0, 1, 2, 3]) [0, 1, 2, 3] = Some 0" by simp
  from kmalloc_fit [OF small_pool_ready two_chunks fit] assms obtain h where
    h: "kmalloc sz small_pool = Done (4128, h)" "heap_ready h [2, 3] [(0, 2, sz)]" "pool h = 4096"
    by (auto simp: small_pool_def chunk_size_def info_size_def)
  have fit': "first_fit 2 0 (hd [2, 3]) [2, 3] = Some 2" by (simp add: numeral_eq_Suc)
  from kmalloc_fit [OF h(2) two_chunks fit'] assms obtain h' where
    "kmalloc sz' h = Done (data_addr h (CPool 2), h')" by blast
  moreover have "data_addr h (CPool 2) \<noteq> 0" by (simp add: h(3) chunk_size_def info_size_def)
  ultimately show ?thesis using h(1) that by blast
qed

text \<open>
  C34. The line \<open>kmalloc \<close> followed by blanks, a sign and a number other than zero makes exactly one
  \<open>KMalloc\<close> call, for the number clamped to a \<open>long\<close> and reinterpreted as a size, frees the
  argument string and returns 0 whatever the server answered.
\<close>

theorem shell_kmalloc_command:
  assumes "string_ok cmd" "s_text cmd = ''kmalloc '' @ ws @ sg @ ds @ r"
    and "\<forall>c \<in> set ws. isspace (int_of_char c)" "sg \<in> sign_texts" "digits_of 10 ds" "stops 10 ds r"
    and "ds \<noteq> []" "clamped (sign_of sg) (numeral_value 10 0 ds) \<noteq> 0"
    and "kmalloc (of_nat (length (ws @ sg @ ds @ r)) + 1) (w_heap w) = Done (q, h)" "q \<noteq> 0"
  shows "processNewCommand poke K ep cmd sh w =
    and_then (do_perform (perform_kmalloc K ep)
        (KMallocRequest (word_of_int (clamped (sign_of sg) (numeral_value 10 0 ds)))) (w\<lparr>w_heap := h\<rparr>)) (\<lambda>(_, w).
    and_then (kfree q (w_heap w)) (\<lambda>h. Done (0, w\<lparr>w_heap := h\<rparr>)))"
proof -
  have "processNewCommand poke K ep cmd sh w = with_number 8 cmd (cmd_kmalloc K ep) w"
    using assms(1,2) by (simp add: processNewCommand_def spell)
  also have "\<dots> = and_then (cmd_kmalloc K ep (clamped (sign_of sg) (numeral_value 10 0 ds)) (w\<lparr>w_heap := h\<rparr>)) (\<lambda>(r, w).
    and_then (kfree q (w_heap w)) (\<lambda>h. Done (r, w\<lparr>w_heap := h\<rparr>)))"
    using with_number_run [OF assms(1,2) _ _ assms(3-7,9,10), of 8] assms(8) by simp
  also have "\<dots> = and_then (do_perform (perform_kmalloc K ep)
        (KMallocRequest (word_of_int (clamped (sign_of sg) (numeral_value 10 0 ds)))) (w\<lparr>w_heap := h\<rparr>)) (\<lambda>(_, w).
    and_then (kfree q (w_heap w)) (\<lambda>h. Done (0, w\<lparr>w_heap := h\<rparr>)))"
    by (cases "do_perform (perform_kmalloc K ep)
        (KMallocRequest (word_of_int (clamped (sign_of sg) (numeral_value 10 0 ds)))) (w\<lparr>w_heap := h\<rparr>)")
      (simp_all add: cmd_kmalloc_def split: prod.splits)
  finally show ?thesis .
qed


definition line_of :: "string \<Rightarrow> str" where
  "line_of t = \<lparr>s_ptr = 8192, s_text = t, s_size = of_nat (length t)\<rparr>"

lemmas digit_simps = digits_of_def stops_def sign_texts_def sign_of_def digit_number_def Let_def
  isalpha_def toupper_def isspace_def int_of_char_def numeral_value_def clamped_def LONG_MIN_def
  LONG_MAX_def NUL_def

theorem shell_kmalloc_command_witness:
  "\<exists>h. processNewCommand (env_poke env0) (env_ipc env0) 9 (line_of ''kmalloc -40'') shell0 (world0 small_pool) =
    and_then (do_perform (perform_kmalloc (env_ipc env0) 9) (KMallocRequest (- 40)) (world0 h)) (\<lambda>(_, w).
    and_then (kfree 4128 (w_heap w)) (\<lambda>h. Done (0, w\<lparr>w_heap := h\<rparr>)))"
proof -
  obtain h where h: "kmalloc 4 small_pool = Done (4128, h)" by (rule small_pool_alloc [of 4 4]) simp_all
  have "processNewCommand (env_poke env0) (env_ipc env0) 9 (line_of ''kmalloc -40'') shell0 (world0 small_pool) =
    and_then (do_perform (perform_kmalloc (env_ipc env0) 9)
      (KMallocRequest (word_of_int (clamped (sign_of ''-'') (numeral_value 10 0 ''40''))))
      ((world0 small_pool)\<lparr>w_heap := h\<rparr>)) (\<lambda>(_, w).
    and_then (kfree 4128 (w_heap w)) (\<lambda>h. Done (0, w\<lparr>w_heap := h\<rparr>)))"
    by (rule shell_kmalloc_command [where ws = "[]" and r = "[]"])
      (simp_all add: line_of_def string_ok_def digit_simps world0_def h)
  then show ?thesis by (intro exI [of _ h]) (simp add: digit_simps world0_def)
qed

text \<open>
  \<open>thread del \<close> and a number: the argument is taken from the sixth character on, so the first
  digit is dropped, and the thread asked to be deleted is the one the remaining digits name.
\<close>

theorem shell_del_drops_digit:
  assumes "string_ok cmd" "s_text cmd = ''thread del '' @ d # ds @ r"
    and "digits_of 10 ds" "stops 10 ds r" "ds \<noteq> []"
    and "kmalloc (of_nat (5 + length (ds @ r)) + 1) (w_heap w) = Done (q1, h1)" "q1 \<noteq> 0"
    and "kmalloc (of_nat (length (ds @ r)) + 1) h1 = Done (q2, h2)" "q2 \<noteq> 0"
  shows "processNewCommand poke K ep cmd sh w =
    and_then (do_perform (perform_thread K ep)
        (ThreadRequest Op_StopAndDelete (word_of_int (clamped 1 (numeral_value 10 0 ds))) 0) (w\<lparr>w_heap := h2\<rparr>)) (\<lambda>(_, w).
    and_then (kfree q2 (w_heap w)) (\<lambda>h.
    and_then (kfree q1 h) (\<lambda>h. Done (0, w\<lparr>w_heap := h\<rparr>))))"
proof -
  define a where "a = \<lparr>s_ptr = q1, s_text = drop (unat (7 :: u64)) (s_text cmd),
      s_size = of_nat (length (s_text cmd) - unat (7 :: u64))\<rparr>"
  have a_text: "s_text a = ''del '' @ d # ds @ r" using assms(2) by (simp add: a_def)
  have a_ok: "string_ok a" unfolding a_def
    by (rule string_ok_suffix [OF assms(1,7)]) (simp add: assms(2))
  define b where "b = \<lparr>s_ptr = q2, s_text = drop (unat (5 :: u64)) (s_text a),
      s_size = of_nat (length (s_text a) - unat (5 :: u64))\<rparr>"
  have b_text: "s_text b = [] @ [] @ ds @ r" using a_text by (simp add: b_def)
  have b_ok: "string_ok b" unfolding b_def
    by (rule string_ok_suffix [OF a_ok assms(9)]) (simp add: a_text)
  from strtol_str_run [OF b_ok b_text _ _ assms(3,4)] assms(5) b_text obtain m e where
    st: "strtol_str b = Done (m, clamped 1 (numeral_value 10 0 ds), e)"
    by (auto simp: sign_texts_def sign_of_def NUL_def)
  have l1: "unat (7 :: u64) \<le> length (s_text cmd)"
    "length (s_text cmd) - unat (7 :: u64) = 5 + length (ds @ r)"
    and l2: "unat (5 :: u64) \<le> length (s_text a)" "length (s_text a) - unat (5 :: u64) = length (ds @ r)"
    by (simp_all add: assms(2) a_text)
  have sz: "\<not> s_size cmd < 8"
    using string_ok_size [OF assms(1)] assms(2) by (simp add: word_less_nat_alt)
  have ws: "with_substr 5 a body (w\<lparr>w_heap := h1\<rparr>) = and_then (body b (w\<lparr>w_heap := h2\<rparr>)) (\<lambda>(r, w).
    and_then (kfree q2 (w_heap w)) (\<lambda>h. Done (r, w\<lparr>w_heap := h\<rparr>)))"
    for body :: "str \<Rightarrow> 'a world \<Rightarrow> (int \<times> 'a world) outcome"
  proof -
    have "kmalloc (of_nat (length (s_text a) - unat (5 :: u64)) + 1) (w_heap (w\<lparr>w_heap := h1\<rparr>)) = Done (q2, h2)"
      using assms(8) by (simp add: a_text)
    from with_substr_ok [OF a_ok l2(1) this assms(9), of body] show ?thesis by (simp add: b_def)
  qed
  have "processNewCommand poke K ep cmd sh w = with_substr 7 cmd (cmdThread K ep) w"
    using assms(1,2) sz by (simp add: processNewCommand_def spell)
  also have "\<dots> = and_then (cmdThread K ep a (w\<lparr>w_heap := h1\<rparr>)) (\<lambda>(r, w).
    and_then (kfree q1 (w_heap w)) (\<lambda>h. Done (r, w\<lparr>w_heap := h\<rparr>)))"
    unfolding a_def
    by (rule with_substr_ok [OF assms(1) l1(1) _ assms(7)]) (unfold l1(2), rule assms(6))
  also have "cmdThread K ep a (w\<lparr>w_heap := h1\<rparr>) = thread_call K ep 5 Op_StopAndDelete a (w\<lparr>w_heap := h1\<rparr>)"
    using a_ok a_text by (simp add: cmdThread_def spell)
  also have "\<dots> = and_then (and_then (strtol_str b) (\<lambda>(_, badge, _).
       and_then (do_perform (perform_thread K ep) (ThreadRequest Op_StopAndDelete (word_of_int badge) 0)
          (w\<lparr>w_heap := h2\<rparr>)) (\<lambda>(_, w). Done (0, w)))) (\<lambda>(r, w).
    and_then (kfree q2 (w_heap w)) (\<lambda>h. Done (r, w\<lparr>w_heap := h\<rparr>)))"
    unfolding thread_call_def by (simp add: ws)
  finally show ?thesis by (simp add: st and_then_assoc split_def)
qed


theorem shell_del_drops_digit_witness:
  "\<exists>h q1 q2. processNewCommand (env_poke env0) (env_ipc env0) 9 (line_of ''thread del 12'') shell0 (world0 small_pool) =
    and_then (do_perform (perform_thread (env_ipc env0) 9) (ThreadRequest Op_StopAndDelete 2 0) (world0 h)) (\<lambda>(_, w).
    and_then (kfree q2 (w_heap w)) (\<lambda>h.
    and_then (kfree q1 h) (\<lambda>h. Done (0, w\<lparr>w_heap := h\<rparr>))))"
proof -
  obtain h1 q h2 where h: "kmalloc 7 small_pool = Done (4128, h1)" "kmalloc 2 h1 = Done (q, h2)" "q \<noteq> 0"
    by (rule small_pool_alloc [of 7 2]) simp_all
  have "processNewCommand (env_poke env0) (env_ipc env0) 9 (line_of ''thread del 12'') shell0 (world0 small_pool) =
    and_then (do_perform (perform_thread (env_ipc env0) 9)
      (ThreadRequest Op_StopAndDelete (word_of_int (clamped 1 (numeral_value 10 0 ''2''))) 0)
      ((world0 small_pool)\<lparr>w_heap := h2\<rparr>)) (\<lambda>(_, w).
    and_then (kfree q (w_heap w)) (\<lambda>h. and_then (kfree 4128 h) (\<lambda>h. Done (0, w\<lparr>w_heap := h\<rparr>))))"
    by (rule shell_del_drops_digit [where d = "CHR ''1''" and r = "[]" and ?h1.0 = h1])
      (simp_all add: line_of_def string_ok_def digit_simps world0_def h)
  then show ?thesis by (intro exI [of _ h2] exI [of _ 4128] exI [of _ q]) (simp add: digit_simps world0_def)
qed

text \<open>
  The history holds ten commands: when it is full, recording one more command never returns,
  because growing the vector calls \<open>krealloc\<close> on a live block. The shell's thread then waits inside
  the allocator while it holds the allocator's mutex, which the root server needs as well.
\<close>

theorem shell_history_full_blocks:
  assumes "processNewCommand (env_poke E) (env_ipc E) (env_endpoint E) cmd sh w = Done (r, w1)"
    and "locked_inv (w_heap w1) bs" "b \<in> set bs" "block_size b = 10 * sizeof_string"
    and "v_data (history sh) = block_addr (w_heap w1) b" "v_reservation (history sh) = 10"
      "v_size (history sh) = 10"
    and "string_ok cmd" "repeats_last (sh\<lparr>lastRet := r\<rparr>) cmd = Done False"
  shows "newCommand E cmd sh w = Blocked"
proof -
  let ?h = "w_heap w1" and ?n = "of_nat (length (s_text cmd)) + 1 :: u64"
  have "unat ?n = length (s_text cmd) + 1"
    using assms(8) by (simp add: string_ok_def unat_word_ariths unat_of_nat)
  then have "countable_size ?n" using assms(8) by (intro countable_small) (simp add: string_ok_def)
  from locked.alloc_law [OF assms(2) this] obtain q h bs' where
    k: "kmalloc ?n ?h = Done (q, h)" "locked_inv h bs'" "b \<in> set bs'" "block_addr h = block_addr ?h"
    using assms(3) by (metis list.set_intros(2))
  have src: "c_str cmd = Some (s_text cmd)" "NUL \<notin> set (s_text cmd)"
    using assms(8) by (simp_all add: c_str_def string_ok_def)
  have "string_of_cstr_with strdup (c_str cmd) ?h =
      Done (\<lparr>s_ptr = q, s_text = s_text cmd, s_size = of_nat (length (s_text cmd))\<rparr>, h)"
    using k(1) src by (simp add: string_members strdup_def strlen_no_nul)
  moreover have "krealloc (env_copy E) (block_addr h b) (20 * sizeof_string) h = Blocked"
    using k assms(4) by (intro krealloc_live_blocks) (simp_all add: sizeof_string_def)
  then have "doRealloc (krealloc (env_copy E)) sizeof_string (history sh) h = Blocked"
    using assms(5-7) k(4) by (simp add: doRealloc_def)
  ultimately show ?thesis
    using assms(1,9) by (simp add: newCommand_def with_heap_def push_string_def push_string_with_def Let_def)
qed

text \<open>A heap with a full history vector, of which every entry is \<open>vm\<close>.\<close>

lemma pool16_history:
  obtains h where "heap_ready h [6..<16] [(0, 6, 10 * sizeof_string)]" "pool h = 4096"
proof -
  have c: "chunks_for (10 * sizeof_string) = 6" by (simp add: chunks_for_def info_size_def sizeof_string_def)
  have "countable_size (10 * sizeof_string)" by (rule countable_small) (simp add: sizeof_string_def)
  then obtain h where "heap_ready h [6..<16] [(0, 6, 10 * sizeof_string)]" "pool h = pool pool16"
    by (rule kmalloc_front [OF pool16_ready _ c, where u = 6]) simp_all
  then show ?thesis using that by (simp add: pool16_def small_pool_def)
qed

theorem shell_history_full_blocks_witness:
  "\<exists>h. newCommand env0 (line_of ''help'') (shell0\<lparr>history := \<lparr>v_size = 10, v_reservation = 10, v_data = 4128,
     v_elems = (\<lambda>_. line_of ''vm'')\<rparr>\<rparr>) (world0 h) = Blocked"
proof -
  let ?v = "\<lparr>v_size = 10, v_reservation = 10, v_data = 4128, v_elems = (\<lambda>_. line_of ''vm'')\<rparr>"
  obtain h where h: "heap_ready h [6..<16] [(0, 6, 10 * sizeof_string)]" "pool h = 4096"
    by (rule pool16_history)
  have ok: "string_ok (line_of ''help'')" "string_ok (line_of ''vm'')"
    by (simp_all add: string_ok_def line_of_def NUL_def)
  have run: "processNewCommand (env_poke env0) (env_ipc env0) (env_endpoint env0) (line_of ''help'')
      (shell0\<lparr>history := ?v\<rparr>) (world0 h) = Done (0, world0 h)"
    using ok by (simp add: processNewCommand_def spell) (simp add: line_of_def)
  have "repeats_last (shell0\<lparr>history := ?v, lastRet := 0\<rparr>) (line_of ''help'') = Done False"
    using eq_string_ok [OF ok(2,1)]
    by (simp add: repeats_last_def vector_empty_def vector_back_def vector_nth_def in_block_def
        sizeof_string_def) (simp add: line_of_def)
  with run h ok have "newCommand env0 (line_of ''help'') (shell0\<lparr>history := ?v\<rparr>) (world0 h) = Blocked"
    by (intro shell_history_full_blocks [where b = "(0, 6, 10 * sizeof_string)" and r = 0
          and bs = "[(0, 6, 10 * sizeof_string)]" and ?w1.0 = "world0 h"])
      (auto simp: locked_inv_def world0_def chunk_size_def info_size_def)
  then show ?thesis by blast
qed

end
