(* ===== verification/Shell_Client.thy ===== *)
theory Shell_Client
  imports Shell_Props
begin

text \<open>
  The shell over the interface it relies on: a heap that meets requests while there is room, and a
  server that answers. Within a budget of chunks, every line without one of the shell's traps runs to
  its end, and the history records it.
\<close>

section \<open>What a line may ask for\<close>

text \<open>The number at the start of an argument, as \<open>strtol\<close> reads it.\<close>

definition text_number :: "string \<Rightarrow> int" where
  "text_number t = (case strtol (c_mem NUL t) 10 of Some (v, _, _) \<Rightarrow> v | None \<Rightarrow> 0)"

text \<open>The arguments of \<open>thread\<close> that are long enough for the fixed position their number is read from.\<close>

definition safe_thread :: "string \<Rightarrow> bool" where
  "safe_thread a \<longleftrightarrow> (prefix ''suspend'' a \<longrightarrow> 8 \<le> length a) \<and> (prefix ''resume'' a \<longrightarrow> 7 \<le> length a) \<and>
     (prefix ''del'' a \<longrightarrow> 5 \<le> length a) \<and> (prefix ''prio'' a \<longrightarrow> 5 \<le> length a)"

text \<open>
  The lines without a trap: no \<open>thread\<close> argument that is read behind its end, no size that is never
  counted, no address to write to or to free.
\<close>

definition safe_line :: "string \<Rightarrow> bool" where
  "safe_line t \<longleftrightarrow>
     (prefix ''thread'' t \<and> 8 \<le> length t \<longrightarrow> safe_thread (drop 7 t)) \<and>
     (prefix ''kmalloc'' t \<and> 9 \<le> length t \<longrightarrow> countable_size (word_of_int (text_number (drop 8 t)))) \<and>
     (prefix ''touch'' t \<and> 7 \<le> length t \<longrightarrow> text_number (drop 6 t) = 0) \<and>
     (prefix ''kfree'' t \<and> 7 \<le> length t \<longrightarrow> text_number (drop 6 t) = 0)"

text \<open>
  The chunks a line may take: nine for each of the five copies of its text, six for the history's
  array, and what a \<open>kmalloc\<close> line asks the server for.
\<close>

definition asked_chunks :: "string \<Rightarrow> nat" where
  "asked_chunks t = (if prefix ''kmalloc'' t \<and> 9 \<le> length t
     then chunks_for (word_of_int (text_number (drop 8 t))) else 0)"

definition line_cost :: "string \<Rightarrow> nat" where
  "line_cost t = 51 + asked_chunks t"

text \<open>What the history holds, and the memory it holds it in.\<close>

definition hist_texts :: "shell \<Rightarrow> string list" where
  "hist_texts sh = map s_text (vector_list (history sh))"

definition hist_ok :: "str vector \<Rightarrow> bool" where
  "hist_ok v \<longleftrightarrow>
     (v_data v = 0 \<and> v_size v = 0 \<and> v_reservation v = 0 \<or>
      v_data v \<noteq> 0 \<and> v_size v \<le> 10 \<and> v_reservation v = 10) \<and>
     (\<forall>e \<in> set (vector_list v). string_ok e)"

definition hist_ptrs :: "str vector \<Rightarrow> u64 set" where
  "hist_ptrs v = ({v_data v} - {0}) \<union> s_ptr ` set (vector_list v)"

text \<open>A line is recorded unless it repeats the last one.\<close>

definition record_line :: "string list \<Rightarrow> string \<Rightarrow> string list" where
  "record_line H t = (if H \<noteq> [] \<and> last H = t then H else H @ [t])"

text \<open>The lines that keys and enter make, and the characters of such a session.\<close>

definition typed :: "string \<Rightarrow> string" where
  "typed ks = foldl edit [] ks"

definition session_lines :: "string list \<Rightarrow> string list" where
  "session_lines kss = filter (\<lambda>l. l \<noteq> []) (map typed kss)"

definition session_keys :: "string list \<Rightarrow> string" where
  "session_keys kss = concat (map (\<lambda>ks. ks @ [CHR 0x0D]) kss)"

definition safe_keys :: "string \<Rightarrow> bool" where
  "safe_keys ks \<longleftrightarrow> CHR 0x0D \<notin> set ks \<and> NUL \<notin> set ks \<and> safe_line (typed ks)"

text \<open>
  The state between two lines, over the invariant \<open>Q\<close> of heap and server with the blocks \<open>C\<close>; and what a
  line leaves of it: no block is lost, and the history grows into fresh blocks only.
\<close>

definition shell_ready :: "(u64 set \<Rightarrow> nat \<Rightarrow> 'w \<Rightarrow> bool) \<Rightarrow> u64 set \<Rightarrow> nat \<Rightarrow> shell \<Rightarrow> 'w \<Rightarrow> bool" where
  "shell_ready Q C N sh w \<longleftrightarrow>
     line_inv sh [] \<and> hist_ok (history sh) \<and> Q C N w \<and> hist_ptrs (history sh) \<subseteq> C"

definition shell_left ::
    "(u64 set \<Rightarrow> nat \<Rightarrow> 'w \<Rightarrow> bool) \<Rightarrow> u64 set \<Rightarrow> nat \<Rightarrow> shell \<Rightarrow> shell \<Rightarrow> 'w \<Rightarrow> bool" where
  "shell_left Q C N sh sh' w \<longleftrightarrow> (\<exists>D. C \<subseteq> D \<and> shell_ready Q D N sh' w \<and>
     hist_ptrs (history sh') \<subseteq> hist_ptrs (history sh) \<union> (D - C))"

section \<open>Numbers in a text\<close>

lemma text_at_drop: "text_at m p t \<Longrightarrow> k \<le> length t \<Longrightarrow> text_at m (p + int k) (drop k t)"
  using text_at_append [of m p "take k t" "drop k t"] by simp

lemma skip_spaces_ends:
  "text_at m p t \<Longrightarrow> \<exists>k \<le> length t. skip_spaces m p = Some (p + int k)"
proof (induction t arbitrary: p)
  case Nil
  then have "skip_spaces m p = Some p"
    by (subst skip_spaces.simps) (simp add: isspace_def int_of_char_def NUL_def)
  then show ?case by simp
next
  case (Cons c t)
  then have "m p = c" and "text_at m (p + 1) t" by simp_all
  from Cons.IH [OF this(2)] obtain k where k: "k \<le> length t" "skip_spaces m (p + 1) = Some (p + 1 + int k)"
    by blast
  show ?case
  proof (cases "isspace (int_of_char c)")
    case True
    then have "skip_spaces m p = Some (p + int (Suc k))"
      using k(2) \<open>m p = c\<close> by (subst skip_spaces.simps) simp
    then show ?thesis using k(1) by (intro exI [of _ "Suc k"]) simp
  next
    case False
    then have "skip_spaces m p = Some (p + int 0)" using \<open>m p = c\<close> by (subst skip_spaces.simps) simp
    then show ?thesis by (intro exI [of _ 0]) simp
  qed
qed

lemma strtol_loop_ends:
  "text_at m p t \<Longrightarrow> \<exists>v er. \<exists>k \<le> length t. strtol_loop m 10 sg p sm err = Some (v, p + int k, er)"
proof (induction t arbitrary: p sm err)
  case Nil
  then show ?case by (subst strtol_loop.simps) simp
next
  case (Cons c t)
  then have c: "m p = c" "c \<noteq> NUL" and t: "text_at m (p + 1) t" by simp_all
  let ?d = "digit_number c"
  show ?case
  proof (cases "?d < 10 \<and> ?d \<noteq> -1")
    case True
    from Cons.IH [OF t, of "fst (add_digit 10 sg ?d sm err)" "snd (add_digit 10 sg ?d sm err)"] obtain v er k where
      "k \<le> length t" "strtol_loop m 10 sg (p + 1) (fst (add_digit 10 sg ?d sm err))
        (snd (add_digit 10 sg ?d sm err)) = Some (v, p + 1 + int k, er)" by blast
    then have "strtol_loop m 10 sg p sm err = Some (v, p + int (Suc k), er)"
      using c True by (subst strtol_loop.simps) (simp add: Let_def)
    then show ?thesis using \<open>k \<le> length t\<close> by (intro exI [of _ v] exI [of _ er] exI [of _ "Suc k"]) simp
  next
    case False
    then have "strtol_loop m 10 sg p sm err = Some (sm, p + int 0, err)"
      using c by (subst strtol_loop.simps) (auto simp: Let_def)
    then show ?thesis by (intro exI [of _ sm] exI [of _ err] exI [of _ 0]) simp
  qed
qed

lemma strtol_ends:
  assumes "text_at m 0 t"
  shows "\<exists>v e err. strtol m 10 = Some (v, e, err) \<and> (\<forall>k. e = Some k \<longrightarrow> 0 \<le> k \<and> nat k \<le> length t)"
proof (cases "m 0 = NUL")
  case False
  from skip_spaces_ends [OF assms] obtain i where i: "i \<le> length t" "skip_spaces m 0 = Some (int i)" by auto
  have next_char: "j \<le> length t \<Longrightarrow> m (int j) = c \<Longrightarrow> c \<noteq> NUL \<Longrightarrow> j + 1 \<le> length t" for j c
    using assms by (cases "j = length t") (auto simp: text_at_def)
  define j where "j = (if m (int i) = CHR ''-'' then i + 1 else i)"
  define k where "k = (if m (int j) = CHR ''+'' then j + 1 else j)"
  have j: "j \<le> length t" using next_char [OF i(1)] i(1) by (auto simp: j_def NUL_def)
  have k: "k \<le> length t" using next_char [OF j] j by (auto simp: k_def NUL_def)
  have sgn: "(let pos = (if m (int i) = CHR ''-'' then int i + 1 else int i)
      in if m pos = CHR ''+'' then pos + 1 else pos) = int k"
    by (auto simp: k_def j_def add.commute)
  have "text_at m (int k) (drop k t)" using text_at_drop [OF assms k] by simp
  from strtol_loop_ends [OF this, of "if m (int i) = CHR ''-'' then -1 else 1" 0 NoErrno] obtain v er l where
    l: "l \<le> length t - k" "strtol_loop m 10 (if m (int i) = CHR ''-'' then -1 else 1) (int k) 0 NoErrno =
      Some (v, int k + int l, er)" by auto
  have "strtol m 10 = Some (v, Some (if \<not> isdigit (int_of_char (m (int k + int l - 1))) \<and>
      \<not> isalpha (int_of_char (m (int k + int l - 1))) then 0 else int k + int l), er)"
    using False i(2) sgn l(2) by (simp add: strtol_def strtol_prefix_def Let_def)
  then show ?thesis using l(1) k by (intro exI conjI) (assumption, auto)
qed (simp add: strtol_def)

lemma strtol_str_ends:
  assumes "string_ok s"
  shows "\<exists>e. strtol_str s = Done (c_mem NUL (s_text s), text_number (s_text s), e) \<and>
    (\<forall>k. e = Some k \<longrightarrow> 0 \<le> k \<and> nat k \<le> length (s_text s))"
proof -
  have "text_at (c_mem NUL (s_text s)) 0 (s_text s)"
    using assms by (intro text_at_c_mem) (simp add: string_ok_def)
  from strtol_ends [OF this] assms show ?thesis
    by (auto simp: strtol_str_def c_str_def string_ok_def text_number_def)
qed

section \<open>The interface\<close>

text \<open>A call that returns, and keeps the client's blocks within what is left of its budget.\<close>

definition kept_by :: "(u64 set \<Rightarrow> nat \<Rightarrow> 'w \<Rightarrow> bool) \<Rightarrow> u64 set \<Rightarrow> nat \<Rightarrow> ('a \<times> 'w) outcome \<Rightarrow> bool" where
  "kept_by Q C N m \<longleftrightarrow> (\<exists>r w D. m = Done (r, w) \<and> C \<subseteq> D \<and> Q D N w)"

locale shell_server =
  fixes I :: "'x shell_ipc" and ep :: u64 and inv :: "u64 set \<Rightarrow> nat \<Rightarrow> 'x world \<Rightarrow> bool"
  assumes less: "inv C N w \<Longrightarrow> M \<le> N \<Longrightarrow> inv C M w"
    and alloc_law: "inv C N w \<Longrightarrow> countable_size z \<Longrightarrow> 0 < chunks_for z \<Longrightarrow> chunks_for z \<le> N \<Longrightarrow>
      \<exists>p h. kmalloc z (w_heap w) = Done (p, h) \<and> p \<noteq> 0 \<and> p \<notin> C \<and>
        inv (insert p C) (N - chunks_for z) (w\<lparr>w_heap := h\<rparr>)"
    and free_law: "inv C N w \<Longrightarrow> p \<in> C \<Longrightarrow>
      \<exists>h. kfree p (w_heap w) = Done h \<and> inv (C - {p}) N (w\<lparr>w_heap := h\<rparr>)"
    and thread_law: "inv C N w \<Longrightarrow> kept_by inv C N (do_perform (perform_thread I ep) (ThreadRequest op a b) w)"
    and debug_law: "inv C N w \<Longrightarrow> kept_by inv C N (do_perform (perform_debug I ep) (DebugRequest op) w)"
    and mmap_law: "inv C N w \<Longrightarrow> kept_by inv C N (do_perform (perform_mmap I ep) (MMapRequest n) w)"
    and kmalloc_law: "inv C N w \<Longrightarrow> countable_size z \<Longrightarrow>
      kept_by inv C (N - chunks_for z) (do_perform (perform_kmalloc I ep) (KMallocRequest z) w)"
begin

lemma kept_Done: "inv C N w \<Longrightarrow> M \<le> N \<Longrightarrow> kept_by inv C M (Done (r, w))"
  unfolding kept_by_def using less by blast

lemma kept_less: "kept_by inv C N m \<Longrightarrow> M \<le> N \<Longrightarrow> kept_by inv C M m"
  unfolding kept_by_def by (elim exE conjE) (intro exI conjI, assumption+, rule less)

lemma kept_then:
  assumes "kept_by inv C N m" "\<And>r w D. C \<subseteq> D \<Longrightarrow> inv D N w \<Longrightarrow> kept_by inv D M (f (r, w))"
  shows "kept_by inv C M (and_then m f)"
proof -
  obtain r w D where m: "m = Done (r, w)" "C \<subseteq> D" "inv D N w" using assms(1) by (auto simp: kept_by_def)
  from assms(2) [OF m(2,3), of r] obtain r' w' D' where "f (r, w) = Done (r', w')" "D \<subseteq> D'" "inv D' M w'"
    by (auto simp: kept_by_def)
  then show ?thesis using m(1,2) unfolding kept_by_def by (intro exI [of _ r'] exI [of _ w'] exI [of _ D']) auto
qed

lemma kept_result:
  assumes "kept_by inv C N m"
  shows "kept_by inv C N (and_then m (\<lambda>(v, w). Done (f v, w)))"
  by (rule kept_then [OF assms]) (simp add: kept_Done)

lemma kept_if:
  "(b \<Longrightarrow> kept_by inv C N m) \<Longrightarrow> (\<not> b \<Longrightarrow> kept_by inv C N m') \<Longrightarrow> kept_by inv C N (if b then m else m')"
  by simp

text \<open>The chunks of a text.\<close>

lemma text_chunks:
  assumes "n \<le> 255"
  shows "countable_size (of_nat n + 1)" "0 < chunks_for (of_nat n + 1)" "chunks_for (of_nat n + 1) \<le> 9"
proof -
  have "unat (of_nat n + 1 :: u64) = n + 1" using assms by (simp add: unat_word_ariths unat_of_nat)
  then have u: "unat (of_nat n + 1 :: u64) \<le> 256" using assms by simp
  then show "countable_size (of_nat n + 1)" by (intro countable_small) simp
  have "unat (of_nat n + 1 :: u64) < 2 ^ 64 - 64" using u by simp
  from chunks_for_small [OF this] u
  show "0 < chunks_for (of_nat n + 1)" "chunks_for (of_nat n + 1) \<le> 9" by simp_all
qed

lemma alloc_text:
  assumes "inv C N w" "n \<le> 255" "9 \<le> N"
  obtains p h where "kmalloc (of_nat n + 1) (w_heap w) = Done (p, h)" "p \<noteq> 0" "p \<notin> C"
    "inv (insert p C) (N - 9) (w\<lparr>w_heap := h\<rparr>)"
proof -
  have "chunks_for (of_nat n + 1) \<le> N" "N - 9 \<le> N - chunks_for (of_nat n + 1)"
    using text_chunks(3) [OF assms(2)] assms(3) by simp_all
  with alloc_law [OF assms(1) text_chunks(1,2) [OF assms(2)]] show ?thesis using that less by blast
qed

section \<open>Commands\<close>

lemma substr_kept:
  assumes "inv C N w" "string_ok s" "length (s_text s) \<le> 255" "unat i \<le> length (s_text s)" "9 \<le> N"
    and body: "\<And>a w. string_ok a \<Longrightarrow> s_text a = drop (unat i) (s_text s) \<Longrightarrow> inv (insert (s_ptr a) C) (N - 9) w \<Longrightarrow>
      kept_by inv (insert (s_ptr a) C) M (body a w)"
  shows "kept_by inv C M (with_substr i s body w)"
proof -
  let ?n = "length (s_text s) - unat i"
  have "?n \<le> 255" using assms(3) by simp
  from alloc_text [OF assms(1) this assms(5)] obtain p h where
    p: "kmalloc (of_nat ?n + 1) (w_heap w) = Done (p, h)" "p \<noteq> 0" "p \<notin> C"
      "inv (insert p C) (N - 9) (w\<lparr>w_heap := h\<rparr>)" .
  define a where "a = \<lparr>s_ptr = p, s_text = drop (unat i) (s_text s), s_size = of_nat ?n\<rparr>"
  have "string_ok a" unfolding a_def by (rule string_ok_suffix [OF assms(2) p(2) assms(4)])
  from body [OF this, of "w\<lparr>w_heap := h\<rparr>"] p(4) obtain r w' D where
    b: "body a (w\<lparr>w_heap := h\<rparr>) = Done (r, w')" "insert p C \<subseteq> D" "inv D M w'"
    by (auto simp: kept_by_def a_def)
  from free_law [OF b(3), of p] b(2) obtain h' where
    f: "kfree p (w_heap w') = Done h'" "inv (D - {p}) M (w'\<lparr>w_heap := h'\<rparr>)" by blast
  have "with_substr i s body w = Done (r, w'\<lparr>w_heap := h'\<rparr>)"
    using with_substr_ok [OF assms(2,4) p(1,2), of body] b(1) f(1) by (simp add: a_def)
  moreover have "C \<subseteq> D - {p}" using b(2) p(3) by blast
  ultimately show ?thesis using f(2) unfolding kept_by_def by blast
qed

lemma thread_call_kept:
  assumes "inv C N w" "string_ok a" "length (s_text a) \<le> 255" "unat p \<le> length (s_text a)" "9 \<le> N"
  shows "kept_by inv C (N - 9) (thread_call I ep p op a w)"
  unfolding thread_call_def
proof (rule substr_kept [OF assms])
  fix b w assume b: "string_ok b" and i: "inv (insert (s_ptr b) C) (N - 9) w"
  from strtol_str_ends [OF b] obtain m v e where "strtol_str b = Done (m, v, e)" by blast
  then show "kept_by inv (insert (s_ptr b) C) (N - 9) (and_then (strtol_str b) (\<lambda>(_, badge, _).
       and_then (do_perform (perform_thread I ep) (ThreadRequest op (word_of_int badge) 0) w) (\<lambda>(_, w).
       Done (0, w))))"
    using kept_result [OF thread_law [OF i], where f = "\<lambda>_. 0"] by simp
qed

lemma thread_prio_kept:
  assumes "inv C N w" "string_ok a" "length (s_text a) \<le> 255" "5 \<le> length (s_text a)" "9 \<le> N"
  shows "kept_by inv C (N - 9) (thread_prio I ep a w)"
  unfolding thread_prio_def
proof (rule substr_kept [OF assms(1-3) _ assms(5)])
  fix b w assume b: "string_ok b" and i: "inv (insert (s_ptr b) C) (N - 9) w"
  from strtol_str_ends [OF b] obtain v e where s: "strtol_str b = Done (c_mem NUL (s_text b), v, e)"
    and e: "\<And>k. e = Some k \<Longrightarrow> 0 \<le> k \<and> nat k \<le> length (s_text b)" by blast
  show "kept_by inv (insert (s_ptr b) C) (N - 9) (and_then (strtol_str b) (\<lambda>(m, badge, outArg).
       case outArg of
         None \<Rightarrow> Done (-1, w)
       | Some e \<Rightarrow>
           and_then (of_option (strtol (\<lambda>i. m (e + i)) 10)) (\<lambda>(prio, _, _).
           and_then (do_perform (perform_thread I ep)
               (ThreadRequest Op_SetPriority (word_of_int badge) (word_of_int prio)) w) (\<lambda>(_, w).
           Done (0, w)))))"
  proof (cases e)
    case None
    then show ?thesis using s i by (simp add: kept_Done)
  next
    case (Some k)
    have "text_at (c_mem NUL (s_text b)) 0 (s_text b)"
      using b by (intro text_at_c_mem) (simp add: string_ok_def)
    then have "text_at (c_mem NUL (s_text b)) (0 + int (nat k)) (drop (nat k) (s_text b))"
      by (rule text_at_drop) (use e [OF Some] in simp)
    then have "text_at (\<lambda>i. c_mem NUL (s_text b) (k + i)) 0 (drop (nat k) (s_text b))"
      using e [OF Some] by (simp add: text_at_def)
    from strtol_ends [OF this] obtain pr e' er where
      "strtol (\<lambda>i. c_mem NUL (s_text b) (k + i)) 10 = Some (pr, e', er)" by blast
    then show ?thesis
      using s Some kept_result [OF thread_law [OF i], where f = "\<lambda>_. 0"] by simp
  qed
qed (use assms(4) in simp)

lemma cmdThread_kept:
  assumes "inv C N w" "string_ok a" "length (s_text a) \<le> 255" "safe_thread (s_text a)" "9 \<le> N"
  shows "kept_by inv C (N - 9) (cmdThread I ep a w)"
proof -
  note call = thread_call_kept [OF assms(1-3) _ assms(5)] and prio = thread_prio_kept [OF assms(1-3) _ assms(5)]
  have list: "kept_by inv C (N - 9) (and_then (do_perform (perform_thread I ep) (ThreadRequest Op_List 0 0) w)
      (\<lambda>(_, w). Done (0, w)))"
    using kept_less [OF kept_result [OF thread_law [OF assms(1)], where f = "\<lambda>_. 0"], of "N - 9"] by simp
  have no: "kept_by inv C (N - 9) (Done (-1, w))" by (rule kept_Done [OF assms(1)]) simp
  have "cmdThread I ep a w =
     (if s_text a = ''list'' then
        and_then (do_perform (perform_thread I ep) (ThreadRequest Op_List 0 0) w) (\<lambda>(_, w). Done (0, w))
      else if prefix ''suspend'' (s_text a) then thread_call I ep 8 Op_Suspend a w
      else if prefix ''resume'' (s_text a) then thread_call I ep 7 Op_Resume a w
      else if prefix ''del'' (s_text a) then thread_call I ep 5 Op_StopAndDelete a w
      else if prefix ''prio'' (s_text a) then thread_prio I ep a w else Done (-1, w))"
    using assms(2) by (simp add: cmdThread_def spell cong: if_cong)
  then show ?thesis using assms(4) list no call prio by (auto simp: safe_thread_def)
qed

lemma with_number_kept:
  assumes "inv C N w" "string_ok cmd" "length (s_text cmd) \<le> 255" "unat p < 255" "9 \<le> N" "M \<le> N - 9"
    and act: "\<And>w D. unat p + 1 \<le> length (s_text cmd) \<Longrightarrow> inv D (N - 9) w \<Longrightarrow>
      text_number (drop (unat p) (s_text cmd)) \<noteq> 0 \<Longrightarrow>
      kept_by inv D M (act (text_number (drop (unat p) (s_text cmd))) w)"
  shows "kept_by inv C M (with_number p cmd act w)"
proof (cases "s_size cmd < p + 1")
  case True
  then show ?thesis using assms(1,6) by (simp add: with_number_def kept_Done)
next
  case False
  have "unat (p + 1) = unat p + 1" using assms(4) by (simp add: unat_word_ariths)
  then have len: "unat p + 1 \<le> length (s_text cmd)"
    using False string_ok_size [OF assms(2)] by (simp add: word_less_nat_alt)
  have "kept_by inv C M (with_substr p cmd (\<lambda>args w.
        and_then (strtol_str args) (\<lambda>(_, v, _). if v \<noteq> 0 then act v w else Done (-1, w))) w)"
  proof (rule substr_kept [OF assms(1-3) _ assms(5)])
    fix a w assume a: "string_ok a" "s_text a = drop (unat p) (s_text cmd)"
      and i: "inv (insert (s_ptr a) C) (N - 9) w"
    from strtol_str_ends [OF a(1)] obtain m e where
      "strtol_str a = Done (m, text_number (drop (unat p) (s_text cmd)), e)" unfolding a(2) by blast
    then show "kept_by inv (insert (s_ptr a) C) M
        (and_then (strtol_str a) (\<lambda>(_, v, _). if v \<noteq> 0 then act v w else Done (-1, w)))"
      using act [OF len i] by (simp add: kept_Done [OF i assms(6)])
  qed (use len in simp)
  then show ?thesis using False by (simp add: with_number_def)
qed

lemma processNewCommand_kept:
  assumes "inv C N w" "string_ok cmd" "length (s_text cmd) \<le> 255" "safe_line (s_text cmd)" "18 \<le> N"
  shows "kept_by inv C (N - 18 - asked_chunks (s_text cmd)) (processNewCommand poke I ep cmd sh w)"
proof -
  let ?t = "s_text cmd" and ?M = "N - 18 - asked_chunks (s_text cmd)"
  have M: "?M \<le> N" "?M \<le> N - 9" by simp_all
  have n: "9 \<le> N" "9 \<le> N - 9" using assms(5) by simp_all
  note ret = kept_Done [OF assms(1) M(1)]
  have debug: "kept_by inv C ?M (cmd_debug I ep op w)" for op
    unfolding cmd_debug_def
    using kept_less [OF kept_result [OF debug_law [OF assms(1)], where f = "\<lambda>_. 0"] M(1)] by simp
  have thread: "kept_by inv C ?M (if s_size cmd < 8 then Done (-1, w) else with_substr 7 cmd (cmdThread I ep) w)"
    if "prefix ''thread'' ?t"
  proof (cases "s_size cmd < 8")
    case False
    then have len: "8 \<le> length ?t" using string_ok_size [OF assms(2)] by (simp add: word_less_nat_alt)
    have "kept_by inv C ?M (with_substr 7 cmd (cmdThread I ep) w)"
    proof (rule substr_kept [OF assms(1-3) _ n(1)])
      fix a w assume a: "string_ok a" "s_text a = drop (unat (7 :: u64)) ?t" "inv (insert (s_ptr a) C) (N - 9) w"
      have "safe_thread (s_text a)" using assms(4) that len by (simp add: safe_line_def a(2))
      from cmdThread_kept [OF a(3,1) _ this n(2)] assms(3) a(2)
      have "kept_by inv (insert (s_ptr a) C) (N - 9 - 9) (cmdThread I ep a w)" by simp
      then show "kept_by inv (insert (s_ptr a) C) ?M (cmdThread I ep a w)" by (rule kept_less) simp
    qed (use len in simp)
    then show ?thesis using False by simp
  qed (simp only: if_True ret)
  have km: "kept_by inv C ?M (with_number 8 cmd (cmd_kmalloc I ep) w)" if pre: "prefix ''kmalloc'' ?t"
  proof (rule with_number_kept [OF assms(1-3) _ n(1) M(2)])
    fix w D assume len: "unat (8 :: u64) + 1 \<le> length ?t" and i: "inv D (N - 9) w"
    let ?v = "text_number (drop (unat (8 :: u64)) ?t)"
    have "countable_size (word_of_int ?v)" using assms(4) pre len by (simp add: safe_line_def)
    from kept_result [OF kmalloc_law [OF i this], where f = "\<lambda>_. 0"]
    have "kept_by inv D (N - 9 - chunks_for (word_of_int ?v)) (cmd_kmalloc I ep ?v w)"
      unfolding cmd_kmalloc_def by simp
    then show "kept_by inv D ?M (cmd_kmalloc I ep ?v w)"
      by (rule kept_less) (use pre len in \<open>simp add: asked_chunks_def\<close>)
  qed simp
  have zero: "kept_by inv C ?M (with_number 6 cmd act w)"
    if "7 \<le> length ?t \<Longrightarrow> text_number (drop 6 ?t) = 0" for act
    by (rule with_number_kept [OF assms(1-3) _ n(1) M(2)]) (use that in simp_all)
  have mm: "kept_by inv C ?M (with_number 5 cmd (cmd_mmap I ep) w)"
  proof (rule with_number_kept [OF assms(1-3) _ n(1) M(2)])
    fix w D assume i: "inv D (N - 9) w"
    show "kept_by inv D ?M (cmd_mmap I ep (text_number (drop (unat (5 :: u64)) ?t)) w)"
      unfolding cmd_mmap_def
      using kept_less [OF kept_result [OF mmap_law [OF i], where f = "\<lambda>resp. if to_bool resp then 0 else -1"] M(2)] by simp
  qed simp
  have "processNewCommand poke I ep cmd sh w =
     (if ?t = ''sched'' then cmd_debug I ep Op_DumpScheduler w
      else if prefix ''thread'' ?t then (if s_size cmd < 8 then Done (-1, w) else with_substr 7 cmd (cmdThread I ep) w)
      else if ?t = ''help'' then Done (0, w)
      else if prefix ''kmalloc'' ?t then with_number 8 cmd (cmd_kmalloc I ep) w
      else if prefix ''touch'' ?t then with_number 6 cmd (cmd_touch poke) w
      else if prefix ''kfree'' ?t then with_number 6 cmd (cmd_kfree I ep) w
      else if ?t = ''vm'' then cmd_debug I ep Op_VMStats w
      else if ?t = ''history'' then Done (0, w)
      else if ?t = ''last'' then Done (lastRet sh, w)
      else if prefix ''mmap'' ?t then with_number 5 cmd (cmd_mmap I ep) w
      else Done (-1, w))"
    using assms(2) by (simp add: processNewCommand_def spell cong: if_cong)
  note run = this
  have touch: "7 \<le> length ?t \<Longrightarrow> text_number (drop 6 ?t) = 0" if "prefix ''touch'' ?t \<or> prefix ''kfree'' ?t"
    using that assms(4) by (auto simp: safe_line_def)
  show ?thesis
    unfolding run
    by (rule kept_if, rule debug, rule kept_if, erule thread, rule kept_if, rule ret, rule kept_if, erule km,
        rule kept_if, rule zero, rule touch, simp, assumption, rule kept_if, rule zero, rule touch, simp, assumption,
        rule kept_if, rule debug, rule kept_if, rule ret, rule kept_if, rule ret, rule kept_if, rule mm, rule ret)
qed

section \<open>The history\<close>

lemma history_room:
  assumes "inv C N w" "hist_ok v" "v_size v < 10" "6 \<le> N"
  obtains v' h D where "doRealloc (krealloc copy) sizeof_string v (w_heap w) = Done (v', h)"
    "C \<subseteq> D" "inv D (N - 6) (w\<lparr>w_heap := h\<rparr>)" "v_data v' \<noteq> 0" "v_reservation v' = 10"
    "v_size v' = v_size v" "v_elems v' = v_elems v" "v_data v' = v_data v \<or> v_data v' \<in> D - C"
proof (cases "v_data v = 0")
  case True
  then have v: "v_size v = 0" "v_reservation v = 0" using assms(2) by (auto simp: hist_ok_def)
  have c: "chunks_for 160 = 6" "countable_size 160"
    by (simp add: chunks_for_def info_size_def, rule countable_small) simp
  from alloc_law [OF assms(1) c(2)] assms(4) obtain p h where
    "kmalloc 160 (w_heap w) = Done (p, h)" "p \<noteq> 0" "p \<notin> C" "inv (insert p C) (N - 6) (w\<lparr>w_heap := h\<rparr>)"
    by (auto simp: c(1))
  then show ?thesis
    using that [of "v\<lparr>v_reservation := 10, v_data := p\<rparr>" h "insert p C"] v True
    by (auto simp: doRealloc_def krealloc_null sizeof_string_def Let_def)
next
  case False
  then have "v_reservation v = 10" using assms(2) by (auto simp: hist_ok_def)
  moreover from this False have "doRealloc (krealloc copy) sizeof_string v (w_heap w) = Done (v, w_heap w)"
    using assms(3) by (auto simp: doRealloc_def)
  ultimately show ?thesis
    using that [of v "w_heap w" C] False assms less [OF assms(1), of "N - 6"] by simp
qed

lemma vector_list_push:
  assumes "v_size v < 10"
  shows "vector_list (v\<lparr>v_elems := (v_elems v)(unat (v_size v) := x), v_size := v_size v + 1\<rparr>) = vector_list v @ [x]"
proof -
  have "unat (v_size v + 1) = Suc (unat (v_size v))" using assms by (simp add: unat_word_ariths word_less_nat_alt)
  then show ?thesis by (simp add: vector_list_def)
qed

lemma push_string_run:
  assumes "inv C N w" "hist_ok v" "v_size v < 10" "NUL \<notin> set t" "length t \<le> 255" "24 \<le> N"
  shows "\<exists>v' w' D. with_heap (push_string copy (Some t) v) w = Done (v', w') \<and> C \<subseteq> D \<and> inv D (N - 24) w' \<and>
    hist_ok v' \<and> map s_text (vector_list v') = map s_text (vector_list v) @ [t] \<and>
    hist_ptrs v' \<subseteq> hist_ptrs v \<union> (D - C)"
proof -
  from alloc_text [OF assms(1,5)] assms(6) obtain q h1 where
    q: "kmalloc (of_nat (length t) + 1) (w_heap w) = Done (q, h1)" "q \<noteq> 0" "q \<notin> C"
      "inv (insert q C) (N - 9) (w\<lparr>w_heap := h1\<rparr>)" by auto
  have n: "6 \<le> N - 9" "9 \<le> N - 15" using assms(6) by simp_all
  from history_room [OF q(4) assms(2,3) n(1), of copy] obtain v1 h2 D1 where
    r: "doRealloc (krealloc copy) sizeof_string v h1 = Done (v1, h2)" "insert q C \<subseteq> D1"
      "inv D1 (N - 15) (w\<lparr>w_heap := h2\<rparr>)" "v_data v1 \<noteq> 0" "v_reservation v1 = 10" "v_size v1 = v_size v"
      "v_elems v1 = v_elems v" "v_data v1 = v_data v \<or> v_data v1 \<in> D1 - insert q C" by auto
  from alloc_text [OF r(3) assms(5) n(2)] obtain e h3 where
    e: "kmalloc (of_nat (length t) + 1) h2 = Done (e, h3)" "e \<noteq> 0" "e \<notin> D1"
      "inv (insert e D1) (N - 24) (w\<lparr>w_heap := h3\<rparr>)" by auto
  have "q \<in> insert e D1" using r(2) by blast
  from free_law [OF e(4) this] obtain h4 where
    f: "kfree q h3 = Done h4" "inv (insert e D1 - {q}) (N - 24) (w\<lparr>w_heap := h4\<rparr>)" by auto
  define x where "x = (v_elems v1 (unat (v_size v1)))\<lparr>s_ptr := e, s_text := t, s_size := of_nat (length t)\<rparr>"
  define v' where "v' = v1\<lparr>v_elems := (v_elems v1)(unat (v_size v1) := x), v_size := v_size v1 + 1\<rparr>"
  have sz: "unat (v_size v) < 10" using assms(3) by (simp add: word_less_nat_alt)
  have ib: "in_block sizeof_string v1 (v_size v1)"
    using sz r(4-6) by (simp add: in_block_def sizeof_string_def)
  have sl: "strlen t = length t" using assms(4) by (rule strlen_no_nul)
  have run: "with_heap (push_string copy (Some t) v) w = Done (v', w\<lparr>w_heap := h4\<rparr>)"
    using q(1,2) r(1) ib e(1,2) f(1) assms(4)
    by (simp add: with_heap_def push_string_def push_string_with_def string_members strdup_def sl
        c_str_def v'_def x_def)
  have l: "vector_list v' = vector_list v @ [x]"
    unfolding v'_def using vector_list_push [of v1 x] assms(3) r(6,7) by (simp add: vector_list_def)
  have x: "string_ok x" using e(2) assms(4,5) by (simp add: x_def string_ok_def)
  have "unat (v_size v + 1) = unat (v_size v) + 1" using sz by (simp add: unat_word_ariths)
  then have "v_size v + 1 \<le> 10" using sz by (simp add: word_le_nat_alt)
  then have ok: "hist_ok v'" using assms(2) x r(4-6) unfolding hist_ok_def l by (simp add: v'_def)
  have "v_data v' = v_data v \<or> v_data v' \<in> insert e D1 - {q} - C" using r(8) by (auto simp: v'_def)
  moreover have "e \<in> insert e D1 - {q} - C" using e(3) r(2) by blast
  ultimately have p: "hist_ptrs v' \<subseteq> hist_ptrs v \<union> ((insert e D1 - {q}) - C)"
    using r(4) unfolding hist_ptrs_def l by (auto simp: x_def v'_def)
  have "C \<subseteq> insert e D1 - {q}" using r(2) q(3) by blast
  with run f(2) ok l p show ?thesis
    by (intro exI [of _ v'] exI [of _ "w\<lparr>w_heap := h4\<rparr>"] exI [of _ "insert e D1 - {q}"]) (simp add: x_def)
qed

lemma repeats_last_run:
  assumes "hist_ok (history sh)" "string_ok cmd"
  shows "repeats_last sh cmd = Done (hist_texts sh \<noteq> [] \<and> last (hist_texts sh) = s_text cmd)"
proof (cases "v_size (history sh) = 0")
  case True
  then show ?thesis by (simp add: repeats_last_def vector_empty_def hist_texts_def vector_list_def)
next
  case False
  let ?v = "history sh"
  have n: "unat (v_size ?v) \<le> 10" "0 < unat (v_size ?v)" "v_reservation ?v = 10" "v_data ?v \<noteq> 0"
    using assms(1) False by (auto simp: hist_ok_def word_le_nat_alt unat_gt_0)
  then have u: "unat (v_size ?v - 1) = unat (v_size ?v) - 1" using False by (simp add: unat_minus_one)
  let ?e = "v_elems ?v (unat (v_size ?v) - 1)"
  have ne: "vector_list ?v \<noteq> []" using n(2) by (simp add: vector_list_def)
  have l: "last (vector_list ?v) = ?e" using n(2) by (simp add: vector_list_def last_map)
  have "string_ok ?e" using assms(1) last_in_set [OF ne] l by (simp add: hist_ok_def)
  from eq_string_ok [OF this assms(2)] have "eq_string ?e cmd = Done (s_text ?e = s_text cmd)" .
  moreover have "vector_back sizeof_string ?v = Done ?e"
    using n u by (simp add: vector_back_def vector_nth_def in_block_def sizeof_string_def)
  ultimately show ?thesis
    using False ne l by (simp add: repeats_last_def vector_empty_def hist_texts_def last_map)
qed

lemma newCommand_run:
  assumes E: "env_ipc E = I" "env_endpoint E = ep"
    and "inv C N w" "hist_ok (history sh)" "string_ok cmd" "length (s_text cmd) \<le> 255" "safe_line (s_text cmd)"
    and "42 + asked_chunks (s_text cmd) \<le> N" "length (record_line (hist_texts sh) (s_text cmd)) \<le> 10"
  shows "\<exists>r sh' w' D. newCommand E cmd sh w = Done (r, sh', w') \<and> C \<subseteq> D \<and>
    inv D (N - 42 - asked_chunks (s_text cmd)) w' \<and> hist_ok (history sh') \<and>
    hist_texts sh' = record_line (hist_texts sh) (s_text cmd) \<and>
    hist_ptrs (history sh') \<subseteq> hist_ptrs (history sh) \<union> (D - C)"
proof -
  let ?t = "s_text cmd"
  define N1 where "N1 = N - 18 - asked_chunks ?t"
  have n: "18 \<le> N" "24 \<le> N1" "N1 - 24 = N - 42 - asked_chunks ?t" using assms(8) by (simp_all add: N1_def)
  from processNewCommand_kept [OF assms(3,5-7) n(1), of "env_poke E" sh] obtain r w1 D1 where
    p: "processNewCommand (env_poke E) I ep cmd sh w = Done (r, w1)" "C \<subseteq> D1" "inv D1 N1 w1"
    by (auto simp: kept_by_def N1_def)
  let ?sh = "sh\<lparr>lastRet := r\<rparr>"
  have h: "history ?sh = history sh" "hist_texts ?sh = hist_texts sh" by (simp_all add: hist_texts_def)
  have rl: "repeats_last ?sh cmd = Done (hist_texts sh \<noteq> [] \<and> last (hist_texts sh) = ?t)"
    using repeats_last_run [of ?sh cmd] assms(4,5) unfolding h by blast
  show ?thesis
  proof (cases "hist_texts sh \<noteq> [] \<and> last (hist_texts sh) = ?t")
    case True
    have "newCommand E cmd sh w = Done (r, ?sh, w1)"
      using p(1) rl True E by (simp add: newCommand_def Let_def)
    moreover have "inv D1 (N1 - 24) w1" using less [OF p(3)] by simp
    ultimately show ?thesis
      using p(2) n(3) True h assms(4)
      by (intro exI [of _ r] exI [of _ ?sh] exI [of _ w1] exI [of _ D1]) (simp add: record_line_def)
  next
    case False
    have c: "c_str cmd = Some ?t" "NUL \<notin> set ?t" using assms(5) by (simp_all add: c_str_def string_ok_def)
    have "Suc (length (vector_list (history sh))) \<le> 10"
      using assms(9) False by (auto simp: record_line_def hist_texts_def split: if_splits)
    then have "v_size (history sh) < 10" by (simp add: word_less_nat_alt)
    from push_string_run [OF p(3) assms(4) this c(2) assms(6) n(2), of "env_copy E"] obtain v' w' D where
      v: "with_heap (push_string (env_copy E) (Some ?t) (history sh)) w1 = Done (v', w')" "D1 \<subseteq> D"
        "inv D (N1 - 24) w'" "hist_ok v'" "map s_text (vector_list v') = hist_texts sh @ [?t]"
        "hist_ptrs v' \<subseteq> hist_ptrs (history sh) \<union> (D - D1)" by (auto simp: hist_texts_def)
    have "newCommand E cmd sh w = Done (r, ?sh\<lparr>history := v'\<rparr>, w')"
      using p(1) rl False E v(1) c(1) by (auto simp: newCommand_def Let_def)
    moreover have "record_line (hist_texts sh) ?t = hist_texts sh @ [?t]" using False by (auto simp: record_line_def)
    moreover have "hist_ptrs v' \<subseteq> hist_ptrs (history sh) \<union> (D - C)" using v(6) p(2) by blast
    ultimately show ?thesis
      using v p(2) n(3)
      by (intro exI [of _ r] exI [of _ "?sh\<lparr>history := v'\<rparr>"] exI [of _ w'] exI [of _ D]) (auto simp: hist_texts_def)
  qed
qed

section \<open>Sessions\<close>

lemma enter_run:
  assumes E: "env_ipc E = I" "env_endpoint E = ep"
    and "line_inv sh l" "NUL \<notin> set l" "l \<noteq> []" "safe_line l" "inv C N w" "hist_ok (history sh)"
    and "hist_ptrs (history sh) \<subseteq> C" "line_cost l \<le> N" "length (record_line (hist_texts sh) l) \<le> 10"
  shows "\<exists>sh' w'. onChar E (CHR 0x0D) sh w = Done (sh', w') \<and> shell_left inv C (N - line_cost l) sh sh' w' \<and>
    hist_texts sh' = record_line (hist_texts sh) l"
proof -
  have len: "length l \<le> 255" using assms(3) by (simp add: line_inv_def BufferSize_def)
  have n: "9 \<le> N" "42 + asked_chunks l \<le> N - 9" "N - 9 - 42 - asked_chunks l = N - line_cost l"
    using assms(10) by (simp_all add: line_cost_def)
  from alloc_text [OF assms(7) len n(1)] obtain p h where
    p: "kmalloc (of_nat (length l) + 1) (w_heap w) = Done (p, h)" "p \<noteq> 0" "p \<notin> C"
      "inv (insert p C) (N - 9) (w\<lparr>w_heap := h\<rparr>)" .
  define cmd where "cmd = \<lparr>s_ptr = p, s_text = l, s_size = of_nat (length l)\<rparr>"
  define sh1 where "sh1 = sh\<lparr>buffer := (buffer sh)[length l := NUL]\<rparr>"
  have cmd: "string_ok cmd" "s_text cmd = l" using p(2) assms(4) len by (simp_all add: cmd_def string_ok_def)
  have h1: "history sh1 = history sh" "hist_texts sh1 = hist_texts sh" by (simp_all add: sh1_def hist_texts_def)
  from newCommand_run [OF E p(4), of sh1 cmd] cmd h1 assms(6,8,11) len n(2) obtain r sh2 w2 D where
    c: "newCommand E cmd sh1 (w\<lparr>w_heap := h\<rparr>) = Done (r, sh2, w2)" "insert p C \<subseteq> D"
      "inv D (N - 9 - 42 - asked_chunks l) w2" "hist_ok (history sh2)" "hist_texts sh2 = record_line (hist_texts sh) l"
      "hist_ptrs (history sh2) \<subseteq> hist_ptrs (history sh) \<union> (D - insert p C)" by auto
  from free_law [OF c(3) [unfolded n(3)], of p] c(2) obtain h' where
    f: "kfree p (w_heap w2) = Done h'" "inv (D - {p}) (N - line_cost l) (w2\<lparr>w_heap := h'\<rparr>)" by auto
  have "onChar E (CHR 0x0D) sh w = Done (clear_buffer sh2, w2\<lparr>w_heap := h'\<rparr>)"
    using onChar_enter(2) [OF assms(3,4,5) p(1,2), of E] c(1) f(1) by (simp add: cmd_def sh1_def)
  moreover have cb: "history (clear_buffer sh2) = history sh2" by (simp add: clear_buffer_def)
  moreover have "shell_left inv C (N - line_cost l) sh (clear_buffer sh2) (w2\<lparr>w_heap := h'\<rparr>)"
    unfolding shell_left_def shell_ready_def cb
  proof (intro exI conjI)
    show "C \<subseteq> D - {p}" using c(2) p(3) by blast
    show "hist_ptrs (history sh2) \<subseteq> D - {p}" using c(2,6) assms(9) p(3) by blast
    show "hist_ptrs (history sh2) \<subseteq> hist_ptrs (history sh) \<union> (D - {p} - C)" using c(6) by blast
  qed (use f(2) c(4) onChar_enter(3) [OF assms(3,4)] in simp_all)
  ultimately show ?thesis using c(5) by (auto simp: hist_texts_def)
qed

lemma onChars_append:
  "onChars E (xs @ ys) sh w = and_then (onChars E xs sh w) (\<lambda>(sh, w). onChars E ys sh w)"
  by (induction xs arbitrary: sh w) (auto simp: and_then_assoc split_def)

lemma edit_set: "set (foldl edit l ks) \<subseteq> set l \<union> set ks"
proof (induction ks arbitrary: l)
  case (Cons c ks)
  have "set (edit l c) \<subseteq> set l \<union> {c}" by (auto simp: edit_def dest: in_set_butlastD)
  then show ?case using Cons [of "edit l c"] by auto
qed simp

lemma line_run:
  assumes E: "env_ipc E = I" "env_endpoint E = ep"
    and ready: "shell_ready inv C N sh w" and keys: "safe_keys ks"
    and "sum_list (map line_cost (session_lines [ks])) \<le> N"
    and "length (foldl record_line (hist_texts sh) (session_lines [ks])) \<le> 10"
  shows "\<exists>sh' w'. onChars E (ks @ [CHR 0x0D]) sh w = Done (sh', w') \<and>
    shell_left inv C (N - sum_list (map line_cost (session_lines [ks]))) sh sh' w' \<and>
    hist_texts sh' = foldl record_line (hist_texts sh) (session_lines [ks])"
proof -
  let ?l = "typed ks"
  from ready have r: "line_inv sh []" "hist_ok (history sh)" "inv C N w" "hist_ptrs (history sh) \<subseteq> C"
    by (simp_all add: shell_ready_def)
  have k: "CHR 0x0D \<notin> set ks" "safe_line ?l" "NUL \<notin> set ?l"
    using keys edit_set [of "[]" ks] by (auto simp: safe_keys_def typed_def)
  from onChars_edit [OF r(1) k(1), of E w] obtain sh1 where
    s: "onChars E ks sh w = Done (sh1, w)" "line_inv sh1 ?l" "history sh1 = history sh"
    by (auto simp: typed_def)
  then have t: "hist_texts sh1 = hist_texts sh" by (simp add: hist_texts_def)
  show ?thesis
  proof (cases "?l = []")
    case True
    let ?sh = "clear_buffer (sh1\<lparr>buffer := (buffer sh1)[length ?l := NUL]\<rparr>)"
    have "onChars E (ks @ [CHR 0x0D]) sh w = Done (?sh, w)"
      using onChar_enter(1) [OF s(2) k(3) True, of E w] s(1) by (simp add: onChars_append)
    moreover have "shell_left inv C N sh ?sh w" "hist_texts ?sh = hist_texts sh"
      using onChar_enter(3) [OF s(2) k(3)] r s(3)
      by (auto simp: shell_left_def shell_ready_def hist_texts_def clear_buffer_def intro!: exI [of _ C])
    ultimately show ?thesis using True by (simp add: session_lines_def)
  next
    case False
    from enter_run [OF E s(2) k(3) False k(2) r(3)] r(2,4) s(3) t assms(5,6) False obtain sh' w' where
      "onChar E (CHR 0x0D) sh1 w = Done (sh', w')" "shell_left inv C (N - line_cost ?l) sh1 sh' w'"
      "hist_texts sh' = record_line (hist_texts sh) ?l" by (auto simp: session_lines_def)
    then show ?thesis using s(1,3) False by (simp add: onChars_append session_lines_def shell_left_def)
  qed
qed

lemma record_line_length: "length H \<le> length (foldl record_line H ls)"
proof (induction ls arbitrary: H)
  case (Cons l ls)
  have "length H \<le> length (record_line H l)" by (simp add: record_line_def)
  also have "\<dots> \<le> length (foldl record_line (record_line H l) ls)" by (rule Cons)
  finally show ?case by simp
qed simp

lemma session_run:
  assumes E: "env_ipc E = I" "env_endpoint E = ep"
    and "shell_ready inv C N sh w" "\<forall>ks \<in> set kss. safe_keys ks"
    and "sum_list (map line_cost (session_lines kss)) \<le> N"
    and "length (foldl record_line (hist_texts sh) (session_lines kss)) \<le> 10"
  shows "\<exists>sh' w'. onChars E (session_keys kss) sh w = Done (sh', w') \<and>
    shell_left inv C (N - sum_list (map line_cost (session_lines kss))) sh sh' w' \<and>
    hist_texts sh' = foldl record_line (hist_texts sh) (session_lines kss)"
  using assms(3-6)
proof (induction kss arbitrary: C N sh w)
  case Nil
  then show ?case
    by (auto simp: session_keys_def session_lines_def shell_left_def shell_ready_def intro!: exI [of _ C])
next
  case (Cons ks kss)
  have l: "session_lines (ks # kss) = session_lines [ks] @ session_lines kss" by (simp add: session_lines_def)
  define n where "n = sum_list (map line_cost (session_lines [ks]))"
  define H where "H = foldl record_line (hist_texts sh) (session_lines [ks])"
  have "n \<le> N" "length H \<le> 10"
    using Cons.prems(3,4) record_line_length [of H "session_lines kss"] by (simp_all add: l n_def H_def)
  with line_run [OF E Cons.prems(1), of ks] Cons.prems(2) obtain sh1 w1 where
    s: "onChars E (ks @ [CHR 0x0D]) sh w = Done (sh1, w1)" "shell_left inv C (N - n) sh sh1 w1" "hist_texts sh1 = H"
    by (auto simp: n_def H_def)
  from s(2) obtain D where D: "C \<subseteq> D" "shell_ready inv D (N - n) sh1 w1"
    "hist_ptrs (history sh1) \<subseteq> hist_ptrs (history sh) \<union> (D - C)" by (auto simp: shell_left_def)
  have "\<exists>sh' w'. onChars E (session_keys kss) sh1 w1 = Done (sh', w') \<and>
      shell_left inv D (N - n - sum_list (map line_cost (session_lines kss))) sh1 sh' w' \<and>
      hist_texts sh' = foldl record_line (hist_texts sh1) (session_lines kss)"
    by (rule Cons.IH [OF D(2)]) (use Cons.prems in \<open>simp_all add: l n_def H_def s(3)\<close>)
  then obtain sh' w' where e: "onChars E (session_keys kss) sh1 w1 = Done (sh', w')"
    "shell_left inv D (N - n - sum_list (map line_cost (session_lines kss))) sh1 sh' w'"
    "hist_texts sh' = foldl record_line (hist_texts sh1) (session_lines kss)" by blast
  from e(2) obtain D' where "D \<subseteq> D'" "shell_ready inv D' (N - n - sum_list (map line_cost (session_lines kss))) sh' w'"
    "hist_ptrs (history sh') \<subseteq> hist_ptrs (history sh1) \<union> (D' - D)" by (auto simp: shell_left_def)
  then have "shell_left inv C (N - n - sum_list (map line_cost (session_lines kss))) sh sh' w'"
    unfolding shell_left_def using D(1,3) by (intro exI [of _ D']) blast
  moreover have "session_keys (ks # kss) = (ks @ [CHR 0x0D]) @ session_keys kss" by (simp add: session_keys_def)
  then have "onChars E (session_keys (ks # kss)) sh w = onChars E (session_keys kss) sh1 w1"
    using s(1) onChars_append [of E "ks @ [CHR 0x0D]" "session_keys kss" sh w] by simp
  ultimately show ?case using e(1,3) by (simp add: l s(3) H_def n_def)
qed

end

end
