(* ===== verification/Heap_Room.thy ===== *)
theory Heap_Room
  imports Kmalloc_Props
begin

text \<open>
  How much room the heap has: a run of free chunks, which every allocation shortens by at most the
  chunks it takes, whatever the first fit chooses, and which no release shortens. A client that adds
  up what it asks for so knows that its requests are met.
\<close>

definition room :: "nat \<Rightarrow> kheap \<Rightarrow> bool" where
  "room N h \<longleftrightarrow> (\<exists>fs bs u. heap_ready h fs bs \<and> free_run fs N u)"

lemma free_run_mono: "free_run fs N u \<Longrightarrow> M \<le> N \<Longrightarrow> free_run fs M u"
  by (auto simp: free_run_def subset_iff)

lemma room_mono: "room N h \<Longrightarrow> M \<le> N \<Longrightarrow> room M h"
  unfolding room_def using free_run_mono by blast

lemma heap_ready_room: "heap_ready h [t..<t + N] bs \<Longrightarrow> room N h"
  unfolding room_def free_run_def by (intro exI [of _ "[t..<t + N]"] exI [of _ bs] exI [of _ t]) simp

section \<open>The free list of a heap\<close>

lemma chain_unique:
  "links m (x # map CPool fs @ [CTail]) \<Longrightarrow> links m (x # map CPool gs @ [CTail]) \<Longrightarrow> fs = gs"
proof (induction fs arbitrary: x gs)
  case Nil
  then show ?case by (cases gs) auto
next
  case (Cons i fs)
  then obtain js where "gs = i # js" by (cases gs) auto
  then show ?case using Cons by auto
qed

lemma free_list_unique:
  assumes "heap_ready h fs bs" "heap_ready h gs cs"
  shows "fs = gs"
proof (cases "initialized h")
  case True
  then have "free_list h fs" "free_list h gs"
    using assms by (auto simp: heap_ready_def heap_state_def heap_inv_def)
  then show ?thesis using chain_unique [of "mem h" CHead fs gs] by (simp add: free_list_def)
qed (use assms in \<open>auto simp: heap_ready_def heap_state_def\<close>)

section \<open>Allocation and release\<close>

lemma first_fit_keeps_run:
  assumes "free_run fs N u" "n \<le> N" "t \<le> u"
  shows "free_run (filter (\<lambda>i. i \<notin> {t..<t + n}) fs) (N - n) (max u (t + n))"
proof -
  have "max u (t + n) + (N - n) \<le> u + N" using assms(2,3) by simp
  then show ?thesis using assms(1) by (auto simp: free_run_def)
qed

lemma room_alloc:
  assumes "room N h" "countable_size z"
  shows "\<exists>p h'. kmalloc z h = Done (p, h') \<and> room (N - chunks_for z) h' \<and> (0 < chunks_for z \<longrightarrow> chunks_for z \<le> N \<longrightarrow> p \<noteq> 0)"
proof -
  let ?n = "chunks_for z"
  obtain fs bs u where r: "heap_ready h fs bs" "free_run fs N u" using assms(1) by (auto simp: room_def)
  have n: "chunk_count z = Some ?n" using assms(2) by (simp add: countable_size_def chunk_count_ends)
  have so: "sorted_wrt (<) fs" using r(1) heap_state_parts(1) by (auto simp: heap_ready_def)
  show ?thesis
  proof (cases "first_fit ?n 0 (hd fs) fs")
    case None
    from kmalloc_no_fit [OF r(1) n None] obtain h' where
      k: "kmalloc z h = Done (0, h')" "heap_ready h' fs bs" by blast
    have "\<not> (0 < ?n \<and> ?n \<le> N)"
    proof
      assume le: "0 < ?n \<and> ?n \<le> N"
      then have "\<not> free_run fs ?n u" using first_fit_cases(1) [OF so, of ?n] None by auto
      then show False using r(2) le by (auto simp: free_run_def subset_iff)
    qed
    moreover have "room N h'" using k(2) r(2) by (auto simp: room_def)
    then have "room (N - ?n) h'" by (rule room_mono) simp
    ultimately show ?thesis using k(1) by blast
  next
    case (Some t)
    from kmalloc_fit [OF r(1) n Some] obtain h' where
      k: "kmalloc z h = Done (data_addr h (CPool t), h')"
        "heap_ready h' (filter (\<lambda>i. i \<notin> {t..<t + ?n}) fs) ((t, ?n, z) # bs)" "0 < ?n" "free_run fs ?n t" by blast
    have "data_addr h (CPool t) \<noteq> 0"
    proof (rule data_addr_nonzero)
      show "pool_ok h" using r(1) by (simp add: heap_ready_def)
      have "t \<in> set fs" using k(3,4) by (auto simp: free_run_def subset_iff)
      then show "t < chunk_max h" using heap_state_parts(3) [of h fs bs] r(1) by (simp add: heap_ready_def)
    qed
    moreover have "room (N - ?n) h'"
    proof (cases "?n \<le> N")
      case True
      then have "free_run fs ?n u" using r(2) by (auto simp: free_run_def)
      then have "t \<le> u" by (rule first_fit_cases(2) [OF so k(3) Some])
      from first_fit_keeps_run [OF r(2) True this] k(2) show ?thesis unfolding room_def by blast
    next
      case False
      then show ?thesis using k(2) by (auto simp: room_def free_run_def)
    qed
    ultimately show ?thesis using k(1) by blast
  qed
qed

lemma room_free:
  assumes "room N h" "locked_inv h bs" "p \<in> block_addr h ` set bs" "kfree p h = Done h'"
  shows "room N h'"
proof -
  obtain fs bs' u where r: "heap_ready h fs bs'" "free_run fs N u" using assms(1) by (auto simp: room_def)
  obtain gs where g: "heap_ready h gs bs" using assms(2) by (auto simp: locked_inv_def)
  obtain t n z where b: "(t, n, z) \<in> set bs" "p = data_addr h (CPool t)" using assms(3) by auto
  have "heap_ready h fs bs" using g free_list_unique [OF r(1) g] by simp
  from kfree_live_block [OF this b(1)] assms(4) b(2) have
    "heap_ready h' (put_back fs t n) (remove1 (t, n, z) bs)" by auto
  moreover have "free_run (put_back fs t n) N u" using r(2) by (auto simp: free_run_def put_back_def)
  ultimately show ?thesis by (auto simp: room_def)
qed

end
