(* ===== verification/Console.thy ===== *)
theory Console
  imports Startup_Props Shell_Client Heap_Room
begin

text \<open>
  The console: the shell as a client of the root server, with which it shares the kernel heap. Its
  line buffer, commands and history run against the server's own steps; a line that asks for nothing
  the allocator or the shell cannot take leaves the system in its invariant.
\<close>

section \<open>Shell and server together\<close>

text \<open>The kernel between them, on the heap and the rest of the server.\<close>

definition console_ipc ::
    "kernel \<Rightarrow> (u64 \<Rightarrow> fault) \<Rightarrow> (msg_info \<Rightarrow> mregs \<Rightarrow> mregs) \<Rightarrow> u64 \<Rightarrow> root_state shell_ipc" where
  "console_ipc K fault_of transfer sender =
     \<lparr>ipc_call = (\<lambda>ep info mr (h, s).
        and_then (ipc_call (root_ipc K fault_of transfer sender) ep info mr (s\<lparr>heap := h\<rparr>)) (\<lambda>(info, mr, s).
        Done (info, mr, heap s, s))),
      ipc_send = (\<lambda>ep info mr (h, s).
        and_then (ipc_send (root_ipc K fault_of transfer sender) ep info mr (s\<lparr>heap := h\<rparr>)) (\<lambda>s.
        Done (heap s, s)))\<rparr>"

definition view :: "root_state world \<Rightarrow> root_state" where
  "view w = (w_rest w)\<lparr>heap := w_heap w\<rparr>"

lemma view_simps [simp]: "view (w\<lparr>w_heap := h\<rparr>) = (view w)\<lparr>heap := h\<rparr>" "heap (view w) = w_heap w"
  by (simp_all add: view_def)

lemma perform_call_console:
  "perform_call (console_ipc K fault_of transfer sender) ep b mr (h, s) =
    and_then (perform_call (root_ipc K fault_of transfer sender) ep b mr (s\<lparr>heap := h\<rparr>)) (\<lambda>(r, mr, s).
    Done (r, mr, heap s, s))"
  by (cases b) (simp_all add: perform_kmalloc_def perform_kfree_def perform_mmap_def perform_thread_def
      perform_debug_def performBase_def console_ipc_def Let_def and_then_assoc split_def)

text \<open>
  The system's invariant with room for \<open>N\<close> chunks, over a kernel that delivers messages, for a shell
  that runs as a registered thread.
\<close>

definition console_inv ::
    "(u64 \<Rightarrow> fault) \<Rightarrow> (msg_info \<Rightarrow> mregs \<Rightarrow> mregs) \<Rightarrow> u64 \<Rightarrow> u64 set \<Rightarrow> nat \<Rightarrow> root_state world \<Rightarrow> bool" where
  "console_inv fault_of transfer sender C N w \<longleftrightarrow>
     delivers transfer \<and> fault_of 0 = NullFault \<and> table_get sender (view w) \<noteq> 0 \<and>
     sys_inv (view w) C \<and> room N (w_heap w)"

lemma table_get_heap [simp]: "table_get b (s\<lparr>heap := h\<rparr>) = table_get b s"
  by (rule table_get_cong) (simp_all add: table_list_def)

lemma console_alloc:
  assumes "console_inv fault_of transfer sender C N w" "countable_size z"
  obtains p h where "kmalloc z (w_heap w) = Done (p, h)" "p \<notin> C \<or> p = 0"
    "0 < chunks_for z \<and> chunks_for z \<le> N \<longrightarrow> p \<noteq> 0"
    "console_inv fault_of transfer sender (C \<union> ({p} - {0})) (N - chunks_for z) (w\<lparr>w_heap := h\<rparr>)"
proof -
  have i: "sys_inv (view w) C" "room N (w_heap w)" using assms(1) by (simp_all add: console_inv_def)
  from room_alloc [OF i(2) assms(2)] obtain p h where
    k: "kmalloc z (w_heap w) = Done (p, h)" "room (N - chunks_for z) h"
      "0 < chunks_for z \<and> chunks_for z \<le> N \<longrightarrow> p \<noteq> 0" by auto
  from served_inv [OF i(1), of "KMallocRequest z"] assms(2) obtain v s' where
    "served undefined (KMallocRequest z) (view w) = Done (v, s')" "sys_inv s' (client_holds (KMallocRequest z) v C)"
    by auto
  then have "sys_inv ((view w)\<lparr>heap := h\<rparr>) (C \<union> ({p} - {0}))" using k(1) by auto
  moreover have "heap_holds (set (table_list (view w)) \<union> C) (view w)" using i(1) by (simp add: sys_inv_def)
  then have "p \<noteq> 0 \<Longrightarrow> p \<notin> set (table_list (view w)) \<union> C \<and> p \<noteq> v_data (threads (view w))"
    by (rule kmalloc_keeps_table(2) [OF _ assms(2)]) (simp_all add: k(1))
  then have "p \<notin> C \<or> p = 0" by blast
  moreover have "console_inv fault_of transfer sender (C \<union> ({p} - {0})) (N - chunks_for z) (w\<lparr>w_heap := h\<rparr>)"
    using assms(1) k(2) \<open>sys_inv ((view w)\<lparr>heap := h\<rparr>) (C \<union> ({p} - {0}))\<close> by (simp add: console_inv_def)
  ultimately show ?thesis using k(1,3) by (intro that) simp_all
qed

lemma console_free:
  assumes "console_inv fault_of transfer sender C N w" "p \<in> C"
  shows "\<exists>h. kfree p (w_heap w) = Done h \<and> console_inv fault_of transfer sender (C - {p}) N (w\<lparr>w_heap := h\<rparr>)"
proof -
  have i: "sys_inv (view w) C" "room N (w_heap w)" using assms(1) by (simp_all add: console_inv_def)
  from served_inv [OF i(1), of "KFreeRequest p"] assms(2) obtain h where
    k: "kfree p (w_heap w) = Done h" "sys_inv ((view w)\<lparr>heap := h\<rparr>) (C - {p})"
    by (auto simp: and_then_Done_iff)
  obtain bs where "locked_inv (w_heap w) bs" "p \<in> block_addr (w_heap w) ` set bs"
    using i(1) assms(2) by (auto simp: sys_inv_def heap_holds_def simp del: block_addr.simps)
  from room_free [OF i(2) this k(1)] show ?thesis using k assms(1) by (simp add: console_inv_def)
qed

text \<open>A system call of the shell is what the request means to the server.\<close>

lemma console_served:
  assumes "console_inv fault_of transfer sender C N w" "allowed b C"
    and "served K b (view w) = Done (v, s)"
  shows "\<exists>mr. do_perform (\<lambda>b. perform_call (console_ipc K fault_of transfer sender) ep b) b w =
    Done (success v False, \<lparr>w_mr = mr, w_heap = heap s, w_rest = s\<rparr>)"
proof -
  have "b \<noteq> BaseRequest" using assms(2) by auto
  then have "and_then (perform_call (root_ipc K fault_of transfer sender) ep b (w_mr w) (view w)) (\<lambda>(r, mr, s). Done (r, s)) =
      Done (success v False, s)"
    using perform_call_served [of transfer fault_of sender "view w" b K ep "w_mr w"] assms(1,3)
    by (simp add: console_inv_def)
  then obtain mr where "perform_call (root_ipc K fault_of transfer sender) ep b (w_mr w) (view w) =
      Done (success v False, mr, s)" by (auto simp: and_then_Done_iff)
  then show ?thesis
    unfolding do_perform_def perform_call_console view_def by (intro exI [of _ mr]) simp
qed

lemma view_served [simp]: "view \<lparr>w_mr = mr, w_heap = heap s, w_rest = s\<rparr> = s"
  by (simp add: view_def)

lemma console_keeps:
  assumes "console_inv fault_of transfer sender C N w" "allowed b C"
    and "served K b (view w) = Done (v, s)" "heap s = w_heap w" "sys_inv s C" "table_get sender s = table_get sender (view w)"
  shows "kept_by (console_inv fault_of transfer sender) C N
    (do_perform (\<lambda>b. perform_call (console_ipc K fault_of transfer sender) ep b) b w)"
proof -
  from console_served [OF assms(1-3), of ep] obtain mr where
    "do_perform (\<lambda>b. perform_call (console_ipc K fault_of transfer sender) ep b) b w =
      Done (success v False, \<lparr>w_mr = mr, w_heap = heap s, w_rest = s\<rparr>)" ..
  moreover have "console_inv fault_of transfer sender C N \<lparr>w_mr = mr, w_heap = heap s, w_rest = s\<rparr>"
    using assms(1,5,6) unfolding console_inv_def view_served by (simp add: assms(4))
  ultimately show ?thesis unfolding kept_by_def by blast
qed

interpretation rooted: shell_server "console_ipc K fault_of transfer sender" ep "console_inv fault_of transfer sender"
  for K fault_of transfer sender ep
proof
  let ?inv = "console_inv fault_of transfer sender"
  let ?I = "console_ipc K fault_of transfer sender"
  fix C N and w :: "root_state world"
  assume i: "?inv C N w"
  show "?inv C M w" if "M \<le> N" for M using i room_mono that by (auto simp: console_inv_def)
  show "\<exists>p h. kmalloc z (w_heap w) = Done (p, h) \<and> p \<noteq> 0 \<and> p \<notin> C \<and>
      ?inv (insert p C) (N - chunks_for z) (w\<lparr>w_heap := h\<rparr>)"
    if "countable_size z" "0 < chunks_for z" "chunks_for z \<le> N" for z
  proof -
    from console_alloc [OF i that(1)] obtain p h where k: "kmalloc z (w_heap w) = Done (p, h)" "p \<notin> C \<or> p = 0"
      "0 < chunks_for z \<and> chunks_for z \<le> N \<longrightarrow> p \<noteq> 0"
      "?inv (C \<union> ({p} - {0})) (N - chunks_for z) (w\<lparr>w_heap := h\<rparr>)" .
    then have "p \<noteq> 0" using that by blast
    moreover from this have "C \<union> ({p} - {0}) = insert p C" by auto
    ultimately show ?thesis using k by auto
  qed
  show "\<exists>h. kfree p (w_heap w) = Done h \<and> ?inv (C - {p}) N (w\<lparr>w_heap := h\<rparr>)" if "p \<in> C" for p
    by (rule console_free [OF i that])
  have s: "sys_inv (view w) C" using i by (simp add: console_inv_def)
  show "kept_by ?inv C N (do_perform (perform_thread ?I ep) (ThreadRequest op a b) w)" for op a b
  proof -
    let ?s = "thread_request K op a b (view w)"
    obtain cs where "?s = (view w)\<lparr>calls := calls (view w) @ cs,
        objs := (objs (view w))(table_get a (view w) := after_calls K (calls (view w)) cs (objs (view w) (table_get a (view w))))\<rparr>"
      using thread_request_effect [of K op a b "view w"] by blast
    then have "heap ?s = w_heap w" by simp
    then show ?thesis
      using console_keeps [OF i, of "ThreadRequest op a b" K BaseResponse ?s ep] sys_inv_thread_request [OF s]
      by (simp add: thread_request_table do_perform_def)
  qed
  show "kept_by ?inv C N (do_perform (perform_debug ?I ep) (DebugRequest op) w)" for op
    using console_keeps [OF i, of "DebugRequest op" K BaseResponse "view w" ep] s by (simp add: do_perform_def)
  show "kept_by ?inv C N (do_perform (perform_mmap ?I ep) (MMapRequest n) w)" for n
    using console_keeps [OF i, of "MMapRequest n" K "MMapResponse 12345" "view w" ep] s by (simp add: do_perform_def)
  show "kept_by ?inv C (N - chunks_for z) (do_perform (perform_kmalloc ?I ep) (KMallocRequest z) w)"
    if "countable_size z" for z
  proof -
    from console_alloc [OF i that] obtain p h where
      k: "kmalloc z (w_heap w) = Done (p, h)" "?inv (C \<union> ({p} - {0})) (N - chunks_for z) (w\<lparr>w_heap := h\<rparr>)" by blast
    from console_served [OF i, of "KMallocRequest z" K "KMallocResponse p" "(view w)\<lparr>heap := h\<rparr>" ep] k(1) that
    obtain mr where "do_perform (perform_kmalloc ?I ep) (KMallocRequest z) w =
      Done (success (KMallocResponse p) False, \<lparr>w_mr = mr, w_heap = h, w_rest = (view w)\<lparr>heap := h\<rparr>\<rparr>)"
      by (auto simp: do_perform_def)
    moreover have "?inv (C \<union> ({p} - {0})) (N - chunks_for z) \<lparr>w_mr = mr, w_heap = h, w_rest = (view w)\<lparr>heap := h\<rparr>\<rparr>"
      using k(2) view_served [of mr "(view w)\<lparr>heap := h\<rparr>"] by (simp add: console_inv_def)
    ultimately show ?thesis unfolding kept_by_def by blast
  qed
qed

section \<open>Room after start-up\<close>

lemma room_kmalloc:
  assumes "room N h" "countable_size z" "kmalloc z h = Done (p, h')"
  shows "room (N - chunks_for z) h'"
  using room_alloc [OF assms(1,2)] assms(3) by auto

lemma root_shell: "factory_state.more s' = factory_state.more s \<Longrightarrow> rs_shell s' = rs_shell s"
  for s s' :: root_state by (cases s, cases s', simp)

text \<open>A thread table that has at most \<open>k\<close> threads in its first block.\<close>

definition young :: "nat \<Rightarrow> 'a vector \<Rightarrow> bool" where
  "young k v \<longleftrightarrow> (v_data v = 0 \<and> v_reservation v = 0 \<and> v_size v = 0) \<or>
     (v_data v \<noteq> 0 \<and> v_reservation v = 10 \<and> unat (v_size v) \<le> k)"

lemma table_add_room:
  assumes "table_add copy t s = Done s'" "room N (heap s)" "young k (threads s)" "k < 10"
  shows "room (N - 6) (heap s') \<and> young (Suc k) (threads s') \<and> rs_shell s' = rs_shell s"
proof -
  from assms(1) obtain v h where
    pb: "push_back (krealloc copy) sizeof_shared_ptr t (threads s) (heap s) = Done (v, h)"
    and s': "s' = s\<lparr>threads := v, heap := h\<rparr>" by (auto simp: table_add_def and_then_Done_iff)
  from pb obtain v1 where r: "doRealloc (krealloc copy) sizeof_shared_ptr (threads s) (heap s) = Done (v1, h)"
    and v: "v = v1\<lparr>v_elems := (v_elems v1)(unat (v_size v1) := t), v_size := v_size v1 + 1\<rparr>"
    and ib: "in_block sizeof_shared_ptr v1 (v_size v1)"
    by (auto simp: push_back_def and_then_Done_iff split: if_splits)
  have c: "chunks_for 160 = 6" "countable_size 160"
    by (simp add: chunks_for_def info_size_def, rule countable_small) simp
  show ?thesis
  proof (cases "v_data (threads s) = 0")
    case True
    then have z: "v_reservation (threads s) = 0" "v_size (threads s) = 0" using assms(3) by (auto simp: young_def)
    with True r obtain p where k: "kmalloc 160 (heap s) = Done (p, h)"
      "v1 = (threads s)\<lparr>v_reservation := 10, v_data := p\<rparr>"
      by (auto simp: doRealloc_def krealloc_null sizeof_shared_ptr_def and_then_Done_iff Let_def)
    have "p \<noteq> 0" using ib k(2) by (simp add: in_block_def)
    then show ?thesis using room_kmalloc [OF assms(2) c(2) k(1)] k(2) z by (simp add: s' v c(1) young_def)
  next
    case False
    then have z: "v_reservation (threads s) = 10" "unat (v_size (threads s)) \<le> k" using assms(3) by (auto simp: young_def)
    then have "\<not> 10 \<le> v_size (threads s)" using assms(4) by (simp add: word_le_nat_alt)
    then have "v1 = threads s" "h = heap s" using r False z by (simp_all add: doRealloc_def)
    moreover from this have "unat (v_size v1 + 1) = unat (v_size v1) + 1" using z assms(4) by (simp add: unat_word_ariths)
    ultimately show ?thesis using False z room_mono [OF assms(2)] by (simp add: s' v young_def)
  qed
qed

text \<open>The chunks of one thread: its object, its control block, the table's first block.\<close>

definition thread_cost :: "layout \<Rightarrow> nat" where
  "thread_cost L = chunks_for (sizeof_Thread L) + chunks_for (sizeof_ControlBlock L) + 6"

lemma start_created_room:
  assumes sizes: "countable_size (sizeof_Thread L)" "countable_size (sizeof_ControlBlock L)"
    and c: "start_created K L copy tm entry nm s = Done s'"
    and "room N (heap s)" "young k (threads s)" "k < 10"
  shows "room (N - thread_cost L) (heap s') \<and> young (Suc k) (threads s') \<and> rs_shell s' = rs_shell s"
proof -
  obtain r s1 where 1: "root_createThread K L copy entry s = Done (r, s1)"
    using c by (auto simp: start_created_def and_then_Done_iff)
  then obtain s2 where 2: "createThread K L (tcbBadgeCounter s) entry (apiEndpoint s) (s\<lparr>tcbBadgeCounter := tcbBadgeCounter s + 1\<rparr>) = Done (r, s2)"
    and t: "if to_bool r then table_add copy (exp_value r) s2 = Done s1 else s1 = s2"
    by (auto simp: root_createThread_def and_then_Done_iff Let_def split: if_splits)
  let ?N = "N - chunks_for (sizeof_Thread L) - chunks_for (sizeof_ControlBlock L)"
  from createThread_effect [OF 2] have m: "factory_state.more s2 = factory_state.more (s\<lparr>tcbBadgeCounter := tcbBadgeCounter s + 1\<rparr>)"
    and e: "heap s2 = heap s \<or> (\<exists>p h. kmalloc (sizeof_Thread L) (heap s) = Done (p, h) \<and>
      (heap s2 = h \<or> (\<exists>c. kmalloc (sizeof_ControlBlock L) h = Done (c, heap s2))))" by auto
  have r2: "room ?N (heap s2)"
    using e
  proof (elim disjE exE conjE)
    assume "heap s2 = heap s"
    then show ?thesis using assms(4) by (simp add: room_mono)
  next
    fix p h assume k: "kmalloc (sizeof_Thread L) (heap s) = Done (p, h)" "heap s2 = h"
    then show ?thesis using room_kmalloc [OF assms(4) sizes(1) k(1)] by (simp add: room_mono)
  next
    fix p h q assume k: "kmalloc (sizeof_Thread L) (heap s) = Done (p, h)" "kmalloc (sizeof_ControlBlock L) h = Done (q, heap s2)"
    then show ?thesis using room_kmalloc [OF room_kmalloc [OF assms(4) sizes(1) k(1)] sizes(2) k(2)] by simp
  qed
  have th: "threads s2 = threads s" "rs_shell s2 = rs_shell s" using root_tail [OF m] root_shell [OF m] by simp_all
  have s1: "room (N - thread_cost L) (heap s1) \<and> young (Suc k) (threads s1) \<and> rs_shell s1 = rs_shell s"
  proof (cases "to_bool r")
    case True
    then show ?thesis using table_add_room [OF _ r2, of copy "exp_value r" s1 k] t th assms(5,6)
      by (simp add: thread_cost_def)
  next
    case False
    then have "young (Suc k) (threads s1)" "heap s1 = heap s2" "rs_shell s1 = rs_shell s"
      using t th assms(5) by (auto simp: young_def)
    then show ?thesis using room_mono [OF r2, of "N - thread_cost L"] by (simp add: thread_cost_def)
  qed
  show ?thesis
  proof (cases "to_bool r")
    case True
    let ?t = "exp_value r" and ?s2 = "setName nm (objs s1 (exp_value r)) s1"
    obtain cs where o: "on_thread (do_thread_op K (Start tm ?t)) ?t ?s2 = ?s2\<lparr>calls := calls ?s2 @ cs,
        objs := (objs ?s2)(?t := after_calls K (calls ?s2) cs (objs ?s2 ?t))\<rparr>"
      by (rule on_thread_effect)
    have "do_thread_op K (Start tm ?t) = (start_thread K tm ?t :: thread \<Rightarrow> root_state \<Rightarrow> _)" by (simp add: fun_eq_iff)
    then have "s' = ?s2\<lparr>calls := calls ?s2 @ cs,
        objs := (objs ?s2)(?t := after_calls K (calls ?s2) cs (objs ?s2 ?t))\<rparr>"
      using c 1 True o by (simp add: start_created_def Let_def)
    then show ?thesis using s1 by (simp add: setName_def)
  qed (use c 1 s1 in \<open>simp add: start_created_def\<close>)
qed

lemma run_start_room:
  assumes sizes: "countable_size (sizeof_Thread L)" "countable_size (sizeof_ControlBlock L)"
    and r: "run_start K L copy tm s = Done s'" and "room N (heap s)" "young 0 (threads s)"
  shows "room (N - 2 * thread_cost L) (heap s') \<and> rs_shell s' = rs_shell s"
proof -
  obtain s1 where 1: "start_created K L copy tm 1 ''Com1'' s = Done s1"
    and 2: "start_created K L copy tm 2 ''Test thread'' s1 = Done s'"
    using r by (auto simp: run_start_def and_then_Done_iff)
  note a = start_created_room [OF sizes 1 assms(4,5)]
  show ?thesis using start_created_room [OF sizes 2, of "N - thread_cost L" 1] a by (simp add: mult_2)
qed

text \<open>The shell of a machine that was just switched on.\<close>

definition new_shell :: "shell \<Rightarrow> bool" where
  "new_shell sh \<longleftrightarrow> bufferIndex sh = 0 \<and> (\<exists>junk. history sh = new_vector junk)"

lemma boot_shell:
  assumes "new_RootServer K s0 = Done s1" "earlyInit K mainThread s1 = Done s2"
  shows "rs_shell s2 = rs_shell s0"
proof -
  note i = init_page_table_frame [OF assms(1) [unfolded new_RootServer_def]]
  have 1: "rs_shell s1 = rs_shell s0" using root_shell [OF root_more(4) [OF i(2)]] by simp
  from assms(2) obtain sa where m: "map_pages K ReservedPages ReservedVaddr s1 = Done sa"
    by (auto simp: earlyInit_def calledFromMain_def calledFrom_def reservePages_def and_then_Done_iff Let_def)
  have a: "rs_shell sa = rs_shell s1" by (rule root_shell [OF root_more(4) [OF map_pages_effect(2) [OF m]]])
  obtain r where r: "reservePages K s1 = Done (sa\<lparr>ram := r\<rparr>)"
    using assms(2) m by (auto simp: earlyInit_def calledFromMain_def calledFrom_def reservePages_def and_then_Done_iff Let_def)
  obtain n sb where n: "createNotification K (sa\<lparr>ram := r\<rparr>) = (n, sb)" by fastforce
  have "rs_shell sb = rs_shell sa"
    using root_shell [OF root_more(4) [OF allocObject_frame(2) [OF n [unfolded createNotification_def]]]] by simp
  moreover from assms(2) obtain h where "s2 = sb\<lparr>heap := h\<rparr>"
    by (auto simp: earlyInit_def calledFromMain_def calledFrom_def r n and_then_Done_iff Let_def)
  ultimately show ?thesis using a 1 by simp
qed

lemma lateInit_shell:
  assumes "lateInit K s = Done s'"
  shows "rs_shell s' = (rs_shell s)\<lparr>buffer := replicate BufferSize NUL\<rparr>"
proof -
  obtain e s1 where 1: "createEndpoint K s = (e, s1)" by fastforce
  note f1 = root_shell [OF root_more(4) [OF allocObject_frame(2) [OF 1 [unfolded createEndpoint_def]]]]
  obtain c s2 where 2: "getFreeSlot K (s1\<lparr>apiEndpoint := exp_value e\<rparr>) = (c, s2)" by fastforce
  obtain i s3 where 3: "getFreeSlot K (s2\<lparr>calls := calls s2 @ [IOPortControl_Issue 0x3F8 (0x3F8 + 7) (exp_value c)]\<rparr>) = (i, s3)"
    by fastforce
  have "rs_shell s3 = rs_shell s" using getFreeSlot_root(3) [OF 2] getFreeSlot_root(3) [OF 3] f1 by simp
  moreover from assms 1 2 3 obtain sh h where
    "shell_init (rs_shell s3) (heap s3) = Done (sh, h)" "s' = s3\<lparr>com1port := exp_value c, rs_shell := sh, heap := h\<rparr>"
    by (auto simp: lateInit_def invoke_def Let_def and_then_Done_iff split: if_splits)
  ultimately show ?thesis by (auto simp: shell_init_def and_then_Done_iff split: if_splits)
qed

text \<open>What \<open>start_root\<close> leaves to the console: 1280 chunks less the shell's buffer and two threads.\<close>

definition console_room :: "layout \<Rightarrow> nat" where
  "console_room L = 1280 - 9 - 2 * thread_cost L"

lemma start_root_console:
  assumes "power_on b0" "new_shell (rs_shell b0)" "start_root K L copy I fault_of [] g b0 = Done (g', rs, s)"
    and sizes: "countable_size (sizeof_Thread L)" "countable_size (sizeof_ControlBlock L)"
  shows "room (console_room L) (heap s) \<and> line_inv (rs_shell s) [] \<and> hist_ok (history (rs_shell s)) \<and>
    hist_ptrs (history (rs_shell s)) = {} \<and> hist_texts (rs_shell s) = []"
proof -
  obtain junk where p: "heap b0 = kheap_static" "mappedPages b0 = 0" "threads b0 = new_vector junk"
    using assms(1) by (auto simp: power_on_def)
  obtain b1 b2 b3 where b: "new_RootServer K b0 = Done b1" "earlyInit K (main_thread I) b1 = Done b2"
    "lateInit K b2 = Done b3" "run_start K L copy (thread_main I) b3 = Done s"
    using assms(3) by (auto simp: start_root_prints run_def and_then_Done_iff)
  note e = root_boot_effect [OF b(1,2) p(1,2)]
  have "heap_ready (heap b2) [0..<0 + 1280] []" using e by simp
  then have r2: "room 1280 (heap b2)" by (rule heap_ready_room)
  obtain q where q: "kmalloc (of_nat BufferSize) (heap b2) = Done (q, heap b3)" "threads b3 = threads b2"
    using lateInit_effect [OF b(3)] by blast
  have c: "chunks_for (of_nat BufferSize) = 9" "countable_size (of_nat BufferSize)"
    by (simp add: chunks_for_def info_size_def BufferSize_def, rule countable_small) (simp add: BufferSize_def)
  have r3: "room (1280 - 9) (heap b3)" using room_kmalloc [OF r2 c(2) q(1)] by (simp add: c(1))
  have "young 0 (threads b3)" using q(2) e p(3) by (simp add: young_def new_vector_def)
  from run_start_room [OF sizes b(4) r3 this] have r: "room (console_room L) (heap s)" "rs_shell s = rs_shell b3"
    by (simp_all add: console_room_def)
  have "rs_shell s = (rs_shell b0)\<lparr>buffer := replicate BufferSize NUL\<rparr>"
    using r(2) lateInit_shell [OF b(3)] boot_shell [OF b(1,2)] by simp
  then show ?thesis
    using r(1) assms(2)
    by (auto simp: new_shell_def line_inv_def BufferSize_def hist_ok_def hist_ptrs_def hist_texts_def
        vector_list_def new_vector_def)
qed

section \<open>The console thread\<close>

text \<open>The bytes that \<open>com1_loop\<close> hands to the shell.\<close>

definition console_chars :: "u8 list \<Rightarrow> string" where
  "console_chars ds = map (\<lambda>d. char_of (unat d)) (filter (\<lambda>d. d \<noteq> 0) ds)"

lemma com1_loop_chars: "com1_loop E ds sh w = onChars E (console_chars ds) sh w"
proof (induction ds arbitrary: sh w)
  case (Cons d ds)
  then have "(\<lambda>(sh, w). com1_loop E ds sh w) = (\<lambda>(sh, w). onChars E (console_chars ds) sh w)" by (simp add: fun_eq_iff)
  then show ?case by (cases "d = 0") (simp_all add: com1_step_def console_chars_def)
qed (simp add: console_chars_def)

lemma console_chars_of:
  "NUL \<notin> set cs \<Longrightarrow> console_chars (map (\<lambda>c. of_nat (of_char c)) cs) = cs"
proof (induction cs)
  case (Cons c cs)
  let ?n = "of_char c :: nat"
  have n: "?n < 256" by simp
  have u: "unat (of_nat ?n :: u8) = ?n" using n by (simp add: unat_of_nat take_bit_nat_eq_self)
  have "?n \<noteq> of_char NUL" using Cons.prems by (metis list.set_intros(1) of_char_eq_iff)
  then have "(of_nat ?n :: u8) \<noteq> 0" using u by (auto simp: NUL_def)
  then show ?case using Cons u by (simp add: console_chars_def)
qed (simp add: console_chars_def)

definition session_cost :: "string list \<Rightarrow> nat" where
  "session_cost kss = sum_list (map line_cost (session_lines kss))"

definition history_after :: "string list \<Rightarrow> string list \<Rightarrow> string list" where
  "history_after H kss = foldl record_line H (session_lines kss)"

text \<open>The world of the console when the root server starts to wait for messages.\<close>

definition console_world :: "mregs \<Rightarrow> root_state \<Rightarrow> root_state world" where
  "console_world mr s = \<lparr>w_mr = mr, w_heap = heap s, w_rest = s\<rparr>"

lemma console_ready:
  assumes "power_on b0" "new_shell (rs_shell b0)" "start_root K L copy I fault_of [] g b0 = Done (g', rs, s0)"
    and "countable_size (sizeof_Thread L)" "countable_size (sizeof_ControlBlock L)"
    and "delivers transfer" "fault_of 0 = NullFault" "table_get sender s0 \<noteq> 0"
  shows "shell_ready (console_inv fault_of transfer sender) {} (console_room L) (rs_shell s0) (console_world mr s0)"
    "hist_texts (rs_shell s0) = []"
proof -
  note s = start_root_console [OF assms(1-5)]
  have "console_inv fault_of transfer sender {} (console_room L) (console_world mr s0)"
    using s assms(6-8) start_root_inv(1) [OF assms(1,3-5)]
    unfolding console_inv_def console_world_def view_served by simp
  then show "shell_ready (console_inv fault_of transfer sender) {} (console_room L) (rs_shell s0) (console_world mr s0)"
    "hist_texts (rs_shell s0) = []" using s by (auto simp: shell_ready_def)
qed


text \<open>A session of four lines, one of them with a correction.\<close>

definition demo_session :: "string list" where
  "demo_session = [''thread list'', ''vx'' @ [CHR 0x7F] @ ''m'', ''kmalloc 40'', ''kmalloc 40'']"

lemma demo_number: "text_number ''40'' = 40"
proof -
  have "text_at (c_mem NUL ''40'') 0 ([] @ [] @ ''40'' @ [])"
    using text_at_c_mem [of "''40''" NUL] by (simp add: NUL_def)
  from strtol_run [OF this, of 10] show ?thesis by (simp add: text_number_def digit_simps)
qed

lemma demo_typed: "map typed demo_session = [''thread list'', ''vm'', ''kmalloc 40'', ''kmalloc 40'']"
  by (simp add: demo_session_def typed_def edit_def BufferSize_def)


section \<open>The console among other clients\<close>

text \<open>
  Lines typed at the console, calls of other registered clients that hold \<open>U\<close>, and new threads, in any
  order.
\<close>

inductive console_step ::
    "kernel \<Rightarrow> layout \<Rightarrow> (u64 \<Rightarrow> u64 \<Rightarrow> u64 \<Rightarrow> u64 \<Rightarrow> kheap \<Rightarrow> kheap) \<Rightarrow> (u64 \<Rightarrow> fault) \<Rightarrow>
     (msg_info \<Rightarrow> mregs \<Rightarrow> mregs) \<Rightarrow> root_state shell_env \<Rightarrow>
     shell \<times> root_state world \<times> u64 set \<Rightarrow> shell \<times> root_state world \<times> u64 set \<Rightarrow> bool"
  for K L copy fault_of transfer E where
  line: "safe_keys ks \<Longrightarrow> room (session_cost [ks]) (w_heap w) \<Longrightarrow>
     length (history_after (hist_texts sh) [ks]) \<le> 10 \<Longrightarrow>
     onChars E (ks @ [CHR 0x0D]) sh w = Done (sh', w') \<Longrightarrow>
     console_step K L copy fault_of transfer E (sh, w, U) (sh', w', U)"
| call: "table_get c (view w) \<noteq> 0 \<Longrightarrow> allowed b U \<Longrightarrow>
     perform_call (root_ipc K fault_of transfer c) ep b mr (view w) = Done (success v e, mr', s') \<Longrightarrow>
     console_step K L copy fault_of transfer E (sh, w, U) (sh, console_world (w_mr w) s', client_holds b v U)"
| spawn: "root_createThread K L copy entry (view w) = Done (r, s') \<Longrightarrow> tcbBadgeCounter (view w) \<noteq> - 1 \<Longrightarrow>
     console_step K L copy fault_of transfer E (sh, w, U) (sh, console_world (w_mr w) s', U)"

inductive_cases console_stepE: "console_step K L copy fault_of transfer E (sh, w, U) (sh', w', U')"

definition console_state ::
    "(u64 \<Rightarrow> fault) \<Rightarrow> (msg_info \<Rightarrow> mregs \<Rightarrow> mregs) \<Rightarrow> u64 \<Rightarrow> shell \<Rightarrow> root_state world \<Rightarrow> u64 set \<Rightarrow> bool" where
  "console_state fault_of transfer sender sh w U \<longleftrightarrow>
     (\<exists>C. shell_ready (console_inv fault_of transfer sender) C 0 sh w \<and> U \<subseteq> C) \<and>
     U \<inter> hist_ptrs (history sh) = {}"

lemma sys_inv_room: "sys_inv s C \<Longrightarrow> room 0 (heap s)"
  by (auto simp: sys_inv_def heap_holds_def locked_inv_def room_def free_run_def)

lemma console_world_simps [simp]: "view (console_world mr s) = s" "w_heap (console_world mr s) = heap s"
  by (simp_all add: console_world_def)

lemma console_state_server:
  assumes "console_state fault_of transfer sender sh w U" "sys_inv s C" "table_get sender s \<noteq> 0"
    and "V \<union> hist_ptrs (history sh) \<subseteq> C" "V \<inter> hist_ptrs (history sh) = {}"
  shows "console_state fault_of transfer sender sh (console_world mr s) V"
  using assms sys_inv_room [OF assms(2)]
  by (auto simp: console_state_def shell_ready_def console_inv_def)

text \<open>A line, with the room it needs.\<close>

lemma console_line:
  assumes "console_state fault_of transfer sender sh w U" "env_ipc E = console_ipc K fault_of transfer sender"
    and "safe_keys ks" "room (session_cost [ks]) (w_heap w)" "length (history_after (hist_texts sh) [ks]) \<le> 10"
  shows "\<exists>sh' w'. onChars E (ks @ [CHR 0x0D]) sh w = Done (sh', w') \<and>
    console_state fault_of transfer sender sh' w' U \<and> hist_texts sh' = history_after (hist_texts sh) [ks]"
proof -
  obtain C where C: "shell_ready (console_inv fault_of transfer sender) C 0 sh w" "U \<subseteq> C"
    "U \<inter> hist_ptrs (history sh) = {}" using assms(1) by (auto simp: console_state_def)
  have "shell_ready (console_inv fault_of transfer sender) C (session_cost [ks]) sh w"
    using C(1) assms(4) by (simp add: shell_ready_def console_inv_def)
  from rooted.line_run [OF assms(2) refl this assms(3)] assms(5) obtain sh' w' where
    r: "onChars E (ks @ [CHR 0x0D]) sh w = Done (sh', w')"
      "shell_left (console_inv fault_of transfer sender) C (session_cost [ks] - session_cost [ks]) sh sh' w'"
      "hist_texts sh' = history_after (hist_texts sh) [ks]" by (fastforce simp: session_cost_def history_after_def)
  then have "console_state fault_of transfer sender sh' w' U"
    using C(2,3) unfolding console_state_def shell_left_def by force
  then show ?thesis using r by blast
qed

lemma console_call:
  assumes "console_state fault_of transfer sender sh w U" "table_get c (view w) \<noteq> 0" "allowed b U"
    and "perform_call (root_ipc K fault_of transfer c) ep b mr (view w) = Done (success v e, mr', s')"
  shows "console_state fault_of transfer sender sh (console_world m s') (client_holds b v U)"
proof -
  obtain C where i: "sys_inv (view w) C" "delivers transfer" "fault_of 0 = NullFault" "table_get sender (view w) \<noteq> 0"
      "U \<union> hist_ptrs (history sh) \<subseteq> C" "U \<inter> hist_ptrs (history sh) = {}"
    using assms(1) by (auto simp: console_state_def shell_ready_def console_inv_def)
  have b: "b \<noteq> BaseRequest" "allowed b C" using assms(3) i(5) by (cases b; auto)+
  have s: "served K b (view w) = Done (v, s')"
    using perform_call_served [of transfer fault_of c "view w" b K ep mr, OF i(2,3) assms(2) b(1)] assms(4)
    by (cases "served K b (view w)") auto
  from served_inv [OF i(1) b(2), of K] s have inv: "sys_inv s' (client_holds b v C)" by simp
  have t: "table_get sender s' \<noteq> 0"
    using s i(4) by (cases b) (auto simp: and_then_Done_iff thread_request_table)
  have fresh: "p \<notin> C" if "b = KMallocRequest z" "v = KMallocResponse p" "p \<noteq> 0" for z p
  proof -
    have h: "heap_holds (set (table_list (view w)) \<union> C) (view w)" using i(1) by (simp add: sys_inv_def)
    have "served K (KMallocRequest z) (view w) = Done (KMallocResponse p, s')" using s that by simp
    then obtain h' where "kmalloc z (heap (view w)) = Done (p, h')" by (auto simp: and_then_Done_iff)
    from kmalloc_keeps_table(2) [OF h _ this that(3)] show ?thesis using assms(3) that(1) by simp
  qed
  have "client_holds b v U \<union> hist_ptrs (history sh) \<subseteq> client_holds b v C \<and>
      client_holds b v U \<inter> hist_ptrs (history sh) = {}"
  proof (cases b)
    case (KMallocRequest z)
    then obtain p where "v = KMallocResponse p" using s by (auto simp: and_then_Done_iff)
    then show ?thesis using KMallocRequest fresh [of z p] i(5,6) by auto
  next
    case (KFreeRequest p)
    then have "p \<in> U" using assms(3) by simp
    then show ?thesis using KFreeRequest i(5,6) by auto
  qed (use i(5,6) in auto)
  then show ?thesis using console_state_server [OF assms(1) inv t] by blast
qed

lemma table_get_spawn:
  assumes inv: "sys_inv s C" and sizes: "countable_size (sizeof_Thread L)" "countable_size (sizeof_ControlBlock L)"
    and wrap: "tcbBadgeCounter s \<noteq> - 1" and c: "root_createThread K L copy entry s = Done (r, s')"
    and b: "table_get b s \<noteq> 0"
  shows "table_get b s' \<noteq> 0"
proof -
  have t: "table_inv s" and h: "heap_holds (set (table_list s) \<union> C) s" using inv by (auto simp: sys_inv_def)
  note g = table_get_badge [OF b]
  have o: "objs s' (table_get b s) = objs s (table_get b s)"
    and l: "set (table_list s) \<subseteq> set (table_list s')"
    using root_createThread_effect [OF h sizes c] g(2) by (auto split: if_splits)
  have d: "distinct (map (\<lambda>t. badge (objs s' t)) (table_list s'))"
    using table_inv_createThread [OF t sizes wrap c] by (auto simp: table_inv_def)
  have "table_get (badge (objs s' (table_get b s))) s' = table_get b s"
    by (rule table_get_unique [OF d]) (use l g(2) in blast)
  then show ?thesis using b g(1) o by simp
qed

lemma console_step_state:
  assumes step: "console_step K L copy fault_of transfer E (sh, w, U) (sh', w', U')"
    and st: "console_state fault_of transfer sender sh w U"
    and E: "env_ipc E = console_ipc K fault_of transfer sender"
    and sizes: "countable_size (sizeof_Thread L)" "countable_size (sizeof_ControlBlock L)"
  shows "console_state fault_of transfer sender sh' w' U'"
  using step
proof (rule console_stepE)
  fix ks assume "U' = U" "safe_keys ks" "room (session_cost [ks]) (w_heap w)"
    "length (history_after (hist_texts sh) [ks]) \<le> 10" "onChars E (ks @ [CHR 0x0D]) sh w = Done (sh', w')"
  then show ?thesis using console_line [OF st E, of ks] by auto
next
  fix c b ep mr v e mr' s'
  assume "sh' = sh" "w' = console_world (w_mr w) s'" "U' = client_holds b v U" "table_get c (view w) \<noteq> 0" "allowed b U"
    "perform_call (root_ipc K fault_of transfer c) ep b mr (view w) = Done (success v e, mr', s')"
  then show ?thesis using console_call [OF st] by blast
next
  fix entry r s'
  assume a: "sh' = sh" "w' = console_world (w_mr w) s'" "U' = U"
    "root_createThread K L copy entry (view w) = Done (r, s')" "tcbBadgeCounter (view w) \<noteq> - 1"
  obtain C where i: "sys_inv (view w) C" "table_get sender (view w) \<noteq> 0"
      "U \<union> hist_ptrs (history sh) \<subseteq> C" "U \<inter> hist_ptrs (history sh) = {}"
    using st by (auto simp: console_state_def shell_ready_def console_inv_def)
  from console_state_server [OF st spawn_inv [OF i(1) sizes a(5,4)] table_get_spawn [OF i(1) sizes a(5,4) i(2)] i(3,4)]
  show ?thesis using a by simp
qed

lemma console_reach:
  assumes "(console_step K L copy fault_of transfer E)\<^sup>*\<^sup>* x y"
    and "case x of (sh, w, U) \<Rightarrow> console_state fault_of transfer sender sh w U"
    and "env_ipc E = console_ipc K fault_of transfer sender"
    and "countable_size (sizeof_Thread L)" "countable_size (sizeof_ControlBlock L)"
  shows "case y of (sh, w, U) \<Rightarrow> console_state fault_of transfer sender sh w U"
  using assms(1,2)
proof (induction rule: rtranclp_induct)
  case (step y z)
  obtain sh w U sh' w' U' where yz: "y = (sh, w, U)" "z = (sh', w', U')" by (metis prod_cases3)
  show ?case
    using console_step_state [OF step.hyps(2) [unfolded yz] _ assms(3-5)] step.IH [OF step.prems] yz by simp
qed simp



end
