(* ===== verification/Printf_Types.thy ===== *)
theory Printf_Types
  imports Printf_Props
begin

text \<open>
  Which calls of \<open>printf\<close> return: a checker that reads the format alone gives the kinds of the
  arguments it takes, and a call returns exactly when the arguments are of these kinds.
\<close>

section \<open>The checker\<close>

datatype arg_kind = KInt | KLong | KPtr | KStr | KDouble

fun has_kind :: "vararg \<Rightarrow> arg_kind \<Rightarrow> bool" where
  "has_kind (ArgInt w) k = (k = KInt)"
| "has_kind (ArgLong w) k = (k = KLong)"
| "has_kind (ArgPtr w t) k = (k = KPtr \<or> k = KStr \<and> t \<noteq> None)"
| "has_kind (ArgDouble d) k = (k = KDouble)"

text \<open>The first arguments are of the given kinds.\<close>

fun has_kinds :: "vararg list \<Rightarrow> arg_kind list \<Rightarrow> bool" where
  "has_kinds va [] = True"
| "has_kinds [] (k # ks) = False"
| "has_kinds (a # va) (k # ks) = (has_kind a k \<and> has_kinds va ks)"

fun check_width :: "string \<Rightarrow> (arg_kind list \<times> string) outcome" where
  "check_width [] = Stuck"
| "check_width (c # fmt) =
     (if is_digit c then and_then (atoi (c # fmt)) (\<lambda>(w, fmt). Done ([], fmt))
      else if c = CHR ''*'' then Done ([KInt], fmt)
      else Done ([], c # fmt))"

fun check_precision :: "string \<Rightarrow> (arg_kind list \<times> string) outcome" where
  "check_precision [] = Stuck"
| "check_precision (c # fmt) = (if c = CHR ''.'' then check_width fmt else Done ([], c # fmt))"

definition convert_kinds :: "char \<Rightarrow> flag set \<Rightarrow> arg_kind list" where
  "convert_kinds c fl =
     (if c \<in> set ''diuxXob'' then (if FLAGS_LONG \<in> fl \<or> FLAGS_LONG_LONG \<in> fl then [KLong] else [KInt])
      else if c \<in> set ''fFeEgG'' then [KDouble]
      else if c = CHR ''c'' then [KInt]
      else if c = CHR ''s'' then [KStr]
      else if c = CHR ''p'' then [KPtr]
      else [])"

definition check_directive :: "string \<Rightarrow> (arg_kind list \<times> string) outcome" where
  "check_directive fmt =
     and_then (parse_flags {} fmt) (\<lambda>(fl, fmt).
     and_then (check_width fmt) (\<lambda>(ks1, fmt).
     and_then (check_precision fmt) (\<lambda>(ks2, fmt).
     and_then (parse_length {} fmt) (\<lambda>(fl, fmt).
     and_then (next_char fmt) (\<lambda>(c, fmt). Done (ks1 @ ks2 @ convert_kinds c fl, fmt))))))"

lemma check_width_length: "check_width fmt = Done (ks, fmt') \<Longrightarrow> length fmt' \<le> length fmt"
  by (cases fmt) (auto simp: atoi_def and_then_Done_iff split: if_splits dest!: atoi_loop_length)

lemma check_precision_length: "check_precision fmt = Done (ks, fmt') \<Longrightarrow> length fmt' \<le> length fmt"
  by (cases fmt) (auto split: if_splits dest!: check_width_length)

lemma check_directive_length:
  assumes "check_directive fmt = Done (ks, fmt')"
  shows "length fmt' < length fmt"
proof -
  obtain fl1 fmt1 ks2 fmt2 ks3 fmt3 fl4 c where
    "parse_flags {} fmt = Done (fl1, fmt1)" "check_width fmt1 = Done (ks2, fmt2)"
    "check_precision fmt2 = Done (ks3, fmt3)" "parse_length {} fmt3 = Done (fl4, c # fmt')"
    using assms by (auto simp: check_directive_def and_then_Done_iff)
  then show ?thesis
    using parse_flags_length check_width_length check_precision_length parse_length_length by fastforce
qed

function format_kinds :: "string \<Rightarrow> arg_kind list outcome" where
  "format_kinds [] = Stuck"
| "format_kinds (c # fmt) =
     (if c = NUL then Done []
      else if c \<noteq> CHR ''%'' then format_kinds fmt
      else and_then (check_directive fmt) (\<lambda>(ks, fmt). and_then (format_kinds fmt) (\<lambda>ks'. Done (ks @ ks'))))"
  by pat_completeness auto
termination by (relation "measure length") (auto dest!: check_directive_length)

section \<open>The checker and the interpreter\<close>

lemma has_kinds_append: "has_kinds va (ks @ ks') \<longleftrightarrow> has_kinds va ks \<and> has_kinds (drop (length ks) va) ks'"
  by (induction va ks rule: has_kinds.induct) auto

text \<open>
  With arguments of the kinds \<open>ks\<close>, \<open>m\<close> returns a result with \<open>P\<close>; otherwise it faults. A conversion of a
  \<open>double\<close> may fault for other reasons.
\<close>

definition takes :: "vararg list \<Rightarrow> arg_kind list \<Rightarrow> 'a outcome \<Rightarrow> ('a \<Rightarrow> bool) \<Rightarrow> bool" where
  "takes va ks m P \<longleftrightarrow> 
     (if has_kinds va ks then (\<exists>x. m = Done x \<and> P x) \<or> KDouble \<in> set ks \<and> m = Stuck else m = Stuck)"

lemma arg_takes:
  "takes va [KInt] (arg_int va) (\<lambda>(w, va'). va' = drop 1 va)"
  "takes va [KLong] (arg_long va) (\<lambda>(w, va'). va' = drop 1 va)"
  "takes va [KPtr] (arg_ptr va) (\<lambda>(w, va'). va' = drop 1 va)"
  "takes va [KStr] (arg_str va) (\<lambda>(t, va'). va' = drop 1 va)"
  "takes va [KDouble] (arg_double va) (\<lambda>(d, va'). va' = drop 1 va)"
  by (cases va; cases "hd va"; auto simp: takes_def split: option.splits)+

lemma takes_bind:
  assumes "takes va ks m P" "\<And>x. P x \<Longrightarrow> takes (drop (length ks) va) ks' (f x) Q"
  shows "takes va (ks @ ks') (and_then m f) Q"
  using assms by (fastforce simp: takes_def has_kinds_append split: if_splits)

lemma takes_map: "takes va ks m P \<Longrightarrow> (\<And>x. P x \<Longrightarrow> \<exists>y. f x = Done y \<and> Q y) \<Longrightarrow> takes va ks (and_then m f) Q"
  using takes_bind [of va ks m P "[]" f Q] by (auto simp: takes_def)

lemma takes_Done: "P x \<Longrightarrow> takes va [] (Done x) P"
  by (simp add: takes_def)

lemma check_width_Blocked [simp]: "check_width fmt \<noteq> Blocked" "check_precision fmt \<noteq> Blocked"
    "parse_flags fl fmt \<noteq> Blocked" "parse_length fl fmt \<noteq> Blocked" "next_char fmt \<noteq> Blocked"
proof -
  have a: "atoi_loop i fmt \<noteq> Blocked" for i fmt by (induction i fmt rule: atoi_loop.induct) auto
  then have w: "and_then (atoi f) g = Blocked \<longleftrightarrow> (\<exists>x. atoi f = Done x \<and> g x = Blocked)" for f and g :: "u32 \<times> string \<Rightarrow> (arg_kind list \<times> string) outcome"
    by (cases "atoi f") (auto simp: atoi_def)
  show cw: "check_width fmt \<noteq> Blocked" for fmt by (cases fmt) (auto simp: w)
  show "check_precision fmt \<noteq> Blocked" by (cases fmt) (use cw in auto)
  show "parse_flags fl fmt \<noteq> Blocked" by (induction fl fmt rule: parse_flags.induct) auto
  show "parse_length fl fmt \<noteq> Blocked" by (cases fmt; cases "tl fmt") auto
  show "next_char fmt \<noteq> Blocked" by (cases fmt) auto
qed

text \<open>\<open>width_value\<close>: what a number or an asterisk leaves of the flags.\<close>

lemma width_takes:
  "check_width fmt = Done (ks, fmt') \<Longrightarrow> takes va ks (parse_width fl fmt va)
     (\<lambda>(w, fl', fmt'', va'). fmt'' = fmt' \<and> va' = drop (length ks) va \<and> fl' \<in> {fl, fl \<union> {FLAGS_LEFT}})"
  "check_width fmt = Stuck \<Longrightarrow> parse_width fl fmt va = Stuck"
proof -
  assume c: "check_width fmt = Done (ks, fmt')"
  then obtain d r where fmt: "fmt = d # r" by (cases fmt) auto
  show "takes va ks (parse_width fl fmt va)
     (\<lambda>(w, fl', fmt'', va'). fmt'' = fmt' \<and> va' = drop (length ks) va \<and> fl' \<in> {fl, fl \<union> {FLAGS_LEFT}})"
  proof (cases "\<not> is_digit d \<and> d = CHR ''*''")
    case True
    then show ?thesis using c fmt by (auto intro!: takes_map [OF arg_takes(1)])
  next
    case False
    then show ?thesis using c fmt by (auto simp: takes_def and_then_Done_iff split: if_splits)
  qed
next
  assume "check_width fmt = Stuck"
  then show "parse_width fl fmt va = Stuck"
    by (cases fmt; cases "atoi fmt") (auto split: if_splits)
qed

lemma precision_takes:
  "check_precision fmt = Done (ks, fmt') \<Longrightarrow> takes va ks (parse_precision fl fmt va)
     (\<lambda>(w, fl', fmt'', va'). fmt'' = fmt' \<and> va' = drop (length ks) va \<and> fl' \<in> {fl, fl \<union> {FLAGS_PRECISION}})"
  "check_precision fmt = Stuck \<Longrightarrow> parse_precision fl fmt va = Stuck"
proof -
  assume c: "check_precision fmt = Done (ks, fmt')"
  then obtain d r where fmt: "fmt = d # r" by (cases fmt) auto
  show "takes va ks (parse_precision fl fmt va)
     (\<lambda>(w, fl', fmt'', va'). fmt'' = fmt' \<and> va' = drop (length ks) va \<and> fl' \<in> {fl, fl \<union> {FLAGS_PRECISION}})"
  proof (cases "d = CHR ''.''")
    case True
    with c fmt obtain e r' where r: "r = e # r'" by (cases r) auto
    show ?thesis
    proof (cases "\<not> is_digit e \<and> e = CHR ''*''")
      case True
      then show ?thesis using c fmt r \<open>d = CHR ''.''\<close> by (auto intro!: takes_map [OF arg_takes(1)])
    next
      case False
      then show ?thesis using c fmt r \<open>d = CHR ''.''\<close>
        by (auto simp: takes_def and_then_Done_iff Let_def split: if_splits)
    qed
  qed (use c fmt in \<open>auto simp: takes_def\<close>)
next
  assume "check_precision fmt = Stuck"
  then show "parse_precision fl fmt va = Stuck"
    by (cases fmt; cases "tl fmt"; cases "atoi (tl fmt)") (auto simp: Let_def split: if_splits)
qed

lemma parse_length_union:
  "parse_length fl fmt = and_then (parse_length {} fmt) (\<lambda>(S, fmt). Done (fl \<union> S, fmt))"
  by (cases fmt; cases "tl fmt") auto

lemma parse_flags_no_long:
  "parse_flags fl fmt = Done (fl', fmt') \<Longrightarrow> FLAGS_LONG \<notin> fl \<Longrightarrow> FLAGS_LONG_LONG \<notin> fl \<Longrightarrow>
    FLAGS_LONG \<notin> fl' \<and> FLAGS_LONG_LONG \<notin> fl'"
  by (induction fl fmt rule: parse_flags.induct) (auto split: if_splits)

lemma convert_kinds_flags:
  "FLAGS_LONG \<notin> fl \<Longrightarrow> FLAGS_LONG_LONG \<notin> fl \<Longrightarrow> convert_kinds c (fl \<union> S) = convert_kinds c S"
  by (simp add: convert_kinds_def)

lemma conv_integer_takes:
  "takes va (if FLAGS_LONG \<in> fl \<or> FLAGS_LONG_LONG \<in> fl then [KLong] else [KInt])
    (conv_integer out maxlen c prec width fl va st) (\<lambda>(va', r). va' = drop 1 va)"
proof -
  have s: "takes va (if FLAGS_LONG \<in> fl \<or> FLAGS_LONG_LONG \<in> fl then [KLong] else [KInt])
      (conv_signed out maxlen b prec width f va st) (\<lambda>(va', r). va' = drop 1 va)"
    if "FLAGS_LONG \<in> f \<longleftrightarrow> FLAGS_LONG \<in> fl" "FLAGS_LONG_LONG \<in> f \<longleftrightarrow> FLAGS_LONG_LONG \<in> fl" for f b
    unfolding conv_signed_def that
    by (auto intro!: takes_map [OF arg_takes(1)] takes_map [OF arg_takes(2)] simp: Let_def split_def)
  have u: "takes va (if FLAGS_LONG \<in> fl \<or> FLAGS_LONG_LONG \<in> fl then [KLong] else [KInt])
      (conv_unsigned out maxlen b prec width f va st) (\<lambda>(va', r). va' = drop 1 va)"
    if "FLAGS_LONG \<in> f \<longleftrightarrow> FLAGS_LONG \<in> fl" "FLAGS_LONG_LONG \<in> f \<longleftrightarrow> FLAGS_LONG_LONG \<in> fl" for f b
    unfolding conv_unsigned_def that
    by (auto intro!: takes_map [OF arg_takes(1)] takes_map [OF arg_takes(2)] simp: Let_def split_def)
  show ?thesis
  proof (cases "c = CHR ''i'' \<or> c = CHR ''d''")
    case True
    show ?thesis unfolding conv_integer_def Let_def split_def if_P [OF True] by (rule s [unfolded split_def]) auto
  next
    case False
    show ?thesis unfolding conv_integer_def Let_def split_def if_not_P [OF False] by (rule u [unfolded split_def]) auto
  qed
qed

lemma double_takes:
  "takes va [KDouble] (and_then (arg_double va) (\<lambda>(d, va'). and_then (of_option (f d)) (\<lambda>st. Done (va', st))))
    (\<lambda>(va', r). va' = drop (Suc 0) va)"
proof (cases va)
  case (Cons a va')
  show ?thesis
  proof (cases a)
    case (ArgDouble d)
    then show ?thesis unfolding Cons by (cases "f d") (simp_all add: takes_def)
  qed (simp_all add: Cons takes_def)
qed (simp add: takes_def)

lemma convert_takes:
  "takes va (convert_kinds c fl) (convert out maxlen c prec width fl va st)
    (\<lambda>(va', r). va' = drop (length (convert_kinds c fl)) va)"
proof (cases "c \<in> set ''diuxXob''")
  case True
  then have k: "convert_kinds c fl = (if FLAGS_LONG \<in> fl \<or> FLAGS_LONG_LONG \<in> fl then [KLong] else [KInt])"
    by (simp add: convert_kinds_def)
  have "convert out maxlen c prec width fl va st = conv_integer out maxlen c prec width fl va st"
    using True by (simp only: convert_def if_True)
  then show ?thesis using conv_integer_takes [of va fl out maxlen c prec width st]
    by (cases "FLAGS_LONG \<in> fl \<or> FLAGS_LONG_LONG \<in> fl") (simp_all only: k if_True if_False list.size One_nat_def add_0)
next
  case False
  consider "c \<in> set ''fF''" | "c \<in> set ''eEgG''" | "c = CHR ''c''" | "c = CHR ''s''" | "c = CHR ''p''"
    | "c \<notin> set ''fFeEgGcsp''" by auto
  then show ?thesis
  proof cases
    case 1
    then have k: "convert_kinds c fl = [KDouble]" by (auto simp: convert_kinds_def)
    have n: "c = CHR ''f'' \<or> c = CHR ''F''" using 1 by auto
    show ?thesis unfolding k convert_def Let_def if_not_P [OF False] if_P [OF n] by (simp add: double_takes)
  next
    case 2
    then have k: "convert_kinds c fl = [KDouble]" by (auto simp: convert_kinds_def)
    have n: "\<not> (c = CHR ''f'' \<or> c = CHR ''F'')" using 2 by auto
    show ?thesis unfolding k convert_def Let_def if_not_P [OF False] if_not_P [OF n] if_P [OF 2] by (simp add: double_takes)
  next
    case 3
    then show ?thesis by (auto simp: convert_kinds_def convert_def conv_char_def Let_def intro!: takes_map [OF arg_takes(1)])
  next
    case 4
    then show ?thesis by (auto simp: convert_kinds_def convert_def conv_string_def Let_def intro!: takes_map [OF arg_takes(4)])
  next
    case 5
    then show ?thesis by (auto simp: convert_kinds_def convert_def conv_pointer_def Let_def intro!: takes_map [OF arg_takes(3)])
  next
    case 6
    then show ?thesis using False by (simp add: convert_kinds_def convert_def takes_Done)
  qed
qed

lemma directive_takes:
  assumes "check_directive fmt = Done (ks, fmt')"
  shows "takes va ks (directive out maxlen fmt va st)
    (\<lambda>(fmt'', va', st'). fmt'' = fmt' \<and> va' = drop (length ks) va)"
proof -
  obtain fl1 fmt1 ks1 fmt2 ks2 fmt3 S fmt4 c where
    p: "parse_flags {} fmt = Done (fl1, fmt1)" "check_width fmt1 = Done (ks1, fmt2)"
      "check_precision fmt2 = Done (ks2, fmt3)" "parse_length {} fmt3 = Done (S, c # fmt')"
      "ks = ks1 @ ks2 @ convert_kinds c S"
    using assms by (auto simp: check_directive_def and_then_Done_iff)
  have nl: "FLAGS_LONG \<notin> fl1" "FLAGS_LONG_LONG \<notin> fl1" using parse_flags_no_long [OF p(1)] by simp_all
  have rest: "takes va' (convert_kinds c S)
      (and_then (parse_length fl fmt3) (\<lambda>(fl, fmt).
       and_then (next_char fmt) (\<lambda>(c, fmt).
       and_then (convert out maxlen c pr w fl va' st) (\<lambda>(va, st). Done (fmt, va, st)))))
      (\<lambda>(fmt'', va'', st'). fmt'' = fmt' \<and> va'' = drop (length (convert_kinds c S)) va')"
    if "FLAGS_LONG \<notin> fl" "FLAGS_LONG_LONG \<notin> fl" for fl va' w pr
    using takes_map [OF convert_takes [of va' c "fl \<union> S" out maxlen pr w st],
        of "\<lambda>(va, st). Done (fmt', va, st)" "\<lambda>(fmt'', va'', st'). fmt'' = fmt' \<and> va'' = drop (length (convert_kinds c S)) va'"]
    by (simp add: parse_length_union [of fl] p(4) convert_kinds_flags [OF that] split_def)
  have flags: "FLAGS_LONG \<notin> f \<and> FLAGS_LONG_LONG \<notin> f"
    if "g \<in> {fl1, fl1 \<union> {FLAGS_LEFT}}" "f \<in> {g, g \<union> {FLAGS_PRECISION}}" for f g
    using nl that by auto
  have drops: "drop n (drop k (drop m va)) = drop (m + (k + n)) va" for m k n and va :: "'v list"
    by (simp add: ac_simps)
  have tail: "takes va'' (convert_kinds c S)
      (and_then (parse_length fl fmt3) (\<lambda>(fl, fmt).
       and_then (next_char fmt) (\<lambda>(c, fmt).
       and_then (convert out maxlen c pr w fl va'' st) (\<lambda>(va, st). Done (fmt, va, st)))))
      (\<lambda>(fmt'', va', st'). fmt'' = fmt' \<and> va' = drop (length (ks1 @ ks2 @ convert_kinds c S)) va)"
    if "g \<in> {fl1, fl1 \<union> {FLAGS_LEFT}}" "fl \<in> {g, g \<union> {FLAGS_PRECISION}}"
      "va'' = drop (length ks2) (drop (length ks1) va)" for g fl va'' w pr
    using rest [of fl va'' pr w] flags [OF that(1,2)] unfolding that(3) drops by simp
  show ?thesis
    unfolding directive_def p(1,5) and_then.simps prod.case
    by (rule takes_bind [OF width_takes(1) [OF p(2)]], clarsimp simp only: split_paired_all prod.case,
        rule takes_bind [OF precision_takes(1) [OF p(3)]], clarsimp simp only: split_paired_all prod.case,
        rule tail [OF _ _ refl], assumption+)
qed

lemma takes_cases:
  assumes "takes va ks m P" obtains "m = Stuck" | x where "m = Done x" "P x"
  using assms by (auto simp: takes_def split: if_splits)

lemma and_then_Blocked_iff: "and_then m f = Blocked \<longleftrightarrow> m = Blocked \<or> (\<exists>x. m = Done x \<and> f x = Blocked)"
  by (cases m) auto

lemma and_then_Stuck_iff: "and_then m f = Stuck \<longleftrightarrow> m = Stuck \<or> (\<exists>x. m = Done x \<and> f x = Stuck)"
  by (cases m) auto

lemma directive_stuck:
  assumes "check_directive fmt = Stuck"
  shows "directive out maxlen fmt va st = Stuck"
proof (cases "parse_flags {} fmt")
  case (Done r1)
  then obtain fl1 fmt1 where f: "parse_flags {} fmt = Done (fl1, fmt1)" by (cases r1) simp
  show ?thesis
  proof (cases "check_width fmt1")
    case (Done r2)
    then obtain ks1 fmt2 where w: "check_width fmt1 = Done (ks1, fmt2)" by (cases r2) simp
    have r: "(case check_precision fmt2 of Done (ks, f) \<Rightarrow>
        (case parse_length {} f of Done (S, f') \<Rightarrow> next_char f' = Stuck | Stuck \<Rightarrow> True | Blocked \<Rightarrow> False)
      | Stuck \<Rightarrow> True | Blocked \<Rightarrow> False)"
      using assms f w by (auto simp: check_directive_def and_then_Stuck_iff split: outcome.split prod.split)
    from width_takes(1) [OF w, of va fl1] show ?thesis
    proof (cases rule: takes_cases)
      case (2 x)
      then obtain n fl2 va2 where w2: "parse_width fl1 fmt1 va = Done (n, fl2, fmt2, va2)" by (cases x) auto
      show ?thesis
      proof (cases "check_precision fmt2")
        case (Done r3)
        then obtain ks2 fmt3 where pr: "check_precision fmt2 = Done (ks2, fmt3)" by (cases r3) simp
        from precision_takes(1) [OF pr, of va2 fl2] show ?thesis
        proof (cases rule: takes_cases)
          case (2 x)
          then obtain k fl3 va3 where p2: "parse_precision fl2 fmt2 va2 = Done (k, fl3, fmt3, va3)" by (cases x) auto
          show ?thesis using f w2 p2 r pr
            by (auto simp: directive_def parse_length_union [of fl3] split: outcome.splits)
        qed (simp add: directive_def f w2)
      qed (simp_all add: directive_def f w2 precision_takes(2))
    qed (simp add: directive_def f)
  qed (simp_all add: directive_def f width_takes(2))
qed (simp_all add: directive_def)

lemma loop_percent:
  assumes "c = CHR ''%''"
  shows "vsnprintf_loop out maxlen (c # fmt) va st = and_then (directive out maxlen fmt va st)
      (\<lambda>(fmt, va, st). vsnprintf_loop out maxlen fmt va st)"
    "format_kinds (c # fmt) = and_then (check_directive fmt)
      (\<lambda>(ks, fmt). and_then (format_kinds fmt) (\<lambda>ks'. Done (ks @ ks')))"
proof -
  have "c \<noteq> NUL" unfolding assms by code_simp
  with assms show "vsnprintf_loop out maxlen (c # fmt) va st = and_then (directive out maxlen fmt va st)
      (\<lambda>(fmt, va, st). vsnprintf_loop out maxlen fmt va st)"
    "format_kinds (c # fmt) = and_then (check_directive fmt)
      (\<lambda>(ks, fmt). and_then (format_kinds fmt) (\<lambda>ks'. Done (ks @ ks')))" by simp_all
qed

lemma loop_takes:
  "(\<forall>ks. format_kinds fmt = Done ks \<longrightarrow> takes va ks (vsnprintf_loop out maxlen fmt va st) (\<lambda>_. True)) \<and>
   (format_kinds fmt = Stuck \<longrightarrow> vsnprintf_loop out maxlen fmt va st = Stuck) \<and> format_kinds fmt \<noteq> Blocked"
proof (induction "length fmt" arbitrary: fmt va st rule: less_induct)
  case less
  show ?case
  proof (cases fmt)
    case (Cons c f)
    consider "c = NUL" | "c \<noteq> NUL" "c \<noteq> CHR ''%''" | "c = CHR ''%''" by blast
    then show ?thesis
    proof cases
      case 3
      note eqs = loop_percent [OF 3]
      show ?thesis
      proof (cases "check_directive f")
        case (Done r)
        then obtain ks1 fmt' where d: "check_directive f = Done (ks1, fmt')" by (cases r) simp
        have IH: "(\<forall>ks. format_kinds fmt' = Done ks \<longrightarrow> takes va ks (vsnprintf_loop out maxlen fmt' va st) (\<lambda>_. True)) \<and>
            (format_kinds fmt' = Stuck \<longrightarrow> vsnprintf_loop out maxlen fmt' va st = Stuck) \<and> format_kinds fmt' \<noteq> Blocked" for va st
          using less check_directive_length [OF d] Cons by simp
        show ?thesis
        proof (cases "format_kinds fmt'")
          case k: (Done ks2)
          have "takes va (ks1 @ ks2) (and_then (directive out maxlen f va st)
              (\<lambda>(fmt, va, st). vsnprintf_loop out maxlen fmt va st)) (\<lambda>_. True)"
            by (rule takes_bind [OF directive_takes [OF d]]) (use IH k in auto)
          then show ?thesis unfolding Cons eqs by (simp add: d k)
        next
          case Stuck
          from directive_takes [OF d, of va out maxlen st] show ?thesis
            unfolding Cons eqs by (cases rule: takes_cases) (use IH Stuck in \<open>auto simp: d\<close>)
        qed (use IH in simp)
      next
        case Stuck
        then show ?thesis unfolding Cons eqs by (simp add: directive_stuck)
      next
        case Blocked
        then show ?thesis by (auto simp: check_directive_def and_then_Blocked_iff)
      qed
    qed (use less [of f va "put out maxlen c st"] Cons in \<open>auto simp: takes_def\<close>)
  qed simp
qed

definition float_free :: "string \<Rightarrow> bool" where
  "float_free fmt = (case format_kinds fmt of Done ks \<Rightarrow> KDouble \<notin> set ks | _ \<Rightarrow> True)"


lemma format_kinds_example: "format_kinds (''%-8s %5d%%'' @ [NUL]) = Done [KStr, KInt]"
  by code_simp


end
