(* ===== verification/Printf_Num.thy ===== *)
theory Printf_Num
  imports Printf_Props
begin

text \<open>
  Numbers in the formatted output: a reference for how the C standard prints an integer, the
  conversions that meet it, those that do not, and the way back through \<open>strtol\<close>.
\<close>

section \<open>The reference\<close>

function ref_digits :: "nat \<Rightarrow> nat \<Rightarrow> nat list" where
  "ref_digits b n = (if b < 2 \<or> n < b then [n] else ref_digits b (n div b) @ [n mod b])"
  by auto
termination by (relation "measure snd") (auto simp: div_less_dividend)

declare ref_digits.simps [simp del]

lemma ref_digits_length: "2 \<le> b \<Longrightarrow> n < b ^ Suc k \<Longrightarrow> length (ref_digits b n) \<le> Suc k"
proof (induction k arbitrary: n)
  case (Suc k)
  have "n div b < b ^ Suc k" using Suc.prems by (intro less_mult_imp_div_less) (simp add: mult.commute)
  then show ?case using Suc.IH [of "n div b"] Suc.prems(1) by (simp add: ref_digits.simps [of b n])
qed (simp add: ref_digits.simps)

lemma ref_digits_less: "2 \<le> b \<Longrightarrow> d \<in> set (ref_digits b n) \<Longrightarrow> d < b"
proof (induction b n rule: ref_digits.induct)
  case (1 b n)
  then show ?case by (auto simp: ref_digits.simps [of b n] split: if_splits)
qed

lemma ref_digits_value: "2 \<le> b \<Longrightarrow> foldl (\<lambda>v d. v * b + d) 0 (ref_digits b n) = n"
proof (induction b n rule: ref_digits.induct)
  case (1 b n)
  then show ?case by (simp add: ref_digits.simps [of b n])
qed

text \<open>Sign, zeros up to the precision, and the field width, as the C standard has them.\<close>

definition std_sign :: "flag set \<Rightarrow> bool \<Rightarrow> string" where
  "std_sign fl negative =
     (if negative then ''-'' else if FLAGS_PLUS \<in> fl then ''+'' else if FLAGS_SPACE \<in> fl then '' '' else [])"

definition zeros :: "nat \<Rightarrow> string" where
  "zeros n = replicate n (CHR ''0'')"

definition std_number :: "flag set \<Rightarrow> nat \<Rightarrow> nat \<Rightarrow> bool \<Rightarrow> string \<Rightarrow> string" where
  "std_number fl prec width negative ds =
     (let body = zeros (prec - length ds) @ ds;
          sg = std_sign fl negative;
          room = width - length sg - length body
      in if FLAGS_LEFT \<in> fl then sg @ body @ blanks room
         else if FLAGS_ZEROPAD \<in> fl then sg @ zeros room @ body
         else blanks room @ sg @ body)"

section \<open>The digits\<close>

lemma ntoa_digits_ref:
  assumes "2 \<le> unat base" "length buf + length (ref_digits (unat base) (unat v)) \<le> PRINTF_NTOA_BUFFER_SIZE"
  shows "ntoa_digits fl base v buf =
    buf @ rev (map (\<lambda>d. digit_char fl (of_nat d)) (ref_digits (unat base) (unat v)))"
  using assms
proof (induction fl base v buf rule: ntoa_digits.induct)
  case (1 fl base v buf)
  have m: "unat (v mod base) = unat v mod unat base" "unat (v div base) = unat v div unat base"
    by (simp_all add: unat_mod_distrib unat_div_distrib)
  then have mw: "v mod base = of_nat (unat v mod unat base)" by (metis of_nat_unat ucast_id)
  show ?case
  proof (cases "unat v < unat base")
    case True
    then have "v div base = 0" using m(2) by (simp add: word_unat_eq_iff)
    then show ?thesis using True 1 mw
      by (simp add: ntoa_digits.simps [of fl base v buf] ref_digits.simps [of "unat base" "unat v"] Let_def)
  next
    case False
    then have r: "ref_digits (unat base) (unat v) = ref_digits (unat base) (unat (v div base)) @ [unat v mod unat base]"
      using 1 m(2) by (simp add: ref_digits.simps [of "unat base" "unat v"])
    have "0 < unat v div unat base" using False 1 by (simp add: div_greater_zero_iff)
    then have "v div base \<noteq> 0" using m(2) by (metis less_irrefl unat_0)
    moreover have "ref_digits (unat base) (unat (v div base)) \<noteq> []"
      by (simp add: ref_digits.simps [of "unat base" "unat (v div base)"])
    then have "Suc (length buf) < PRINTF_NTOA_BUFFER_SIZE"
      using 1(3) r by (cases "ref_digits (unat base) (unat (v div base))") auto
    ultimately show ?thesis using 1 r mw
      by (simp add: ntoa_digits.simps [of fl base v buf] Let_def)
  qed
qed

lemma magnitude_nat:
  fixes v :: "'a::len word"
  shows "unat (fst (signed_magnitude v)) = nat \<bar>sint v\<bar>" "snd (signed_magnitude v) \<longleftrightarrow> sint v < 0"
proof -
  show "snd (signed_magnitude v) \<longleftrightarrow> sint v < 0" by (simp add: signed_magnitude_def word_sless_alt)
  have lo: "- (2 ^ (LENGTH('a) - 1)) \<le> sint v" by (rule sint_ge)
  have hi: "sint v < 2 ^ (LENGTH('a) - 1)" by (rule sint_lt)
  have p: "(2 :: int) ^ (LENGTH('a) - 1) < 2 ^ LENGTH('a)" by (simp add: power_strict_increasing)
  have v: "v = word_of_int (sint v)" by simp
  show "unat (fst (signed_magnitude v)) = nat \<bar>sint v\<bar>"
  proof (cases "0 <s v")
    case True
    then have "0 < sint v" by (simp add: word_sless_alt)
    moreover have "uint v = sint v mod 2 ^ LENGTH('a)" by (subst v) (simp only: uint_word_of_int)
    ultimately show ?thesis using True hi p by (simp add: signed_magnitude_def unat_eq_nat_uint)
  next
    case False
    then have "sint v \<le> 0" by (simp add: word_sless_alt)
    moreover have "uint (- v) = - sint v mod 2 ^ LENGTH('a)"
      by (subst v) (simp only: wi_hom_neg uint_word_of_int)
    ultimately show ?thesis using False lo p by (simp add: signed_magnitude_def unat_eq_nat_uint)
  qed
qed

text \<open>The characters of a number in base \<open>b\<close>; none for a zero with a precision.\<close>

definition std_digits :: "flag set \<Rightarrow> nat \<Rightarrow> nat \<Rightarrow> string" where
  "std_digits fl b n =
     (if FLAGS_PRECISION \<in> fl \<and> n = 0 then [] else map (\<lambda>d. digit_char fl (of_nat d)) (ref_digits b n))"

text \<open>The bases in which 64 bits have at most 22 digits.\<close>

lemma digits_22:
  assumes "8 \<le> b"
  shows "length (ref_digits b (unat (v :: u64))) \<le> 22"
proof -
  have "unat v < 2 ^ LENGTH(64)" by (rule unsigned_less)
  also have "(2 :: nat) ^ LENGTH(64) < 8 ^ Suc 21" by simp
  also have "\<dots> \<le> b ^ Suc 21" using assms by (rule power_mono) simp
  finally show ?thesis using ref_digits_length [of b "unat v" 21] assms by simp
qed

lemma std_digits_22: "8 \<le> b \<Longrightarrow> length (std_digits fl b (unat (v :: u64))) \<le> 22"
  using digits_22 [of b v] by (simp add: std_digits_def)

text \<open>What of the flags, precision and width the code meets the standard for.\<close>

definition std_case :: "flag set \<Rightarrow> u32 \<Rightarrow> u32 \<Rightarrow> bool" where
  "std_case fl prec width \<longleftrightarrow> FLAGS_HASH \<notin> fl \<and> (FLAGS_LEFT \<in> fl \<longrightarrow> prec = 0) \<and> unat prec \<le> 31 \<and>
     (FLAGS_ZEROPAD \<in> fl \<longrightarrow> unat width \<le> 32)"

lemma number_buf_standard:
  assumes c: "std_case fl prec width" and ds: "length ds \<le> 22"
  shows "rev_chars (number_buf (rev ds) negative base prec width fl) width fl =
    std_number fl (unat prec) (unat width) negative ds"
proof -
  note c' = c [unfolded std_case_def]
  have sg: "(if negative then room_add (CHR ''-'') buf else if FLAGS_PLUS \<in> fl then room_add (CHR ''+'') buf
      else if FLAGS_SPACE \<in> fl then room_add (CHR '' '') buf else buf) = buf @ rev (std_sign fl negative)"
    if "length buf < 32 \<or> std_sign fl negative = []" for buf
    using that by (auto simp: std_sign_def room_add_def PRINTF_NTOA_BUFFER_SIZE_def split: if_splits)
  let ?s = "std_sign fl negative"
  let ?w = "if width \<noteq> 0 \<and> FLAGS_ZEROPAD \<in> fl \<and> (negative \<or> FLAGS_PLUS \<in> fl \<or> FLAGS_SPACE \<in> fl)
      then width - 1 else width"
  have s1: "length ?s = (if negative \<or> FLAGS_PLUS \<in> fl \<or> FLAGS_SPACE \<in> fl then 1 else 0)"
    by (simp add: std_sign_def)
  have w: "FLAGS_ZEROPAD \<in> fl \<Longrightarrow> unat ?w = unat width - length ?s"
    unfolding s1 by (simp add: unat_minus_one)
  have f: "fill_zeros prec (rev ds) = rev (zeros (unat prec - length ds) @ ds)"
    using c' by (simp add: fill_zeros_eq zeros_def PRINTF_NTOA_BUFFER_SIZE_def min_def)
  show ?thesis
  proof (cases "FLAGS_LEFT \<in> fl")
    case True
    with c' have "prec = 0" by simp
    with True c' ds show ?thesis
      by (simp add: number_buf_def Let_def sg std_number_def rev_chars_def zeros_def add.commute)
  next
    case L: False
    let ?body = "zeros (unat prec - length ds) @ ds"
    have "unat prec \<le> 31" using c' by simp
    then have lb: "length ?body \<le> 31" using ds by (simp add: zeros_def)
    show ?thesis
    proof (cases "FLAGS_ZEROPAD \<in> fl")
      case True
      let ?buf = "fill_zeros ?w (rev ?body)"
      have "unat width \<le> 32" using c' True by simp
      then have "unat ?w \<le> 32" using w [OF True] by linarith
      then have b: "?buf = rev (zeros (unat width - length ?s - length ?body) @ ?body)"
        using w [OF True] by (simp add: fill_zeros_eq zeros_def PRINTF_NTOA_BUFFER_SIZE_def min_def)
      have "length ?buf < 32 \<or> ?s = []"
        unfolding b using lb \<open>unat width \<le> 32\<close> by (cases "?s") (auto simp: zeros_def)
      note sg [OF this]
      moreover have "number_buf (rev ds) negative base prec width fl =
          (if negative then room_add (CHR ''-'') ?buf else if FLAGS_PLUS \<in> fl then room_add (CHR ''+'') ?buf
           else if FLAGS_SPACE \<in> fl then room_add (CHR '' '') ?buf else ?buf)"
        unfolding number_buf_def Let_def f [symmetric] using L True c' by simp
      ultimately have "number_buf (rev ds) negative base prec width fl = ?buf @ rev ?s" by simp
      then show ?thesis using L True unfolding b by (simp add: std_number_def rev_chars_def Let_def)
    next
      case False
      have "length (rev ?body) < 32 \<or> ?s = []" using lb by simp
      note sg [OF this]
      moreover have "number_buf (rev ds) negative base prec width fl =
          (if negative then room_add (CHR ''-'') (rev ?body) else if FLAGS_PLUS \<in> fl then room_add (CHR ''+'') (rev ?body)
           else if FLAGS_SPACE \<in> fl then room_add (CHR '' '') (rev ?body) else rev ?body)"
        unfolding number_buf_def Let_def f [symmetric] using L False c' by simp
      ultimately have "number_buf (rev ds) negative base prec width fl = rev ?body @ rev ?s" by simp
      then show ?thesis using L False by (simp add: std_number_def rev_chars_def Let_def ac_simps)
    qed
  qed
qed

lemma number_chars_standard:
  assumes c: "std_case fl prec width" and b: "8 \<le> unat base"
  shows "number_chars v negative base prec width fl =
    std_number fl (unat prec) (unat width) negative (std_digits fl (unat base) (unat v))"
proof -
  have "ntoa_digits fl base v [] = rev (map (\<lambda>d. digit_char fl (of_nat d)) (ref_digits (unat base) (unat v)))"
    using ntoa_digits_ref [of base "[]" v fl] digits_22 [OF b, of v] b by (simp add: PRINTF_NTOA_BUFFER_SIZE_def)
  then have buf: "(if FLAGS_PRECISION \<notin> fl \<or> v \<noteq> 0 then ntoa_digits fl base v [] else []) =
      rev (std_digits fl (unat base) (unat v))"
    by (auto simp: std_digits_def word_unat_eq_iff)
  have h: "(if v = 0 then fl - {FLAGS_HASH} else fl) = fl" using c by (simp add: std_case_def)
  show ?thesis
    unfolding number_chars_def Let_def h buf by (rule number_buf_standard [OF c std_digits_22 [OF b]])
qed

section \<open>Conversions of integers\<close>

text \<open>The number that a specifier and the length flags read from an argument.\<close>

fun arg_number :: "char \<Rightarrow> flag set \<Rightarrow> vararg \<Rightarrow> int option" where
  "arg_number c fl (ArgLong v) =
     (if FLAGS_LONG \<notin> fl \<and> FLAGS_LONG_LONG \<notin> fl then None
      else Some (if c = CHR ''d'' \<or> c = CHR ''i'' then sint v else uint v))"
| "arg_number c fl (ArgInt v) =
     (if FLAGS_LONG \<in> fl \<or> FLAGS_LONG_LONG \<in> fl then None
      else Some (if c = CHR ''d'' \<or> c = CHR ''i''
        then (if FLAGS_CHAR \<in> fl then sint (ucast v :: u8) else if FLAGS_SHORT \<in> fl then sint (ucast v :: 16 word) else sint v)
        else (if FLAGS_CHAR \<in> fl then uint (ucast v :: u8) else if FLAGS_SHORT \<in> fl then uint (ucast v :: 16 word) else uint v)))"
| "arg_number c fl _ = None"

fun base_of :: "char \<Rightarrow> nat" where
  "base_of c = (if c = CHR ''x'' \<or> c = CHR ''X'' then 16 else if c = CHR ''o'' then 8 else if c = CHR ''b'' then 2 else 10)"

text \<open>The flags that count for a specifier.\<close>

definition std_flags :: "char \<Rightarrow> flag set \<Rightarrow> flag set" where
  "std_flags c fl =
     (if c \<in> set ''xXob'' then fl else fl - {FLAGS_HASH}) \<union> (if c = CHR ''X'' then {FLAGS_UPPERCASE} else {}) -
     (if c = CHR ''d'' \<or> c = CHR ''i'' then {} else {FLAGS_PLUS, FLAGS_SPACE}) -
     (if FLAGS_PRECISION \<in> fl then {FLAGS_ZEROPAD} else {})"

lemma widen_int: "uint (ucast (w :: u32) :: u64) = uint w" "unat (ucast (x :: u8) :: u32) = unat x"
  "unat (ucast (y :: 16 word) :: u32) = unat y"
proof -
  show "uint (ucast w :: u64) = uint w" by (simp only: uint_nat unat_widen)
  have "unat x < 2 ^ LENGTH(8)" "unat y < 2 ^ LENGTH(16)" by (rule unsigned_less)+
  then show "unat (ucast x :: u32) = unat x" "unat (ucast y :: u32) = unat y"
    by (simp_all add: unsigned_ucast_eq take_bit_nat_eq_self)
qed

lemma scast_int: "sint (scast (x :: u8) :: u32) = sint x" "sint (scast (y :: 16 word) :: u32) = sint y"
  using sint_ge [of x] sint_lt [of x] sint_ge [of y] sint_lt [of y]
  by (simp_all add: signed_scast_eq signed_take_bit_int_eq_self_iff)

lemma abs_uint: "\<bar>uint w\<bar> = uint w" and nat_uint: "nat (uint w) = unat w"
  by simp_all

lemma base_word: "(if c = CHR ''x'' \<or> c = CHR ''X'' then 16 else if c = CHR ''o'' then 8
    else if c = CHR ''b'' then 2 else 10 :: u64) = of_nat (base_of c)"
  by simp

text \<open>The magnitude and the sign of the number.\<close>

definition narrow_signed :: "flag set \<Rightarrow> u32 \<Rightarrow> u32" where
  "narrow_signed fl v = (if FLAGS_CHAR \<in> fl then scast (ucast v :: u8)
     else if FLAGS_SHORT \<in> fl then scast (ucast v :: 16 word) else v)"

definition narrow_unsigned :: "flag set \<Rightarrow> u32 \<Rightarrow> u32" where
  "narrow_unsigned fl v = (if FLAGS_CHAR \<in> fl then ucast (ucast v :: u8)
     else if FLAGS_SHORT \<in> fl then ucast (ucast v :: 16 word) else v)"

lemma arg_number_cases:
  assumes "arg_number c fl a = Some i"
  obtains v where "a = ArgLong v" "FLAGS_LONG \<in> fl \<or> FLAGS_LONG_LONG \<in> fl"
      "i = (if c = CHR ''d'' \<or> c = CHR ''i'' then sint v else int (unat v))"
    | v where "a = ArgInt v" "FLAGS_LONG \<notin> fl" "FLAGS_LONG_LONG \<notin> fl"
      "i = (if c = CHR ''d'' \<or> c = CHR ''i'' then sint (narrow_signed fl v) else int (unat (narrow_unsigned fl v)))"
proof (cases a)
  case (ArgLong v)
  have "FLAGS_LONG \<in> fl \<or> FLAGS_LONG_LONG \<in> fl" "i = (if c = CHR ''d'' \<or> c = CHR ''i'' then sint v else int (unat v))"
    using assms unfolding ArgLong arg_number.simps uint_nat by (auto simp only: if_True if_False split: if_splits)
  then show ?thesis by (rule that(1) [OF ArgLong])
next
  case (ArgInt v)
  have s: "sint (narrow_signed fl v) = (if FLAGS_CHAR \<in> fl then sint (ucast v :: u8)
      else if FLAGS_SHORT \<in> fl then sint (ucast v :: 16 word) else sint v)"
    unfolding narrow_signed_def by (auto simp only: scast_int if_True if_False split: if_splits)
  have u: "int (unat (narrow_unsigned fl v)) = (if FLAGS_CHAR \<in> fl then uint (ucast v :: u8)
      else if FLAGS_SHORT \<in> fl then uint (ucast v :: 16 word) else uint v)"
    unfolding narrow_unsigned_def by (auto simp only: widen_int(2,3) uint_nat if_True if_False split: if_splits)
  have "FLAGS_LONG \<notin> fl" "FLAGS_LONG_LONG \<notin> fl"
    "i = (if c = CHR ''d'' \<or> c = CHR ''i'' then sint (narrow_signed fl v) else int (unat (narrow_unsigned fl v)))"
    using assms unfolding ArgInt arg_number.simps s [symmetric] u [symmetric]
    by (auto simp only: if_True if_False split: if_splits)
  then show ?thesis by (rule that(2) [OF ArgInt])
qed (use assms in simp_all)

lemma conv_signed_arg:
  assumes "arg_number c fl a = Some i" "c = CHR ''d'' \<or> c = CHR ''i''"
    and l: "FLAGS_LONG \<in> f \<longleftrightarrow> FLAGS_LONG \<in> fl" "FLAGS_LONG_LONG \<in> f \<longleftrightarrow> FLAGS_LONG_LONG \<in> fl"
      "FLAGS_CHAR \<in> f \<longleftrightarrow> FLAGS_CHAR \<in> fl" "FLAGS_SHORT \<in> f \<longleftrightarrow> FLAGS_SHORT \<in> fl"
  shows "\<exists>m. unat m = nat \<bar>i\<bar> \<and> conv_signed out maxlen b prec width f (a # va) st =
    Done (va, puts out maxlen (number_chars m (i < 0) b prec width f) st)"
  using assms(1)
proof (cases rule: arg_number_cases)
  case (1 v)
  then show ?thesis using assms(2) l
    by (intro exI [of _ "fst (signed_magnitude v)"])
      (auto simp: conv_signed_def ntoa_puts split_def Let_def magnitude_nat)
next
  case (2 v)
  have n: "narrow_signed f v = narrow_signed fl v" by (simp add: narrow_signed_def l)
  have "conv_signed out maxlen b prec width f (a # va) st = Done (va, puts out maxlen
      (number_chars (ucast (fst (signed_magnitude (narrow_signed f v)))) (snd (signed_magnitude (narrow_signed f v))) b prec width f) st)"
    using 2 l by (simp add: conv_signed_def ntoa_puts split_def Let_def narrow_signed_def)
  then show ?thesis using 2 assms(2) unfolding n magnitude_nat(2)
    by (intro exI [of _ "ucast (fst (signed_magnitude (narrow_signed fl v)))"]) (auto simp: magnitude_nat(1))
qed

lemma conv_unsigned_arg:
  assumes "arg_number c fl a = Some i" "\<not> (c = CHR ''d'' \<or> c = CHR ''i'')"
    and l: "FLAGS_LONG \<in> f \<longleftrightarrow> FLAGS_LONG \<in> fl" "FLAGS_LONG_LONG \<in> f \<longleftrightarrow> FLAGS_LONG_LONG \<in> fl"
      "FLAGS_CHAR \<in> f \<longleftrightarrow> FLAGS_CHAR \<in> fl" "FLAGS_SHORT \<in> f \<longleftrightarrow> FLAGS_SHORT \<in> fl"
  shows "\<exists>m. unat m = nat \<bar>i\<bar> \<and> conv_unsigned out maxlen b prec width f (a # va) st =
    Done (va, puts out maxlen (number_chars m (i < 0) b prec width f) st)"
  using assms(1)
proof (cases rule: arg_number_cases)
  case (1 v)
  then show ?thesis using assms(2) l
    by (intro exI [of _ v]) (auto simp: conv_unsigned_def ntoa_puts)
next
  case (2 v)
  have n: "narrow_unsigned f v = narrow_unsigned fl v" by (simp add: narrow_unsigned_def l)
  have "conv_unsigned out maxlen b prec width f (a # va) st = Done (va, puts out maxlen
      (number_chars (ucast (narrow_unsigned f v)) False b prec width f) st)"
    using 2 l by (simp add: conv_unsigned_def ntoa_puts Let_def narrow_unsigned_def)
  then show ?thesis using 2(4) assms(2) unfolding n
    by (intro exI [of _ "ucast (narrow_unsigned fl v)"]) (simp del: uint_nat)
qed

lemma conv_integer_arg:
  assumes a: "arg_number c fl a = Some i" and c: "c \<in> set ''diuxXob''"
  shows "\<exists>m. unat m = nat \<bar>i\<bar> \<and> conv_integer out maxlen c prec width fl (a # va) st =
    Done (va, puts out maxlen (number_chars m (i < 0) (of_nat (base_of c)) prec width (std_flags c fl)) st)"
proof -
  let ?f = "std_flags c fl" and ?b = "of_nat (base_of c) :: u64"
  have l: "FLAGS_LONG \<in> ?f \<longleftrightarrow> FLAGS_LONG \<in> fl" "FLAGS_LONG_LONG \<in> ?f \<longleftrightarrow> FLAGS_LONG_LONG \<in> fl"
    "FLAGS_CHAR \<in> ?f \<longleftrightarrow> FLAGS_CHAR \<in> fl" "FLAGS_SHORT \<in> ?f \<longleftrightarrow> FLAGS_SHORT \<in> fl"
    by (auto simp: std_flags_def)
  have conv: "conv_integer out maxlen c prec width fl (a # va) st =
      (if c = CHR ''d'' \<or> c = CHR ''i'' then conv_signed out maxlen ?b prec width ?f (a # va) st
       else conv_unsigned out maxlen ?b prec width ?f (a # va) st)"
    using c by (auto simp: conv_integer_def std_flags_def Let_def insert_Diff_if Un_Diff)
  show ?thesis
  proof (cases "c = CHR ''d'' \<or> c = CHR ''i''")
    case True
    show ?thesis unfolding conv if_P [OF True] by (rule conv_signed_arg [OF a True l])
  next
    case False
    show ?thesis unfolding conv if_not_P [OF False] by (rule conv_unsigned_arg [OF a False l])
  qed
qed

lemma convert_standard:
  assumes a: "arg_number c fl a = Some i" and c: "c \<in> set ''diuxXo''"
    and s: "std_case (std_flags c fl) prec width"
  shows "convert out maxlen c prec width fl (a # va) st =
    Done (va, puts out maxlen (std_number (std_flags c fl) (unat prec) (unat width) (i < 0)
      (std_digits (std_flags c fl) (base_of c) (nat \<bar>i\<bar>))) st)"
proof -
  have c': "c \<in> set ''diuxXob''" using c by auto
  have b: "unat (of_nat (base_of c) :: u64) = base_of c" "8 \<le> base_of c" using c by auto
  from conv_integer_arg [OF a c'] obtain m where m: "unat m = nat \<bar>i\<bar>"
    "conv_integer out maxlen c prec width fl (a # va) st =
      Done (va, puts out maxlen (number_chars m (i < 0) (of_nat (base_of c)) prec width (std_flags c fl)) st)"
    by blast
  have "number_chars m (i < 0) (of_nat (base_of c)) prec width (std_flags c fl) =
      std_number (std_flags c fl) (unat prec) (unat width) (i < 0) (std_digits (std_flags c fl) (base_of c) (nat \<bar>i\<bar>))"
    using number_chars_standard [OF s, of "of_nat (base_of c)" m "i < 0"] b m(1) by (simp del: base_of.simps)
  with c' m(2) show ?thesis by (simp add: convert_def del: base_of.simps)
qed



section \<open>There and back\<close>

lemma digit_number_char: "d < 10 \<Longrightarrow> digit_number (digit_char fl (of_nat d)) = int d \<and> digit_char fl (of_nat d) \<noteq> NUL"
proof -
  assume d: "d < 10"
  then have u: "unat (of_nat d :: u64) = d" by (simp add: unat_of_nat)
  then have "(of_nat d :: u64) < 10" using d by (simp add: word_less_nat_alt)
  then have e: "digit_char fl (of_nat d) = char_of (48 + d)" using u by (simp add: digit_char_def)
  have o: "(of_char (char_of (48 + d)) :: nat) = 48 + d" using d by simp
  have "char_of (48 + d) \<noteq> NUL"
  proof
    assume "char_of (48 + d) = NUL"
    then have "(of_char (char_of (48 + d)) :: nat) = of_char NUL" by (rule arg_cong)
    then show False unfolding o by (simp add: NUL_def)
  qed
  moreover have "int_of_char (char_of (48 + d)) = 48 + int d" 
  proof -
    have "(of_char (char_of (48 + d)) :: int) = int (of_char (char_of (48 + d)))"
      by (simp only: of_nat_of_char)
    also have "\<dots> = 48 + int d" unfolding o by simp
    finally have "(of_char (char_of (48 + d)) :: int) = 48 + int d" .
    then show ?thesis using d by (simp add: int_of_char_def)
  qed
  ultimately show ?thesis unfolding e using d by (simp add: digit_number_def isalpha_def Let_def)
qed

lemma ld_chars:
  "format_chars [CHR ''%'', CHR ''l'', CHR ''d'', NUL] [ArgLong v] =
    Done (std_sign {FLAGS_LONG} (sint v < 0) @ std_digits {FLAGS_LONG} 10 (nat \<bar>sint v\<bar>))"
proof -
  have f: "std_flags (CHR ''d'') {FLAGS_LONG} = {FLAGS_LONG}" by (simp add: std_flags_def)
  have a: "arg_number (CHR ''d'') {FLAGS_LONG} (ArgLong v) = Some (sint v)" by simp
  have c: "CHR ''d'' \<in> set ''diuxXo''" by simp
  have s: "std_case (std_flags (CHR ''d'') {FLAGS_LONG}) 0 0" unfolding f by (simp add: std_case_def)
  have n: "std_number {FLAGS_LONG} 0 0 (sint v < 0) ds = std_sign {FLAGS_LONG} (sint v < 0) @ ds" for ds
    by (simp add: std_number_def zeros_def blanks_def)
  have nd: "\<not> is_digit (CHR ''l'')" by (simp add: is_digit_def)
  have "directive collect 0 [CHR ''l'', CHR ''d'', NUL] [ArgLong v] (0, []) =
      Done ([NUL], [], puts collect 0 (std_sign {FLAGS_LONG} (sint v < 0) @ std_digits {FLAGS_LONG} 10 (nat \<bar>sint v\<bar>)) (0, []))"
    using convert_standard [OF a c s, of collect 0 "[]" "(0, [])"] n nd unfolding f
    by (simp add: directive_def)
  then show ?thesis by (simp add: format_chars_def NUL_def)
qed

lemma std_digits_10:
  "digits_of 10 (map (\<lambda>d. digit_char fl (of_nat d)) (ref_digits 10 n))"
  "NUL \<notin> set (map (\<lambda>d. digit_char fl (of_nat d)) (ref_digits 10 n))"
  "numeral_value 10 0 (map (\<lambda>d. digit_char fl (of_nat d)) (ref_digits 10 n)) = int n"
proof -
  have less: "\<forall>d \<in> set (ref_digits 10 n). d < 10" using ref_digits_less [of 10] by simp
  then show "digits_of 10 (map (\<lambda>d. digit_char fl (of_nat d)) (ref_digits 10 n))"
    using digit_number_char by (fastforce simp: digits_of_def)
  show "NUL \<notin> set (map (\<lambda>d. digit_char fl (of_nat d)) (ref_digits 10 n))"
    using less digit_number_char [of _ fl] by (auto dest!: sym [of NUL])
  have "foldl (\<lambda>v c. v * 10 + digit_number c) (int a) (map (\<lambda>d. digit_char fl (of_nat d)) ds) =
      int (foldl (\<lambda>v d. v * 10 + d) a ds)" if "\<forall>d \<in> set ds. d < 10" for ds a
    using that
  proof (induction ds arbitrary: a)
    case (Cons d ds)
    then have "int a * 10 + digit_number (digit_char fl (of_nat d)) = int (a * 10 + d)"
      using digit_number_char [of d fl] by simp
    then show ?case using Cons by (simp del: of_nat_add of_nat_mult)
  qed simp
  from this [OF less, of 0] show "numeral_value 10 0 (map (\<lambda>d. digit_char fl (of_nat d)) (ref_digits 10 n)) = int n"
    using ref_digits_value [of 10 n] by (simp add: numeral_value_def)
qed

text \<open>
  C22. What \<open>printf\<close> writes for \<open>%ld\<close>, \<open>strtol\<close> reads back: for every \<open>long\<close>, the whole text and
  without a range error.
\<close>

theorem printf_strtol_roundtrip:
  "\<exists>cs. c_printf [CHR ''%'', CHR ''l'', CHR ''d'', NUL] [ArgLong v] [] = Done (of_nat (length cs), cs) \<and>
    strtol (c_mem NUL cs) 10 = Some (sint v, Some (int (length cs)), NoErrno)"
proof -
  let ?sg = "std_sign {FLAGS_LONG} (sint v < 0)"
  let ?ds = "map (\<lambda>d. digit_char {FLAGS_LONG} (of_nat d)) (ref_digits 10 (nat \<bar>sint v\<bar>))"
  have ds: "std_digits {FLAGS_LONG} 10 (nat \<bar>sint v\<bar>) = ?ds" by (simp add: std_digits_def)
  note d = std_digits_10 [of "{FLAGS_LONG}" "nat \<bar>sint v\<bar>"]
  have ne: "?ds \<noteq> []" by (simp add: ref_digits.simps [of 10 "nat \<bar>sint v\<bar>"])
  have sg: "?sg \<in> sign_texts" "NUL \<notin> set ?sg" "sign_of ?sg = (if sint v < 0 then -1 else 1)"
    by (simp_all add: std_sign_def sign_texts_def sign_of_def NUL_def)
  have t: "text_at (c_mem NUL (?sg @ ?ds)) 0 ([] @ ?sg @ ?ds @ [])"
    using text_at_c_mem [of "?sg @ ?ds" NUL] sg(2) d(2) by simp
  have st: "stops 10 ?ds []" using ne by (simp add: stops_def)
  have "strtol (c_mem NUL (?sg @ ?ds)) 10 = Some (clamped (sign_of ?sg) (numeral_value 10 0 ?ds),
     Some (if ?ds = [] then 0 else int (length ([] @ ?sg @ ?ds))), range_errno (sign_of ?sg) (numeral_value 10 0 ?ds))"
    by (rule strtol_run [OF t _ _ sg(1) d(1) st]) (use ne in simp_all)
  moreover have "clamped (sign_of ?sg) (numeral_value 10 0 ?ds) = sint v"
    "range_errno (sign_of ?sg) (numeral_value 10 0 ?ds) = NoErrno"
    using sint_ge [of v] sint_lt [of v] unfolding d(3) sg(3)
    by (auto simp: clamped_def range_errno_def LONG_MIN_def LONG_MAX_def)
  moreover have "filter (\<lambda>c. c \<noteq> NUL) (?sg @ ?ds) = ?sg @ ?ds"
    by (rule filter_True) (use sg(2) d(2) in auto)
  ultimately show ?thesis using ld_chars [of v] ne unfolding ds
    by (intro exI [of _ "?sg @ ?ds"]) (simp add: c_printf_chars)
qed

end
