(* ===== verification/Printf_Double.thy ===== *)
theory Printf_Double
  imports Printf_Num
begin

unbundle bit_operations_syntax

text \<open>
  Floating-point numbers in the formatted output: integral values print as the C standard says; a
  precision that is too large reads behind the table of powers; values that round half way up at the
  wrong place.
\<close>

section \<open>Encoding and decoding\<close>

lemma fval_pack:
  assumes "f < 2 ^ 52" "E < 2047"
  shows "fval (d_pack s (E * 2 ^ 52 + f)) =
    (if E = 0 then Finite s f (- 1074) else Finite s (2 ^ 52 + f) (int E - 1075))"
proof -
  define N where "N = (if s then 2 ^ 63 else 0) + (E * 2 ^ 52 + f)"
  have N_eq: "N = ((if s then 2 ^ 11 else 0) + E) * 2 ^ 52 + f" by (simp add: N_def algebra_simps)
  have b: "E * 2 ^ 52 + f < 2047 * 2 ^ 52" using assms by simp
  then have N: "N < 2 ^ 64" by (simp add: N_def)
  have w: "d_pack s (E * 2 ^ 52 + f) = (of_nat N :: u64)"
    using b by (simp add: d_pack_def N_def)
  have u: "unat (of_nat N :: u64) = N" using N by (simp add: unat_of_nat)
  have sign: "bit (of_nat N :: u64) 63 = s"
  proof -
    have "bit (of_nat N :: u64) 63 \<longleftrightarrow> odd (N div 2 ^ 63)"
      using u bit_unsigned_iff [of "of_nat N :: u64" 63, where 'a = nat] by (simp add: bit_iff_odd possible_bit_def)
    also have "N div 2 ^ 63 = (if s then 1 else 0)"
    proof (cases s)
      case True
      have "(2 ^ 63 + (E * 2 ^ 52 + f)) div 2 ^ 63 = (E * 2 ^ 52 + f) div 2 ^ 63 + 1" by (rule div_add_self1) simp
      then show ?thesis using True b unfolding N_def by simp
    qed (use b in \<open>simp add: N_def\<close>)
    finally show ?thesis by simp
  qed
  have m: "unat (take_bit 52 (of_nat N :: u64)) = f"
  proof -
    have "unat (take_bit 52 (of_nat N :: u64)) = N mod 2 ^ 52"
      unfolding unsigned_take_bit_eq u by (rule take_bit_eq_mod)
    also have "\<dots> = f" unfolding N_eq mod_mult_self3 using assms(1) by (rule mod_less)
    finally show ?thesis .
  qed
  have e: "unat (take_bit 11 (drop_bit 52 (of_nat N :: u64))) = E"
  proof -
    have "unat (take_bit 11 (drop_bit 52 (of_nat N :: u64))) = (N div 2 ^ 52) mod 2 ^ 11"
      unfolding unsigned_take_bit_eq unsigned_drop_bit_eq u using N
      by (simp add: take_bit_eq_mod drop_bit_eq_div)
    also have "N div 2 ^ 52 = (if s then 2 ^ 11 else 0) + E"
      unfolding N_eq using assms(1) by (subst div_mult_self3) simp_all
    finally show ?thesis using assms(2) by (simp split: if_splits)
  qed
  show ?thesis unfolding w fval_def Let_def sign m e using assms(2) by simp
qed

lemma bit_length_bounds: "0 < n \<Longrightarrow> 2 ^ (bit_length n - 1) \<le> n \<and> n < 2 ^ bit_length n \<and> 0 < bit_length n"
proof (induction n rule: bit_length.induct)
  case (1 n)
  have r: "bit_length n = Suc (bit_length (n div 2))" using 1 by (simp add: bit_length.simps [of n])
  show ?case
  proof (cases "n div 2 = 0")
    case True
    then have "n = 1" using 1 by auto
    then show ?thesis using r by (simp add: bit_length.simps [of 0])
  next
    case False
    with 1 have IH: "2 ^ (bit_length (n div 2) - 1) \<le> n div 2" "n div 2 < 2 ^ bit_length (n div 2)" "0 < bit_length (n div 2)"
      by auto
    from IH(3) have "2 ^ bit_length (n div 2) = 2 * (2 :: nat) ^ (bit_length (n div 2) - 1)"
      by (cases "bit_length (n div 2)") auto
    then have "2 ^ bit_length (n div 2) \<le> n" using IH(1) by simp
    moreover have "n < 2 * 2 ^ bit_length (n div 2)" using IH(2) by simp
    ultimately show ?thesis by (simp add: r)
  qed
qed

lemma bit_length_le: "n < 2 ^ k \<Longrightarrow> bit_length n \<le> k"
proof (induction k arbitrary: n)
  case 0
  then show ?case by (simp add: bit_length.simps [of 0])
next
  case (Suc k)
  then have "n div 2 < 2 ^ k" by simp
  from Suc.IH [OF this] show ?case by (simp add: bit_length.simps [of n])
qed

lemma bit_length_scale: "0 < n \<Longrightarrow> bit_length (n * 2 ^ k) = bit_length n + k"
proof (induction k)
  case (Suc k)
  have "n * 2 ^ Suc k div 2 = n * 2 ^ k" "n * 2 ^ Suc k \<noteq> 0" using Suc.prems by simp_all
  then show ?case using Suc by (simp only: bit_length.simps [of "n * 2 ^ Suc k"] if_False add_Suc_right)
qed simp

lemma div_even_exact: "0 < c \<Longrightarrow> div_even (a * c) c = a"
  by (simp add: div_even_def)

lemma log_frac_int:
  assumes "0 < n"
  shows "log_frac (n * 2 ^ k) 1 (- int k) = int (bit_length n) - 1"
proof -
  note b = bit_length_bounds [OF assms]
  have o: "bit_length 1 = 1" by (simp add: bit_length.simps [of "Suc 0"] bit_length.simps [of 0])
  have "2 ^ (bit_length n - 1 + k) \<le> n * 2 ^ k" unfolding power_add using b by (intro mult_le_mono1) simp
  moreover have "int (bit_length (n * 2 ^ k)) - int (bit_length 1) = int (bit_length n - 1 + k)"
    using b assms o by (simp add: bit_length_scale)
  moreover have "nat (int (bit_length n - 1 + k)) = bit_length n - 1 + k" "nat (- int (bit_length n - 1 + k)) = 0"
    by (simp_all only: nat_int)
  ultimately show ?thesis using b unfolding log_frac_def Let_def by (simp only: mult_1 power_0 mult_1_right) simp
qed

text \<open>An integer below \<open>2 ^ 53\<close>, given with any exponent, is represented exactly.\<close>

lemma d_round_exact:
  assumes "n < 2 ^ 53"
  shows "\<exists>k. d_round s (n * 2 ^ j) 1 (- int j) = d_round s n 1 0 \<and> fval (d_round s n 1 0) = Finite s (n * 2 ^ k) (- int k)"
proof (cases "n = 0")
  case True
  have "fval (d_pack s 0) = Finite s 0 (- 1074)" using fval_pack [of 0 0 s] by simp
  then show ?thesis using True by (intro exI [of _ 1074]) (simp add: d_round_def)
next
  case False
  then have n: "0 < n" by simp
  note b = bit_length_bounds [OF n]
  define k where "k = 53 - bit_length n"
  have l: "bit_length n \<le> 53" using assms by (rule bit_length_le)
  have t: "max (int (bit_length n) - 1 - 52) (- 1074) = - int k" using l by (simp add: k_def)
  have r: "d_round s (n * 2 ^ j) 1 (- int j) = d_pack s (nat (1074 - int k) * 2 ^ 52 + n * 2 ^ k)" for j
  proof -
    have "div_even (n * 2 ^ j * 2 ^ nat (- int j + int k)) (2 ^ nat (- int k + int j)) = n * 2 ^ k"
    proof (cases "j \<le> k")
      case True
      then have e: "nat (- int j + int k) = k - j" "nat (- int k + int j) = 0" by simp_all
      have p: "n * 2 ^ j * 2 ^ (k - j) = n * 2 ^ k"
        unfolding mult.assoc using True by (simp flip: power_add)
      show ?thesis unfolding e p using div_even_exact [of 1 "n * 2 ^ k"] by simp
    next
      case False
      then have e: "nat (- int j + int k) = 0" "nat (- int k + int j) = j - k" by simp_all
      have p: "n * 2 ^ j * 2 ^ 0 = n * 2 ^ k * 2 ^ (j - k)"
        unfolding mult.assoc using False by (simp flip: power_add)
      show ?thesis unfolding e p by (rule div_even_exact) simp
    qed
    then show ?thesis using n log_frac_int [OF n, of j] t by (simp add: d_round_def Let_def)
  qed
  have m: "2 ^ 52 \<le> n * 2 ^ k" "n * 2 ^ k < 2 ^ 53"
  proof -
    have p: "(2::nat) ^ (bit_length n - 1) * 2 ^ k = 2 ^ 52" "(2::nat) ^ bit_length n * 2 ^ k = 2 ^ 53"
      using b l by (simp_all only: k_def flip: power_add) (rule arg_cong [of _ _ "(^) 2"], simp)+
    have "2 ^ (bit_length n - 1) * 2 ^ k \<le> n * 2 ^ k" using b by (intro mult_le_mono1) simp
    then show "2 ^ 52 \<le> n * 2 ^ k" unfolding p .
    have "n * 2 ^ k < 2 ^ bit_length n * 2 ^ k" using b by simp
    then show "n * 2 ^ k < 2 ^ 53" unfolding p .
  qed
  define E where "E = nat (1075 - int k)"
  have E: "nat (1074 - int k) * 2 ^ 52 + n * 2 ^ k = E * 2 ^ 52 + (n * 2 ^ k - 2 ^ 52)"
    using m(1) by (simp add: E_def k_def nat_diff_distrib)
  have "fval (d_pack s (E * 2 ^ 52 + (n * 2 ^ k - 2 ^ 52))) = Finite s (n * 2 ^ k) (- int k)"
    using fval_pack [of "n * 2 ^ k - 2 ^ 52" E s] m by (simp add: E_def k_def)
  then show ?thesis using r [of j] r [of 0] E by (intro exI [of _ k]) simp
qed

section \<open>Integral values\<close>

definition exact_int :: "int \<Rightarrow> fval \<Rightarrow> bool" where
  "exact_int i v \<longleftrightarrow> (\<exists>k. v = Finite (i < 0) (nat \<bar>i\<bar> * 2 ^ k) (- int k))"

lemma fval_of_int: "\<bar>i\<bar> < 2 ^ 53 \<Longrightarrow> exact_int i (fval (d_of_int i))"
  using d_round_exact [of "nat \<bar>i\<bar>" "i < 0" 0] by (auto simp: exact_int_def d_of_int_def)

lemma signed_abs: "signed (i < 0) (nat \<bar>i\<bar> * c) = i * int c"
  by (auto simp: signed_def)

text \<open>Two values at a common exponent.\<close>

lemma units_int:
  assumes "v = Finite (i < 0) (nat \<bar>i\<bar> * 2 ^ k) (- int k)" "e0 \<le> - int k"
  shows "units e0 (i < 0) (nat \<bar>i\<bar> * 2 ^ k) (- int k) = i * 2 ^ nat (- e0)"
proof -
  have "k + nat (- int k - e0) = nat (- e0)" using assms(2) by simp
  then show ?thesis unfolding units_def mult.assoc signed_abs power_add [symmetric] by simp
qed

lemma exact_less: "exact_int i a \<Longrightarrow> exact_int j b \<Longrightarrow> v_less a b \<longleftrightarrow> i < j"
proof -
  assume "exact_int i a" "exact_int j b"
  then obtain k l where a: "a = Finite (i < 0) (nat \<bar>i\<bar> * 2 ^ k) (- int k)"
    and b: "b = Finite (j < 0) (nat \<bar>j\<bar> * 2 ^ l) (- int l)" by (auto simp: exact_int_def)
  let ?e = "min (- int k) (- int l)"
  have "v_less a b \<longleftrightarrow> i * 2 ^ nat (- ?e) < j * 2 ^ nat (- ?e)"
    using units_int [OF a, of ?e] units_int [OF b, of ?e] by (simp add: a b Let_def)
  then show ?thesis by simp
qed

lemma exact_eq: "exact_int i a \<Longrightarrow> v_eq a a"
  by (auto simp: exact_int_def)

lemma exact_trunc: "exact_int i a \<Longrightarrow> v_trunc a = Some i"
proof -
  assume "exact_int i a"
  then obtain k where a: "a = Finite (i < 0) (nat \<bar>i\<bar> * 2 ^ k) (- int k)" by (auto simp: exact_int_def)
  have "nat \<bar>i\<bar> * 2 ^ k * 2 ^ nat (- int k) div 2 ^ nat (- (- int k)) = nat \<bar>i\<bar> * 1" by simp
  then show ?thesis unfolding a v_trunc.simps by (simp only: signed_abs) simp
qed

lemma d_of_int_simps:
  assumes "\<bar>i\<bar> < 2 ^ 53"
  shows "\<bar>j\<bar> < 2 ^ 53 \<Longrightarrow> d_less (d_of_int i) (d_of_int j) \<longleftrightarrow> i < j"
    "d_eq (d_of_int i) (d_of_int i)"
    "- (2 ^ 31) \<le> i \<Longrightarrow> i < 2 ^ 31 \<Longrightarrow> d_to_int (d_of_int i) = Some i"
    "0 \<le> i \<Longrightarrow> d_to_ulong (d_of_int i) = Some (of_int i)"
  using fval_of_int [OF assms] assms
  by (simp_all add: d_less_def d_eq_def d_to_int_def d_to_ulong_def exact_less [OF fval_of_int fval_of_int]
      exact_eq exact_trunc in_range_def)

lemma d_of_int_sub:
  assumes "\<bar>i\<bar> < 2 ^ 53" "\<bar>j\<bar> < 2 ^ 53" "\<bar>i - j\<bar> < 2 ^ 53"
  shows "d_sub (d_of_int i) (d_of_int j) = d_of_int (i - j)"
proof -
  from fval_of_int [OF assms(1)] obtain k where a: "fval (d_of_int i) = Finite (i < 0) (nat \<bar>i\<bar> * 2 ^ k) (- int k)"
    by (auto simp: exact_int_def)
  from fval_of_int [OF assms(2)] obtain l where b: "fval (d_of_int j) = Finite (j < 0) (nat \<bar>j\<bar> * 2 ^ l) (- int l)"
    by (auto simp: exact_int_def)
  let ?e = "min (- int k) (- int l)"
  have u: "units ?e (\<not> j < 0) (nat \<bar>j\<bar> * 2 ^ l) (- int l) = - (j * 2 ^ nat (- ?e))"
    using units_int [OF b, of ?e] by (simp add: units_def signed_def split: if_splits)
  have s: "i * 2 ^ nat (- ?e) + - (j * 2 ^ nat (- ?e)) = (i - j) * 2 ^ nat (- ?e)" by (simp add: algebra_simps)
  have "d_sub (d_of_int i) (d_of_int j) =
      d_round (if (i - j) * 2 ^ nat (- ?e) = 0 then i < 0 \<and> \<not> j < 0 else (i - j) * 2 ^ nat (- ?e) < 0)
        (nat \<bar>(i - j) * 2 ^ nat (- ?e)\<bar>) 1 ?e"
    unfolding d_sub_def d_add_def fval_neg a b fval.case v_add.simps Let_def units_int [OF a, of ?e, OF min.cobounded1] u s ..
  also have "\<dots> = d_round (i - j < 0) (nat \<bar>i - j\<bar> * 2 ^ nat (- ?e)) 1 (- int (nat (- ?e)))"
    by (auto simp: abs_mult nat_mult_distrib nat_power_eq mult_less_0_iff)
  also have "\<dots> = d_of_int (i - j)"
    using d_round_exact [of "nat \<bar>i - j\<bar>" "i - j < 0" "nat (- ?e)"] assms(3) by (auto simp: d_of_int_def)
  finally show ?thesis .
qed

lemma fval_DBL_MAX: "fval DBL_MAX = Finite False (2 ^ 53 - 1) 971" "fval (d_neg DBL_MAX) = Finite True (2 ^ 53 - 1) 971"
  by (simp_all add: fval_neg) (simp_all add: DBL_MAX_def fval_def)

lemma within_DBL_MAX:
  assumes "\<bar>i\<bar> < 2 ^ 53"
  shows "\<not> d_less DBL_MAX (d_of_int i)" "\<not> d_less (d_of_int i) (d_neg DBL_MAX)"
proof -
  from fval_of_int [OF assms] obtain k where a: "fval (d_of_int i) = Finite (i < 0) (nat \<bar>i\<bar> * 2 ^ k) (- int k)"
    by (auto simp: exact_int_def)
  have "nat (971 + int k) = 971 + k" by simp
  then have p: "2 ^ nat (971 + int k) = 2 ^ 971 * (2 :: int) ^ k" by (simp only: power_add)
  have "\<bar>i\<bar> \<le> (2 ^ 53 - 1) * 2 ^ 971" using assms by simp
  then have "\<bar>i\<bar> * 2 ^ k \<le> (2 ^ 53 - 1) * 2 ^ 971 * 2 ^ k" by (rule mult_right_mono) simp
  moreover have "\<bar>i\<bar> * 2 ^ k = \<bar>i * 2 ^ k\<bar>" by (simp add: abs_mult)
  ultimately have le: "\<bar>i * 2 ^ k\<bar> \<le> (2 ^ 53 - 1) * (2 ^ 971 * 2 ^ k)" by simp
  have u: "units (- int k) (i < 0) (nat \<bar>i\<bar> * 2 ^ k) (- int k) = i * 2 ^ k"
    using units_int [OF a, of "- int k"] by simp
  have m: "min 971 (- int k) = - int k" "min (- int k) 971 = - int k" by simp_all
  have d: "units (- int k) s (2 ^ 53 - 1) 971 = (if s then - ((2 ^ 53 - 1) * (2 ^ 971 * 2 ^ k)) else (2 ^ 53 - 1) * (2 ^ 971 * 2 ^ k))" for s
    unfolding units_def signed_def using p by simp
  show "\<not> d_less DBL_MAX (d_of_int i)"
    unfolding d_less_def fval_DBL_MAX a v_less.simps Let_def m u d if_True if_False using le by linarith
  show "\<not> d_less (d_of_int i) (d_neg DBL_MAX)"
    unfolding d_less_def fval_DBL_MAX a v_less.simps Let_def m u d if_True if_False using le by linarith
qed

lemma half_less: "d_less (d_of_int 0) (d_lit 5 1)" "\<not> d_less (d_lit 5 1) (d_of_int 0)"
  by ((simp_all add: d_of_int_def d_lit_def eval_round), (simp_all add: eval_exact))

lemma max_float: "d_neg PRINTF_MAX_FLOAT = d_of_int (- 1000000000)"
  unfolding PRINTF_MAX_FLOAT_def by (simp add: eval_exact) (simp add: eval_round d_neg_def)

lemma pow10_nth_small: "unat prec \<le> 9 \<Longrightarrow> pow10_nth prec = Some (d_of_int (10 ^ unat prec))"
proof -
  assume "unat prec \<le> 9"
  then have "unat prec \<in> {0, 1, 2, 3, 4, 5, 6, 7, 8, 9}" by auto
  then show ?thesis by (auto simp: pow10_nth_def pow10_def)
qed

lemma mul_zero: "0 \<le> j \<Longrightarrow> j < 2 ^ 53 \<Longrightarrow> d_mul (d_of_int 0) (d_of_int j) = d_of_int 0"
  using fval_of_int [of 0] fval_of_int [of j]
  by (auto simp: exact_int_def d_mul_def d_of_int_def d_round_def)

lemma ftoa_split_int:
  assumes "0 \<le> i" "i < 2 ^ 31" "unat prec \<le> 9"
  shows "ftoa_split (d_of_int i) prec = Some (i, 0)"
proof -
  have p: "(10 :: int) ^ unat prec \<le> 10 ^ 9" using assms(3) by (intro power_increasing) simp_all
  have "d_sub (d_of_int i) (d_of_int i) = d_of_int 0" using d_of_int_sub [of i i] assms by simp
  moreover have "d_to_int (d_of_int i) = Some i" using assms by (intro d_of_int_simps) simp_all
  moreover have "d_to_ulong (d_of_int 0) = Some 0" using d_of_int_simps(4) [of 0] by simp
  moreover have "d_mul (d_of_int 0) (d_of_int (10 ^ unat prec)) = d_of_int 0" using p by (intro mul_zero) simp_all
  moreover have "d_sub (d_of_int 0) (d_of_int 0) = d_of_int 0" using d_of_int_sub [of 0 0] by simp
  ultimately show ?thesis
    unfolding ftoa_split_def pow10_nth_small [OF assms(3)]
    using half_less by (simp add: Let_def)
qed

section \<open>Digits\<close>

lemma extra_zeros_eq:
  "length buf + unat cnt \<le> PRINTF_FTOA_BUFFER_SIZE \<Longrightarrow> extra_zeros cnt buf = buf @ zeros (unat cnt)"
proof (induction cnt buf rule: extra_zeros.induct)
  case (1 cnt buf)
  show ?case
  proof (cases "cnt = 0")
    case False
    then have "unat cnt = Suc (unat (cnt - 1))" by (simp add: unat_minus_one unat_gt_0)
    then show ?thesis using 1 False
      by (simp add: extra_zeros.simps [of cnt buf] zeros_def word_gt_0)
  qed (simp add: extra_zeros.simps [of 0 buf] zeros_def)
qed

lemma ftoa_zeros_eq:
  "ftoa_zeros n buf = buf @ zeros (min (unat n) PRINTF_FTOA_BUFFER_SIZE - length buf)"
proof (induction n buf rule: ftoa_zeros.induct)
  case (1 n buf)
  show ?case
  proof (cases "length buf < unat n \<and> length buf < PRINTF_FTOA_BUFFER_SIZE")
    case True
    then have "min (unat n) PRINTF_FTOA_BUFFER_SIZE - length buf =
        Suc (min (unat n) PRINTF_FTOA_BUFFER_SIZE - length (buf @ ''0''))" by auto
    then show ?thesis using 1 True by (simp add: ftoa_zeros.simps [of n buf] zeros_def)
  qed (auto simp: ftoa_zeros.simps [of n buf] zeros_def)
qed

lemma whole_digits_ref:
  assumes "0 \<le> w" "length buf + length (ref_digits 10 (nat w)) \<le> PRINTF_FTOA_BUFFER_SIZE"
  shows "whole_digits w buf = buf @ rev (std_digits {} 10 (nat w))"
  using assms
proof (induction w buf rule: whole_digits.induct)
  case (1 w buf)
  have c: "char_of (nat (48 + w mod 10)) = digit_char {} (of_nat (nat w mod 10))"
  proof -
    have "nat w mod 10 < 10" by simp
    moreover have "nat (48 + w mod 10) = 48 + nat w mod 10" using 1 by (simp add: nat_add_distrib nat_mod_distrib)
    ultimately show ?thesis
      by (simp add: digit_char_def word_less_nat_alt unat_of_nat)
  qed
  show ?case
  proof (cases "w < 10")
    case True
    then have "nat w < 10" using 1 by simp
    then have "ref_digits 10 (nat w) = [nat w]" "w div 10 = 0" "nat w mod 10 = nat w"
      using 1 True by (simp_all add: ref_digits.simps [of 10 "nat w"])
    then show ?thesis using 1 c by (simp add: whole_digits.simps [of w buf] std_digits_def Let_def)
  next
    case False
    then have "\<not> nat w < 10" by simp
    then have r: "ref_digits 10 (nat w) = ref_digits 10 (nat (w div 10)) @ [nat w mod 10]"
      using 1 by (simp add: ref_digits.simps [of 10 "nat w"] nat_div_distrib)
    have "w div 10 \<noteq> 0" using False by simp
    moreover have "ref_digits 10 (nat (w div 10)) \<noteq> []" by (simp add: ref_digits.simps [of 10 "nat (w div 10)"])
    then have "Suc (length buf) < PRINTF_FTOA_BUFFER_SIZE"
      using 1(3) r by (cases "ref_digits 10 (nat (w div 10))") auto
    ultimately show ?thesis using 1 r c
      by (simp add: whole_digits.simps [of w buf] std_digits_def Let_def)
  qed
qed

section \<open>Integral values in the fixed format\<close>

text \<open>What the C standard prints for an integral value with \<open>p\<close> decimals.\<close>

definition std_fixed :: "nat \<Rightarrow> nat \<Rightarrow> string" where
  "std_fixed p n = std_digits {} 10 n @ (if p = 0 then [] else CHR ''.'' # zeros p)"

lemma dec_digits_length: "n < 2 ^ 31 \<Longrightarrow> length (ref_digits 10 n) \<le> 10"
  using ref_digits_length [of 10 n 9] by simp

lemma ftoa_digits_int:
  assumes "0 \<le> i" "i < 2 ^ 31" "unat prec \<le> 9"
  shows "ftoa_digits (d_of_int i) prec = Some (rev (std_fixed (unat prec) (nat i)))"
proof -
  have l: "length (ref_digits 10 (nat i)) \<le> 10" using assms by (intro dec_digits_length) auto
  have "\<not> prec > 9" using assms(3) by (simp add: word_less_nat_alt)
  then have lp: "limit_prec prec [] = (prec, [])" by (simp add: limit_prec.simps [of prec "[]"])
  show ?thesis
  proof (cases "prec = 0")
    case True
    have "d_sub (d_of_int i) (d_of_int i) = d_of_int 0" using d_of_int_sub [of i i] assms by simp
    then show ?thesis using True lp ftoa_split_int [OF assms] half_less whole_digits_ref [of i "[]"] l assms(1)
      by (simp add: ftoa_digits_def Let_def std_fixed_def PRINTF_FTOA_BUFFER_SIZE_def)
  next
    case False
    then have p: "unat prec = Suc (unat (prec - 1))" by (simp add: unat_minus_one unat_gt_0)
    have f: "frac_digits prec 0 [] = (prec - 1, ''0'')"
    proof -
      have "char_of (48 :: nat) = CHR ''0''" by code_simp
      then show ?thesis by (simp add: frac_digits.simps [of prec 0 "[]"] PRINTF_FTOA_BUFFER_SIZE_def Let_def)
    qed
    have e: "extra_zeros (prec - 1) ''0'' = zeros (unat prec)"
      using extra_zeros_eq [of "''0''" "prec - 1"] p assms(3) by (simp add: PRINTF_FTOA_BUFFER_SIZE_def zeros_def)
    have d: "ftoa_add (CHR ''.'') (zeros (unat prec)) = zeros (unat prec) @ ''.''"
      using assms(3) by (simp add: ftoa_add_def zeros_def PRINTF_FTOA_BUFFER_SIZE_def)
    have w: "whole_digits i (zeros (unat prec) @ ''.'') = zeros (unat prec) @ ''.'' @ rev (std_digits {} 10 (nat i))"
      using whole_digits_ref [of i "zeros (unat prec) @ ''.''"] l assms
      by (simp add: zeros_def PRINTF_FTOA_BUFFER_SIZE_def)
    have "rev (zeros n) = zeros n" for n by (simp add: zeros_def)
    then show ?thesis using False lp ftoa_split_int [OF assms] f e d w p
      by (simp add: ftoa_digits_def Let_def std_fixed_def)
  qed
qed

text \<open>Padding and sign, for a text that fits.\<close>

lemma ftoa_sign_std:
  assumes "length ds \<le> 30" "FLAGS_ZEROPAD \<in> fl \<and> FLAGS_LEFT \<notin> fl \<Longrightarrow> unat width \<le> 32"
  shows "(let (buf, w) = ftoa_sign (rev ds) n width fl in rev_chars buf w fl) = std_number fl 0 (unat width) n ds"
proof -
  define sg where "sg = std_sign fl n"
  have sg: "length sg \<le> 1" by (simp add: sg_def std_sign_def)
  have add: "(if n then ftoa_add (CHR ''-'') buf else if FLAGS_PLUS \<in> fl then ftoa_add (CHR ''+'') buf
      else if FLAGS_SPACE \<in> fl then ftoa_add (CHR '' '') buf else buf) = buf @ sg"
    if "length buf + length sg \<le> PRINTF_FTOA_BUFFER_SIZE" for buf
    using that by (simp add: ftoa_add_def sg_def std_sign_def split: if_splits)
  show ?thesis
  proof (cases "FLAGS_LEFT \<notin> fl \<and> FLAGS_ZEROPAD \<in> fl")
    case True
    define w where "w = (if width \<noteq> 0 \<and> (n \<or> FLAGS_PLUS \<in> fl \<or> FLAGS_SPACE \<in> fl) then width - 1 else width)"
    have uw: "unat w = unat width - length sg"
      by (auto simp: w_def sg_def std_sign_def unat_minus_one)
    have z: "ftoa_zeros w (rev ds) = rev ds @ zeros (unat width - length sg - length ds)"
      using assms(2) True by (simp add: ftoa_zeros_eq uw PRINTF_FTOA_BUFFER_SIZE_def min_def)
    have "length (rev ds @ zeros (unat width - length sg - length ds)) + length sg \<le> PRINTF_FTOA_BUFFER_SIZE"
      using assms True sg by (auto simp: zeros_def PRINTF_FTOA_BUFFER_SIZE_def)
    from add [OF this] have "ftoa_sign (rev ds) n width fl = (rev ds @ zeros (unat width - length sg - length ds) @ sg, w)"
      unfolding ftoa_sign_def Let_def w_def [symmetric] if_P [OF True] z prod.case by (simp only: append_assoc)
    moreover have "rev sg = sg" "rev (zeros k) = zeros k" for k
      using sg by (cases sg; simp) (simp add: zeros_def)
    ultimately show ?thesis using True by (simp add: rev_chars_def std_number_def Let_def sg_def zeros_def)
  next
    case False
    have "length (rev ds) + length sg \<le> PRINTF_FTOA_BUFFER_SIZE"
      using assms(1) sg by (simp add: PRINTF_FTOA_BUFFER_SIZE_def)
    from add [OF this] have "ftoa_sign (rev ds) n width fl = (rev ds @ sg, width)"
      unfolding ftoa_sign_def Let_def if_not_P [OF False] prod.case by (simp only:)
    moreover have "rev sg = sg" using sg by (cases sg) simp_all
    ultimately show ?thesis using False
      by (auto simp: rev_chars_def std_number_def Let_def sg_def zeros_def diff_diff_eq add.commute)
  qed
qed

text \<open>The number of decimals: the precision, or 6.\<close>

definition decimals :: "flag set \<Rightarrow> u32 \<Rightarrow> nat" where
  "decimals fl prec = (if FLAGS_PRECISION \<in> fl then unat prec else 6)"

lemma fixed_chars_int:
  assumes "\<bar>i\<bar> \<le> 1000000000" "decimals fl prec \<le> 9"
    "FLAGS_ZEROPAD \<in> fl \<and> FLAGS_LEFT \<notin> fl \<Longrightarrow> unat width \<le> 32"
  shows "fixed_chars (d_of_int i) prec width fl =
    Some (std_number fl 0 (unat width) (i < 0) (std_fixed (decimals fl prec) (nat \<bar>i\<bar>)))"
proof -
  let ?p = "if FLAGS_PRECISION \<notin> fl then PRINTF_DEFAULT_FLOAT_PRECISION else prec"
  have p: "unat ?p = decimals fl prec" by (simp add: decimals_def PRINTF_DEFAULT_FLOAT_PRECISION_def)
  have neg: "d_less (d_of_int i) (d_of_int 0) \<longleftrightarrow> i < 0" using assms(1) by (intro d_of_int_simps) simp_all
  have v: "(if i < 0 then d_sub (d_of_int 0) (d_of_int i) else d_of_int i) = d_of_int \<bar>i\<bar>"
    using d_of_int_sub [of 0 i] assms(1) by simp
  have d: "ftoa_digits (d_of_int \<bar>i\<bar>) ?p = Some (rev (std_fixed (decimals fl prec) (nat \<bar>i\<bar>)))"
    using assms(1,2) ftoa_digits_int [of "\<bar>i\<bar>" ?p] unfolding p by simp
  have "length (std_fixed (decimals fl prec) (nat \<bar>i\<bar>)) \<le> 30"
  proof -
    have "length (ref_digits 10 (nat \<bar>i\<bar>)) \<le> 10" using assms(1) by (intro dec_digits_length) simp
    then show ?thesis using assms(2) by (simp add: std_fixed_def std_digits_def zeros_def)
  qed
  from ftoa_sign_std [OF this assms(3)] show ?thesis
    unfolding fixed_chars_def Let_def neg v d by (simp add: split_def)
qed

lemma ftoa_int:
  assumes "\<bar>i\<bar> \<le> 1000000000" "decimals fl prec \<le> 9"
    "FLAGS_ZEROPAD \<in> fl \<and> FLAGS_LEFT \<notin> fl \<Longrightarrow> unat width \<le> 32"
  shows "ftoa out maxlen (d_of_int i) prec width fl st =
    Some (puts out maxlen (std_number fl 0 (unat width) (i < 0) (std_fixed (decimals fl prec) (nat \<bar>i\<bar>))) st)"
proof -
  have i: "\<bar>i\<bar> < 2 ^ 53" using assms(1) by simp
  have "special_chars (d_of_int i) width fl = None"
    using within_DBL_MAX [OF i] d_of_int_simps(2) [OF i] by (simp add: special_chars_def)
  moreover have "\<not> d_less PRINTF_MAX_FLOAT (d_of_int i)" "\<not> d_less (d_of_int i) (d_neg PRINTF_MAX_FLOAT)"
    using assms(1) unfolding max_float unfolding PRINTF_MAX_FLOAT_def by (simp_all add: d_of_int_simps)
  ultimately show ?thesis
    using fixed_chars_int [OF assms] by (simp add: ftoa_def ftoa_call_cases)
qed



section \<open>Defects of the fixed format\<close>

lemma limit_prec_large: "42 \<le> unat prec \<Longrightarrow> 9 < unat (fst (limit_prec prec []))"
proof -
  have "unat prec + length buf \<ge> 42 \<Longrightarrow> fits_ftoa buf \<Longrightarrow> 9 < unat (fst (limit_prec prec buf))" for buf
  proof (induction prec buf rule: limit_prec.induct)
    case (1 prec buf)
    show ?case
    proof (cases "length buf < PRINTF_FTOA_BUFFER_SIZE")
      case True
      with 1(2) have p: "prec > 9" "unat (prec - 1) = unat prec - 1"
        by (cases "prec = 0"; simp add: word_less_nat_alt PRINTF_FTOA_BUFFER_SIZE_def unat_minus_one)+
      then show ?thesis using 1 True by (simp add: limit_prec.simps [of prec buf])
    next
      case False
      then show ?thesis using 1 by (simp add: limit_prec.simps [of prec buf] PRINTF_FTOA_BUFFER_SIZE_def)
    qed
  qed
  then show "42 \<le> unat prec \<Longrightarrow> 9 < unat (fst (limit_prec prec []))" by simp
qed

text \<open>The values that \<open>_ftoa\<close> prints itself: not special and not very large.\<close>

definition fixed_range :: "double \<Rightarrow> bool" where
  "fixed_range v \<longleftrightarrow> d_eq v v \<and> \<not> d_less v (d_neg DBL_MAX) \<and> \<not> d_less DBL_MAX v \<and>
     \<not> d_less PRINTF_MAX_FLOAT v \<and> \<not> d_less v (d_neg PRINTF_MAX_FLOAT)"

lemma ftoa_digits_overrun: "42 \<le> unat prec \<Longrightarrow> ftoa_digits v prec = None"
proof -
  assume "42 \<le> unat prec"
  from limit_prec_large [OF this] have "pow10_nth (fst (limit_prec prec [])) = None"
    by (simp add: pow10_nth_def pow10_def)
  then show ?thesis
    by (simp add: ftoa_digits_def ftoa_split_def Let_def split_def split: Option.bind_split)
qed

text \<open>
  C39. A precision of 42 or more makes \<open>%f\<close> read behind the table of powers of ten, for every value up to
  \<open>10 ^ 9\<close> in magnitude: only as many places as the buffer has are cut off, and the rest is the index.
\<close>

theorem printf_float_precision_overrun:
  assumes "42 \<le> unat prec" "FLAGS_PRECISION \<in> fl" "c = CHR ''f'' \<or> c = CHR ''F''" "fixed_range v"
  shows "convert out maxlen c prec width fl (ArgDouble v # va) st = Stuck"
proof -
  have c: "c \<notin> set ''diuxXob''" using assms(3) by auto
  have "fixed_chars v prec width (if c = CHR ''F'' then fl \<union> {FLAGS_UPPERCASE} else fl) = None"
    using assms(2) by (simp add: fixed_chars_def ftoa_digits_overrun [OF assms(1)] Let_def)
  then have "ftoa out maxlen v prec width (if c = CHR ''F'' then fl \<union> {FLAGS_UPPERCASE} else fl) st = None"
    using assms(4) by (simp add: ftoa_def ftoa_call_cases special_chars_def fixed_range_def)
  then show ?thesis unfolding convert_def if_not_P [OF c] if_P [OF assms(3)] Let_def by simp
qed

theorem printf_float_precision_overrun_witness:
  "convert collect 0 (CHR ''f'') 50 0 {FLAGS_PRECISION} [ArgDouble (d_of_int 1)] (0, []) = Stuck"
proof -
  have "fixed_range (d_of_int 1)"
    using within_DBL_MAX [of 1] d_of_int_simps(2) [of 1] d_of_int_simps(1) [of 1 "- 1000000000"]
      d_of_int_simps(1) [of 1000000000 1]
    unfolding fixed_range_def max_float unfolding PRINTF_MAX_FLOAT_def by simp
  from printf_float_precision_overrun [OF _ _ _ this, of 50 "{FLAGS_PRECISION}" "CHR ''f''" collect 0 0 "[]" "(0, [])"]
  show ?thesis by simp
qed

text \<open>
  A fraction of exactly one half in the last place is rounded up without a carry: the nearest
  \<open>double\<close> to 1.95 prints with one decimal as thirty zeros and a ten.
\<close>

lemma doubles_195:
  "d_lit 195 2 = 0x3FFF333333333333" "d_to_int 0x3FFF333333333333 = Some 1" "d_of_int 1 = 0x3FF0000000000000"
  "d_sub 0x3FFF333333333333 0x3FF0000000000000 = 0x3FEE666666666666"
  "d_mul 0x3FEE666666666666 0x4024000000000000 = 0x4023000000000000" "d_to_ulong 0x4023000000000000 = Some 9"
  "d_of_int 9 = 0x4022000000000000" "d_of_int 10 = 0x4024000000000000"
  "d_sub 0x4023000000000000 0x4022000000000000 = 0x3FE0000000000000"
  "d_lit 5 1 = 0x3FE0000000000000" "\<not> d_less 0x3FE0000000000000 0x3FE0000000000000"
  by ((simp_all add: eval_exact)?, (simp_all add: eval_round)?)

lemma ftoa_split_195: "ftoa_split (d_lit 195 2) 1 = Some (1, 10)"
proof -
  have "pow10_nth 1 = Some 0x4024000000000000" using pow10_nth_small [of 1] by (simp add: doubles_195)
  then show ?thesis unfolding doubles_195(1) ftoa_split_def using doubles_195 by (simp add: Let_def)
qed

lemma extra_zeros_full: "fits_ftoa buf \<Longrightarrow> 32 \<le> unat cnt + length buf \<Longrightarrow> extra_zeros cnt buf = buf @ zeros (32 - length buf)"
proof (induction cnt buf rule: extra_zeros.induct)
  case (1 cnt buf)
  show ?case
  proof (cases "length buf = 32")
    case False
    then have l: "length buf < 32" using 1(2) by (simp add: PRINTF_FTOA_BUFFER_SIZE_def)
    then have "unat cnt = Suc (unat (cnt - 1))" "cnt > 0"
      using 1(3) by (cases "cnt = 0"; simp add: unat_minus_one unat_gt_0 word_gt_0)+
    moreover have "32 - length buf = Suc (32 - length (buf @ ''0''))" using l by simp
    ultimately show ?thesis using 1 l
      by (simp add: extra_zeros.simps [of cnt buf] zeros_def PRINTF_FTOA_BUFFER_SIZE_def)
  qed (simp add: extra_zeros.simps [of cnt buf] zeros_def PRINTF_FTOA_BUFFER_SIZE_def)
qed

lemma ftoa_digits_195: "ftoa_digits (d_lit 195 2) 1 = Some (''01'' @ zeros 30)"
proof -
  have c: "char_of (48 :: nat) = CHR ''0''" "char_of (49 :: nat) = CHR ''1''" by code_simp+
  have l: "limit_prec 1 [] = (1, [])" by (simp add: limit_prec.simps [of 1 "[]"])
  have f: "frac_digits 1 10 [] = (- 1, ''01'')"
    by (simp add: frac_digits.simps [of 1 10 "[]"] frac_digits.simps [of 0 1 "''0''"] c PRINTF_FTOA_BUFFER_SIZE_def Let_def)
  have "unat (- 1 :: u32) = 4294967295" by (simp add: unsigned_minus_1_eq_mask mask_eq_exp_minus_1)
  then have e: "extra_zeros (- 1) ''01'' = ''01'' @ zeros 30"
    using extra_zeros_full [of "''01''" "- 1"] by (simp add: PRINTF_FTOA_BUFFER_SIZE_def)
  have d: "ftoa_add (CHR ''.'') (''01'' @ zeros 30) = ''01'' @ zeros 30"
    by (simp add: ftoa_add_def zeros_def PRINTF_FTOA_BUFFER_SIZE_def)
  have w: "whole_digits 1 (''01'' @ zeros 30) = ''01'' @ zeros 30"
    by (subst whole_digits.simps) (simp add: zeros_def PRINTF_FTOA_BUFFER_SIZE_def)
  show ?thesis unfolding ftoa_digits_def l ftoa_split_195 Let_def prod.case using f e d w by simp
qed

lemma printf_half_no_carry:
  "convert collect 0 (CHR ''f'') 1 0 {FLAGS_PRECISION} [ArgDouble (d_lit 195 2)] (0, []) =
    Done ([], 32, zeros 30 @ ''10'')"
proof -
  have n: "\<not> d_less (d_lit 195 2) (d_of_int 0)"
    unfolding doubles_195 by (simp add: d_of_int_def d_round_def d_pack_def eval_exact)
  have r: "fixed_range (d_lit 195 2)"
    unfolding fixed_range_def max_float d_less_def d_eq_def fval_DBL_MAX doubles_195
    by (simp add: PRINTF_MAX_FLOAT_def eval_exact eval_round)
  have "fixed_chars (d_lit 195 2) 1 0 {FLAGS_PRECISION} = Some (zeros 30 @ ''10'')"
    unfolding fixed_chars_def Let_def using n ftoa_digits_195
    by (simp add: ftoa_sign_def rev_chars_def blanks_def zeros_def)
  then have "ftoa collect 0 (d_lit 195 2) 1 0 {FLAGS_PRECISION} (0, []) = Some (32, zeros 30 @ ''10'')"
    using r by (simp add: ftoa_def ftoa_call_cases special_chars_def fixed_range_def zeros_def collect_def)
  then show ?thesis by (simp add: convert_def)
qed

end
