(* ===== verification/Printf_Exp.thy ===== *)
theory Printf_Exp
  imports Printf_Double
begin

unbundle bit_operations_syntax

text \<open>
  The exponential format run on one value, zero, down to the bits of every intermediate \<open>double\<close>.
\<close>

section \<open>Zero in the exponential format\<close>

text \<open>
  The decimal exponent of zero: the exponent bits of zero are taken at their face value, so \<open>%e\<close>
  prints zero with the exponent -308.
\<close>

lemma doubles_zero_1:
  "d_lit 1760912590558 13 = 0x3FC68A288B60C8B3"
  "d_of_int (- 1023) = 0xC08FF80000000000"
  "d_lit 301029995663981 15 = 0x3FD34413509F79FB"
  "d_mul 0xC08FF80000000000 0x3FD34413509F79FB = 0xC0733F424BCB521D"
  "d_add 0x3FC68A288B60C8B3 0xC0733F424BCB521D = 0xC0733C7106B9E604"
  "d_lit 15 1 = 0x3FF8000000000000"
  by ((simp_all add: eval_exact)?, (simp_all add: eval_round)?)

lemma doubles_zero_2:
  "d_sub 0x3FF0000000000000 0x3FF8000000000000 = 0xBFE0000000000000"
  "d_lit 289529654602168 15 = 0x3FD287A7636F4361"
  "d_mul 0xBFE0000000000000 0x3FD287A7636F4361 = 0xBFC287A7636F4361"
  "d_add 0xC0733C7106B9E604 0xBFC287A7636F4361 = 0xC0733EC1FBA653EC"
  "d_to_int 0xC0733EC1FBA653EC = Some (- 307)"
  "d_of_int (- 307) = 0xC073300000000000"
  by ((simp_all add: eval_exact)?, (simp_all add: eval_round)?)

lemma doubles_zero_3:
  "d_lit 3321928094887362 15 = 0x400A934F0979A371"
  "d_mul 0xC073300000000000 0x400A934F0979A371 = 0xC08FDEA7C85CDF01"
  "d_lit 5 1 = 0x3FE0000000000000"
  "d_add 0xC08FDEA7C85CDF01 0x3FE0000000000000 = 0xC08FDAA7C85CDF01"
  "d_to_int 0xC08FDAA7C85CDF01 = Some (- 1019)"
  "d_lit 2302585092994046 15 = 0x40026BB1BBB55516"
  by ((simp_all add: eval_exact)?, (simp_all add: eval_round)?)

lemma doubles_zero_4:
  "d_mul 0xC073300000000000 0x40026BB1BBB55516 = 0xC0861726241A7509"
  "d_of_int (- 1019) = 0xC08FD80000000000"
  "d_lit 6931471805599453 16 = 0x3FE62E42FEFA39EF"
  "d_mul 0xC08FD80000000000 0x3FE62E42FEFA39EF = 0xC08612892B3B8127"
  "d_sub 0xC0861726241A7509 0xC08612892B3B8127 = 0xBFE273E37BCF8800"
  "d_mul 0xBFE273E37BCF8800 0xBFE273E37BCF8800 = 0x3FD5480739490622"
  by ((simp_all add: eval_exact)?, (simp_all add: eval_round)?)

lemma doubles_zero_5:
  "d_of_int (14) = 0x402C000000000000"
  "d_div 0x3FD5480739490622 0x402C000000000000 = 0x3F985251660A5027"
  "d_of_int (10) = 0x4024000000000000"
  "d_add 0x4024000000000000 0x3F985251660A5027 = 0x40240C2928B30528"
  "d_div 0x3FD5480739490622 0x40240C2928B30528 = 0x3FA0FC185E3FB1B6"
  "d_of_int (6) = 0x4018000000000000"
  by ((simp_all add: eval_exact)?, (simp_all add: eval_round)?)

lemma doubles_zero_6:
  "d_add 0x4018000000000000 0x3FA0FC185E3FB1B6 = 0x401821F830BC7F63"
  "d_div 0x3FD5480739490622 0x401821F830BC7F63 = 0x3FAC3818AD7B54BA"
  "d_of_int (2) = 0x4000000000000000"
  "d_sub 0x4000000000000000 0xBFE273E37BCF8800 = 0x40049CF8DEF3E200"
  "d_add 0x40049CF8DEF3E200 0x3FAC3818AD7B54BA = 0x40050DD941A9CF53"
  "d_mul 0x4000000000000000 0xBFE273E37BCF8800 = 0xBFF273E37BCF8800"
  by ((simp_all add: eval_exact)?, (simp_all add: eval_round)?)

lemma doubles_zero_7:
  "d_div 0xBFF273E37BCF8800 0x40050DD941A9CF53 = 0xBFDC0BCFA7532D31"
  "d_of_int (1) = 0x3FF0000000000000"
  "d_add 0x3FF0000000000000 0xBFDC0BCFA7532D31 = 0x3FE1FA182C566968"
  "d_mul 0x40000000000000 0x3FE1FA182C566968 = 0x31FA182C566968"
  "d_less 0 0x31FA182C566968"
  "d_div 0x31FA182C566968 0x4024000000000000 = 0x730D678229090"
  by ((simp_all add: eval_exact)?, (simp_all add: eval_round)?)

lemmas doubles_zero = doubles_zero_1 doubles_zero_2 doubles_zero_3 doubles_zero_4 doubles_zero_5 doubles_zero_6 doubles_zero_7

lemma decimal_exponent_zero: "decimal_exponent 0 = Some (- 308, 0x730D678229090)"
  by (simp add: decimal_exponent_def doubles_zero push_bit_eq_mult Let_def del: One_nat_def)

lemma etoa_zero: "etoa collect 0 0 0 0 {} (0, []) = Some (13, ''0.000000e-308'')"
proof -
  have v: "fval 0 = Finite False 0 (- 1074)" by (simp add: fval_def)
  have z: "d_of_int 0 = 0" by (simp add: d_of_int_def d_round_def d_pack_def)
  have s: "\<not> d_less DBL_MAX 0" "\<not> d_less 0 (d_neg DBL_MAX)" "d_eq 0 0" "\<not> d_less 0 0"
    using within_DBL_MAX [of 0] d_of_int_simps(1) [of 0 0] d_of_int_simps(2) [of 0] unfolding z by simp_all
  have a: "adapt_exp 0 (- 308) 6 {} = (6, {}, 5, - 308)" by (simp add: adapt_exp_def)
  have d: "d_div 0 0x730D678229090 = 0" by (simp add: eval_exact eval_round)
  have f: "std_number {} 0 0 False (std_fixed 6 0) = ''0.000000''" by code_simp
  have i: "ftoa_call collect 0 (0, 6, 0, {}, (0, [])) = Some (8, ''0.000000'')"
    using ftoa_int [of 0 "{}" 6 0 collect 0 "(0, [])"] unfolding z ftoa_def
    by (simp add: f decimals_def collect_def)
  have n: "number_chars 308 True 10 0 4 {FLAGS_ZEROPAD, FLAGS_PLUS} = ''-308''" by code_simp
  show ?thesis
    unfolding etoa_def etoa_with_def using s i n
    by (simp add: z PRINTF_DEFAULT_FLOAT_PRECISION_def decimal_exponent_zero a d Let_def ntoa_puts collect_def)
qed

end
