(* ===== verification/Spec2Isabelle.thy ===== *)
theory Spec2Isabelle
  imports CMem UnitTests PageTest Console Printf_Types Printf_Exp
begin

text \<open>
  A small operating-system personality on the seL4 microkernel: a root server that owns the untyped
  memory, hands out memory and threads, serves system calls over an endpoint, and runs a shell on
  the serial console. All code is under \<open>userland/\<close>.

  \<^bold>\<open>The parts and how they interact.\<close> \<open>start_root\<close> makes a \<open>RootServer\<close>, which initialises its page
  table (\<open>PageTable\<close>), maps ten reserved pages, gives them to the kernel heap (\<open>kmalloc.cpp\<close>), and
  makes an endpoint. Kernel objects come from \<open>InitialUntypedPool\<close>: a capability slot from the free
  region of the boot information, and a retype of the first untyped memory that accepts it. Page
  tables missing at an address are allocated through the same pool. \<open>ObjectFactory\<close> makes threads: a
  C++ object on the kernel heap, a TCB, mapped pages for stack, message buffer and thread-local storage, a badged copy
  of the endpoint. The server keeps the threads in a \<open>vector\<close>, finds the sender of a message by its
  badge, decodes the registers into a request (\<open>Syscall.hpp\<close>), does it, and replies. The console
  thread feeds characters to the \<open>Shell\<close>, which edits a line and turns commands into system calls.
  The heap is guarded by a mutex over a seL4 notification (\<open>mutex.h\<close>, \<open>bin_sem.h\<close>). \<open>printf.c\<close> is the
  formatted output everything prints with.

  \<^bold>\<open>Theories and sources.\<close>

  \<^item> \<open>Prelude\<close>: machine words, and \<open>outcome\<close>: \<open>Done x\<close> is a return, \<open>Stuck\<close> a failed assertion or an
    access outside the memory at hand, \<open>Blocked\<close> a call that waits for ever.
  \<^item> \<open>Sync\<close>: \<open>mutex.h\<close>, \<open>bin_sem.h\<close>, \<open>bin_sem_bare.h\<close>. The functions as they run alone, and \<open>sem_step\<close>,
    one atomic access per step of any number of threads in any interleaving.
  \<^item> \<open>Kmalloc\<close> (model), \<open>Kmalloc_List\<close>, \<open>Kmalloc_Inv\<close>, \<open>Kmalloc_Search\<close>, \<open>Kmalloc_Ops\<close> (refinement to
    chunk lists), \<open>Kmalloc_API\<close> (the \<open>allocator\<close> contract and its two interpretations), \<open>Kmalloc_Props\<close>:
    \<open>kmalloc.cpp\<close>, \<open>runtime.h\<close>. The pool is an array of chunk headers with next and previous links.
    \<open>Heap_Room\<close>: a budget of chunks within which every request is met.
  \<^item> \<open>CString\<close>, \<open>CMem\<close>: \<open>lib/cstring.h\<close>, \<open>cstubs.c\<close>, \<open>stdcpp_stubs.cpp\<close>.
  \<^item> \<open>Expected\<close>, \<open>Optional\<close>, \<open>Vector\<close>, \<open>BasicString\<close>: the headers of these names in \<open>lib/\<close>. \<open>UnitTests\<close>: the
    tests in \<open>unittests/\<close>, run over a host whose memory functions are parameters.
  \<^item> \<open>Kernel\<close>: the kernel as a parameter, and \<open>sel4.cpp\<close>. \<open>Syscall\<close>: \<open>Syscall.hpp\<close>, \<open>Syscall.cpp\<close>.
  \<^item> \<open>UntypedPool\<close>, \<open>PageTable\<close> (with \<open>VMSpace.hpp\<close>), \<open>Thread\<close>, \<open>ObjectFactory\<close>: the files of these names.
    Their states extend one another as the C++ objects share the kernel and the pool.
  \<^item> \<open>Shell\<close>, \<open>Shell_Props\<close>: \<open>Shell.cpp\<close>. \<open>RootServer\<close>, \<open>Root_Props\<close>, \<open>Root_System\<close>: \<open>RootServer.cpp\<close>, and
    clients and server composed through the message registers. \<open>PageTest\<close>: \<open>RootServer::testPt\<close>, with
    the memory behind mapped pages. \<open>Startup\<close>, \<open>Startup_Props\<close>: \<open>init.c\<close>, \<open>main.c\<close>, \<open>tls.c\<close>,
    \<open>putchar_impl.c\<close>, and the whole program from power-on to its run loop.
  \<^item> \<open>Shell_Client\<close>: the shell over the interface it relies on, the locale \<open>shell_server\<close>. \<open>Console\<close>: the
    root server as that interface, and the console from power-on, alone and among other clients.
  \<^item> \<open>Printf_Out\<close>, \<open>Printf_Float\<close>, \<open>Printf\<close> (model), \<open>Printf_Chars\<close>, \<open>Printf_Props\<close>, \<open>Printf_Num\<close>,
    \<open>Printf_Types\<close>, \<open>Printf_Double\<close>, \<open>Printf_Exp\<close> (properties): \<open>printf.c\<close>. \<open>Binary64\<close> is the type \<open>double\<close> of
    the language, on bits.

  \<^bold>\<open>What the lemmas show.\<close> For the mutex: exclusion, no lost wake-up, a counter that stays in range,
  and that locking twice blocks everybody. For the heap: an invariant that \<open>setMemoryPool\<close> establishes and
  every operation keeps, first fit, freeing in address order, a round trip, and the contract every
  client relies on. For the strings, \<open>strtol\<close> against the mathematical value. For
  the objects of the kernel: which slots and memories are used in which order, what is asked of the
  kernel, and what is left behind on every error exit. For the shell: the line buffer
  refines a list edited by the keys, and every line without a trap returns within a budget of heap
  chunks (51 for the copies of the line and the history's array, and what a \<open>kmalloc\<close> line asks for),
  until the eleventh history entry. For the system: a call from the client's registers to its
  decoded answer is the operation it names; the table of threads stays live and distinct; live
  memory of clients, server and shell stays apart; every allowed call is answered; which messages the
  server survives; that a console session from power-on runs to its end. For the output:
  the interpreter is the characters of the format, integers print as the C standard says,
  \<open>strtol\<close> reads them back, a check of the format decides which calls return, and integral floating-point
  numbers print exactly; lemmas run the code on values where it does not (\<open>printf_half_no_carry\<close>, \<open>etoa_zero\<close>).

  \<^bold>\<open>Parameters.\<close> The kernel is not in the repository: \<open>respond\<close> answers each call from the history of
  calls before it, so theorems hold for every kernel; a property that needs documented
  behaviour names it as a hypothesis. The notification of the mutex has the laws of seL4's binary
  notifications. Object sizes and the entry points of threads are parameters (\<open>layout\<close>).

  \<^bold>\<open>Bounds and fuel.\<close> No definition uses fuel. Loops that may not end (\<open>chunk_count_loop\<close>, \<open>find_run\<close>,
  \<open>link_chunks\<close>, \<open>find_prev\<close>, and \<open>ftoa_call\<close>, where \<open>_ftoa\<close> and \<open>_etoa\<close> call each other) are \<open>partial_function (option)\<close>, and their results are proved to exist where a
  theorem says that the code returns. \<open>u64\<close> and \<open>u32\<close> wrap; signed overflow, which the language leaves undefined, is
  taken to wrap where the code reaches it (\<open>0 - value\<close> of the least integer in \<open>printf.c\<close>).

  \<^bold>\<open>Not modelled.\<close> Printing done for information by the other parts. \<open>vector::erase\<close> calls operators that
  \<open>Iterator\<close> does not have, so no instance of it compiles; \<open>testVectorRemove\<close>, its only caller, is left
  out with it. The start-up assembly and the linker script are no C or C++; what the linker fixes is a
  parameter (\<open>image\<close>). Code under \<open>#if 0\<close>. The traps of a command line that \<open>safe_line\<close> names have lemmas
  or findings of their own: they read behind a text, free or write memory of the user's choice, or
  count for ever. A call of the shell and the server's work on it are one step, as the caller waits
  for the reply; interleaving below that level is shown for the mutex only (\<open>Sync\<close>).
\<close>

end
